(* ===== verification/Raner_Prelude.thy ===== *)
theory Raner_Prelude
  imports Main "HOL-Library.Word" "HOL-Library.AList"
begin

unbundle bit_operations_syntax

text \<open>
  Shared vocabulary of the development: machine integer types, the failures a C++
  operation of raner can end in, the result type that carries them, and the generic
  facts on results, lists, association lists and bit masks that the components use.

  A failing \<open>assert\<close>, \<open>DCHECK\<close>, \<open>CHECK\<close> or \<open>LOG(FATAL)\<close> ends the process; the model
  returns it as a \<open>fault\<close>. The release build compiles \<open>assert\<close> and \<open>DCHECK\<close> away, so a
  lemma that an operation does not fault also says that both builds do the same.
\<close>

section \<open>Types\<close>

type_synonym u8 = "8 word"
type_synonym u16 = "16 word"
type_synonym u32 = "32 word"
type_synonym u64 = "64 word"

type_synonym bytes = "u8 list"

text \<open>An event mask (\<open>int\<close> in the source, used bitwise only).\<close>

type_synonym mask = u32

datatype fault =
    AssertFailed      \<comment> \<open>\<open>assert(...)\<close>\<close>
  | DCheckFailed      \<comment> \<open>\<open>DCHECK...\<close>\<close>
  | CheckFailed       \<comment> \<open>\<open>CHECK...\<close>\<close>
  | LogFatal          \<comment> \<open>\<open>LOG(FATAL)\<close>, \<open>LOG(DFATAL)\<close>\<close>
  | LengthError       \<comment> \<open>\<open>std::length_error\<close> out of \<open>vector::resize\<close>\<close>
  | InvalidAccess     \<comment> \<open>null or dangling pointer, invalid iterator: undefined behaviour\<close>
  | SignedOverflow    \<comment> \<open>overflow of a signed integer: undefined behaviour\<close>
  | OutOfFuel         \<comment> \<open>the bound given to a modelled loop is used up\<close>

type_synonym 'a res = "fault + 'a"

section \<open>Results\<close>

named_theorems res_simps
named_theorems raner_defs

definition bindr :: "'a res \<Rightarrow> ('a \<Rightarrow> 'b res) \<Rightarrow> 'b res" where
  "bindr m f = (case m of Inl e \<Rightarrow> Inl e | Inr x \<Rightarrow> f x)"

definition mapr :: "('a \<Rightarrow> 'b) \<Rightarrow> 'a res \<Rightarrow> 'b res" where
  "mapr f m = (case m of Inl e \<Rightarrow> Inl e | Inr x \<Rightarrow> Inr (f x))"

text \<open>\<open>guard e P k\<close> is the check \<open>P\<close> (fault \<open>e\<close> if it fails) followed by \<open>k\<close>.\<close>

definition guard :: "fault \<Rightarrow> bool \<Rightarrow> 'a res \<Rightarrow> 'a res" where
  "guard e P k = (if P then k else Inl e)"

text \<open>\<open>res_inv P m\<close>: if \<open>m\<close> returns, its value satisfies \<open>P\<close>; \<open>res_ok P m\<close>: it returns
  and its value satisfies \<open>P\<close>.\<close>

definition res_inv :: "('a \<Rightarrow> bool) \<Rightarrow> 'a res \<Rightarrow> bool" where
  "res_inv P m = (case m of Inl _ \<Rightarrow> True | Inr x \<Rightarrow> P x)"

definition res_ok :: "('a \<Rightarrow> bool) \<Rightarrow> 'a res \<Rightarrow> bool" where
  "res_ok P m = (case m of Inl _ \<Rightarrow> False | Inr x \<Rightarrow> P x)"

lemma bindr_Inl [simp]: "bindr (Inl e) f = Inl e"
  by (simp add: bindr_def)

lemma bindr_Inr [simp]: "bindr (Inr x) f = f x"
  by (simp add: bindr_def)

lemma bindr_eq_Inr [res_simps]: "bindr m f = Inr y \<longleftrightarrow> (\<exists>x. m = Inr x \<and> f x = Inr y)"
  by (cases m) auto

lemma bindr_eq_Inl [res_simps]:
  "bindr m f = Inl e \<longleftrightarrow> m = Inl e \<or> (\<exists>x. m = Inr x \<and> f x = Inl e)"
  by (cases m) auto

lemma bindr_return [simp]: "bindr m Inr = m"
  by (cases m) auto

lemma bindr_assoc: "bindr (bindr m f) g = bindr m (\<lambda>x. bindr (f x) g)"
  by (cases m) auto

lemma bindr_cong [fundef_cong]:
  "m = m' \<Longrightarrow> (\<And>x. m' = Inr x \<Longrightarrow> f x = g x) \<Longrightarrow> bindr m f = bindr m' g"
  by (cases m') auto

lemma mapr_Inl [simp]: "mapr f (Inl e) = Inl e"
  by (simp add: mapr_def)

lemma mapr_Inr [simp]: "mapr f (Inr x) = Inr (f x)"
  by (simp add: mapr_def)

lemma mapr_eq_Inr [res_simps]: "mapr f m = Inr y \<longleftrightarrow> (\<exists>x. m = Inr x \<and> y = f x)"
  by (cases m) auto

lemma mapr_eq_Inl [res_simps]: "mapr f m = Inl e \<longleftrightarrow> m = Inl e"
  by (cases m) auto

lemma guard_True [simp]: "guard e True k = k"
  by (simp add: guard_def)

lemma guard_False [simp]: "guard e False k = Inl e"
  by (simp add: guard_def)

lemma guard_eq_Inr [res_simps]: "guard e P k = Inr y \<longleftrightarrow> P \<and> k = Inr y"
  by (simp add: guard_def)

lemma guard_cong [fundef_cong]: "P = P' \<Longrightarrow> (P' \<Longrightarrow> k = k') \<Longrightarrow> guard e P k = guard e P' k'"
  by (simp add: guard_def)

lemma res_inv_simps [simp]: "res_inv P (Inl e)" "res_inv P (Inr x) = P x"
  by (simp_all add: res_inv_def)

lemma res_ok_simps [simp]: "\<not> res_ok P (Inl e)" "res_ok P (Inr x) = P x"
  by (simp_all add: res_ok_def)

lemma res_inv_bindr:
  "res_inv Q m \<Longrightarrow> (\<And>x. Q x \<Longrightarrow> res_inv P (f x)) \<Longrightarrow> res_inv P (bindr m f)"
  by (cases m) auto

lemma res_ok_bindr:
  "res_ok Q m \<Longrightarrow> (\<And>x. Q x \<Longrightarrow> res_ok P (f x)) \<Longrightarrow> res_ok P (bindr m f)"
  by (cases m) auto

lemma res_inv_guard: "(P \<Longrightarrow> res_inv Q k) \<Longrightarrow> res_inv Q (guard e P k)"
  by (simp add: guard_def)

lemma res_ok_imp_inv: "res_ok P m \<Longrightarrow> res_inv P m"
  by (cases m) auto

lemma res_ok_mono: "res_ok P m \<Longrightarrow> (\<And>x. P x \<Longrightarrow> Q x) \<Longrightarrow> res_ok Q m"
  by (cases m) auto

lemma res_inv_D: "res_inv P m \<Longrightarrow> m = Inr x \<Longrightarrow> P x"
  by simp

lemma res_ok_E: "res_ok P m \<Longrightarrow> (\<And>x. m = Inr x \<Longrightarrow> P x \<Longrightarrow> thesis) \<Longrightarrow> thesis"
  by (cases m) auto

text \<open>\<open>res_only F P m\<close>: \<open>m\<close> returns a value that satisfies \<open>P\<close>, or one of the faults \<open>F\<close>.\<close>

definition res_only :: "fault set \<Rightarrow> ('a \<Rightarrow> bool) \<Rightarrow> 'a res \<Rightarrow> bool" where
  "res_only F P m = (case m of Inl e \<Rightarrow> e \<in> F | Inr x \<Rightarrow> P x)"

lemma res_only_simps [simp]: "res_only F P (Inl e) = (e \<in> F)" "res_only F P (Inr x) = P x"
  by (simp_all add: res_only_def)

lemma res_only_bindr:
  "res_only F Q m \<Longrightarrow> (\<And>x. Q x \<Longrightarrow> res_only F P (f x)) \<Longrightarrow> res_only F P (bindr m f)"
  by (cases m) auto

lemma res_only_mapr [simp]: "res_only F P (mapr g m) = res_only F (\<lambda>x. P (g x)) m"
  by (cases m) auto

lemma res_only_guard: "(P \<Longrightarrow> res_only F Q k) \<Longrightarrow> (\<not> P \<Longrightarrow> e \<in> F) \<Longrightarrow> res_only F Q (guard e P k)"
  by (simp add: guard_def)

lemma res_only_mono:
  "res_only F P m \<Longrightarrow> F \<subseteq> G \<Longrightarrow> (\<And>x. P x \<Longrightarrow> Q x) \<Longrightarrow> res_only G Q m"
  by (cases m) auto

lemma res_only_conj_inv: "res_only F P m \<Longrightarrow> res_inv Q m \<Longrightarrow> res_only F (\<lambda>x. P x \<and> Q x) m"
  by (cases m) auto

lemma res_inv_conj: "res_inv P m \<Longrightarrow> res_inv Q m \<Longrightarrow> res_inv (\<lambda>x. P x \<and> Q x) m"
  by (cases m) auto

lemma res_inv_mapr [simp]: "res_inv P (mapr g m) = res_inv (\<lambda>x. P (g x)) m"
  by (cases m) auto

lemma res_inv_mono: "res_inv P m \<Longrightarrow> (\<And>x. P x \<Longrightarrow> Q x) \<Longrightarrow> res_inv Q m"
  by (cases m) auto

text \<open>\<open>res_sim rel m m'\<close>: the same fault, or two related values.\<close>

definition res_sim :: "('a \<Rightarrow> 'b \<Rightarrow> bool) \<Rightarrow> 'a res \<Rightarrow> 'b res \<Rightarrow> bool" where
  "res_sim rel m m' =
     (case (m, m') of (Inl e, Inl e') \<Rightarrow> e = e' | (Inr x, Inr y) \<Rightarrow> rel x y | _ \<Rightarrow> False)"

lemma res_sim_simps [simp]:
  "res_sim rel (Inl e) m' \<longleftrightarrow> m' = Inl e"
  "res_sim rel m (Inl e) \<longleftrightarrow> m = Inl e"
  "res_sim rel (Inr x) (Inr y) \<longleftrightarrow> rel x y"
  by (auto simp: res_sim_def split: sum.splits)

lemma res_sim_bindr:
  assumes "res_sim rel m m'" "\<And>x y. rel x y \<Longrightarrow> res_sim rel' (f x) (g y)"
  shows "res_sim rel' (bindr m f) (bindr m' g)"
  using assms by (cases m; cases m') auto

lemma res_sim_guard: "(P \<Longrightarrow> res_sim rel k k') \<Longrightarrow> res_sim rel (guard e P k) (guard e P k')"
  by (simp add: guard_def)

text \<open>Performing a list of operations in order, up to the first fault.\<close>

fun fold_res :: "('o \<Rightarrow> 's \<Rightarrow> 's res) \<Rightarrow> 'o list \<Rightarrow> 's \<Rightarrow> 's res" where
  "fold_res f [] s = Inr s"
| "fold_res f (x # xs) s = bindr (f x s) (fold_res f xs)"

lemma fold_res_append: "fold_res f (xs @ ys) s = bindr (fold_res f xs s) (fold_res f ys)"
  by (induction xs arbitrary: s) (auto simp: bindr_assoc intro: bindr_cong)

lemma fold_res_inv:
  assumes "P s" and "\<And>x s. x \<in> set xs \<Longrightarrow> P s \<Longrightarrow> res_inv P (f x s)"
  shows "res_inv P (fold_res f xs s)"
  using assms
proof (induction xs arbitrary: s)
  case Nil
  then show ?case by simp
next
  case (Cons x xs)
  then show ?case by (auto intro!: res_inv_bindr [where Q = P])
qed

lemma fold_res_ok:
  assumes "P s" and "\<And>x s. x \<in> set xs \<Longrightarrow> P s \<Longrightarrow> res_ok P (f x s)"
  shows "res_ok P (fold_res f xs s)"
  using assms
proof (induction xs arbitrary: s)
  case Nil
  then show ?case by simp
next
  case (Cons x xs)
  then show ?case by (auto intro!: res_ok_bindr [where Q = P])
qed

lemma fold_res_only:
  assumes "P s" and "\<And>x s. x \<in> set xs \<Longrightarrow> P s \<Longrightarrow> res_only F P (f x s)"
  shows "res_only F P (fold_res f xs s)"
  using assms by (induction xs arbitrary: s) (auto intro!: res_only_bindr [where Q = P])

lemma fold_res_sim:
  assumes "rel x y" "\<And>p x y. p \<in> set ps \<Longrightarrow> rel x y \<Longrightarrow> res_sim rel (f p x) (g p y)"
  shows "res_sim rel (fold_res f ps x) (fold_res g ps y)"
  using assms by (induction ps arbitrary: x y) (auto intro!: res_sim_bindr [where rel = rel])

section \<open>Lists\<close>

text \<open>Overwriting part of an array, as \<open>std::copy\<close> and \<open>memcpy\<close> do.\<close>

definition overwrite :: "nat \<Rightarrow> 'a list \<Rightarrow> 'a list \<Rightarrow> 'a list" where
  "overwrite i d xs = take i xs @ d @ drop (i + length d) xs"

lemma length_overwrite [simp]:
  "i + length d \<le> length xs \<Longrightarrow> length (overwrite i d xs) = length xs"
  by (simp add: overwrite_def)

lemma take_overwrite [simp]: "n \<le> i \<Longrightarrow> i \<le> length xs \<Longrightarrow> take n (overwrite i d xs) = take n xs"
  by (simp add: overwrite_def)

lemma overwrite_segment:
  assumes "r \<le> w" and "w + length d \<le> length xs"
  shows "take (w + length d - r) (drop r (overwrite w d xs)) = take (w - r) (drop r xs) @ d"
  using assms by (simp add: overwrite_def take_drop)

lemma overwrite_nil [simp]: "overwrite i [] xs = xs"
  by (simp add: overwrite_def)

text \<open>Results of \<open>int64_t\<close> arithmetic that do not overflow.\<close>

definition fits_int64 :: "int \<Rightarrow> bool" where
  "fits_int64 i \<longleftrightarrow> - (2 ^ 63) \<le> i \<and> i < 2 ^ 63"

section \<open>Decimal numbers\<close>

text \<open>\<open>%u\<close> of \<open>snprintf\<close>.\<close>

fun digits :: "nat \<Rightarrow> string" where
  "digits n = (if n < 10 then [char_of (48 + n)] else digits (n div 10) @ [char_of (48 + n mod 10)])"

declare digits.simps [simp del]

text \<open>What \<open>std::string::c_str\<close> shows to a C function, and what \<open>snprintf\<close> leaves in a buffer of a given size.\<close>

definition c_str :: "string \<Rightarrow> string" where
  "c_str s = takeWhile (\<lambda>c. c \<noteq> CHR 0x00) s"

definition snprintf :: "nat \<Rightarrow> string \<Rightarrow> string" where
  "snprintf n s = take (n - 1) s"

end
