(* ===== verification/Epoll_Server.thy ===== *)
theory Epoll_Server
  imports Raner_Prelude
begin

unbundle bit_operations_syntax

text \<open>
  The definitions of \<open>raner::EpollServer\<close> and \<open>raner::EpollAlarm\<close>, \<open>raner/epoll_server.h\<close> and
  \<open>raner/epoll_server.cc\<close>.

  The set of \<open>CBAndEventMask\<close> nodes is an association list from descriptors to nodes (one node
  per descriptor, so the descriptor is also the address of the node), in the order iteration
  meets them. The intrusive lists \<open>ready_list_\<close> and \<open>tmp_list_\<close> are kept as the code has them:
  \<open>le_next\<close> is a pointer to a node, \<open>le_prev\<close> the address of the pointer that points to the node,
  and \<open>LIST_INSERT_HEAD\<close> and \<open>LIST_REMOVE\<close> of \<open><sys/queue.h>\<close> assign through them. The alarm map,
  a \<open>std::multimap\<close>, is the list of its elements in iteration order, each with the identity of
  its iterator (\<open>AlarmRegToken\<close>).

  The operating system and the callbacks are the parameter \<open>env\<close>. A system call returns what
  \<open>env\<close> says for the calls and callbacks so far (\<open>obs_trace\<close>, newest first). \<open>OnEvent\<close> and
  \<open>OnAlarm\<close> run a list of calls back into the server that \<open>env\<close> chooses from the state;
  \<open>OnRegistration\<close>, \<open>OnModification\<close>, \<open>OnUnregistration\<close> and \<open>OnShutdown\<close> of descriptors, empty in
  every callback class of the repository, are recorded in the trace only. \<open>ndebug\<close> selects the
  release build, where \<open>DCHECK\<close> does nothing.
\<close>

section \<open>Data\<close>

type_synonym fd = int
type_synonym cb = nat
type_synonym alarm = nat
type_synonym token = nat

definition EPOLLIN :: mask where "EPOLLIN = 0x001"
definition EPOLLPRI :: mask where "EPOLLPRI = 0x002"
definition EPOLLOUT :: mask where "EPOLLOUT = 0x004"
definition EPOLLERR :: mask where "EPOLLERR = 0x008"
definition EPOLLHUP :: mask where "EPOLLHUP = 0x010"
definition EPOLLRDNORM :: mask where "EPOLLRDNORM = 0x040"
definition EPOLLRDBAND :: mask where "EPOLLRDBAND = 0x080"
definition EPOLLWRNORM :: mask where "EPOLLWRNORM = 0x100"
definition EPOLLWRBAND :: mask where "EPOLLWRBAND = 0x200"
definition EPOLLMSG :: mask where "EPOLLMSG = 0x400"
definition EPOLLONESHOT :: mask where "EPOLLONESHOT = 0x40000000"
definition EPOLLET :: mask where "EPOLLET = 0x80000000"

definition O_NONBLOCK :: mask where "O_NONBLOCK = 0x800"

lemmas epoll_flags = EPOLLIN_def EPOLLPRI_def EPOLLOUT_def EPOLLERR_def EPOLLHUP_def
  EPOLLRDNORM_def EPOLLRDBAND_def EPOLLWRNORM_def EPOLLWRBAND_def EPOLLMSG_def
  EPOLLONESHOT_def EPOLLET_def

text \<open>The address in \<open>le_prev\<close>: null, a list head, or the \<open>le_next\<close> field of a node.\<close>

datatype le_ptr = PNull | PReady | PTmp | PNext fd

record cb_and_event_mask =
  e_cb :: "cb option"
  le_next :: "fd option"
  le_prev :: le_ptr
  e_event_mask :: mask
  e_events_asserted :: mask
  e_events_to_fake :: mask
  e_in_use :: bool

definition CBAndEventMask :: "cb \<Rightarrow> mask \<Rightarrow> cb_and_event_mask" where
  "CBAndEventMask c em =
     \<lparr>e_cb = Some c, le_next = None, le_prev = PNull, e_event_mask = em,
      e_events_asserted = 0, e_events_to_fake = 0, e_in_use = False\<rparr>"

datatype ctl = CtlAdd fd mask | CtlMod fd mask | CtlDel fd

datatype obs =
    SysCtl ctl int                  \<comment> \<open>\<open>epoll_ctl\<close> and its result\<close>
  | SysGetFl fd int                 \<comment> \<open>\<open>fcntl(fd, F_GETFL)\<close>\<close>
  | SysSetFl fd mask int            \<comment> \<open>\<open>fcntl(fd, F_SETFL, flags)\<close>\<close>
  | SysWait int                     \<comment> \<open>\<open>epoll_wait\<close> with its timeout in milliseconds\<close>
  | SysNow int                      \<comment> \<open>\<open>Time::Now()\<close>\<close>
  | SysWrite int                    \<comment> \<open>\<open>write\<close> of one byte to the wake pipe\<close>
  | SysClose fd
  | CallOnRegistration cb fd mask
  | CallOnModification cb fd mask
  | CallOnUnregistration cb fd bool
  | CallOnEvent cb fd mask
  | CallOnShutdown cb fd
  | CallAlarmOnRegistration alarm token
  | CallAlarmOnUnregistration alarm
  | CallAlarmOnAlarm alarm
  | CallAlarmOnShutdown alarm

text \<open>\<open>EpollAlarm\<close>: \<open>token_\<close>, \<open>eps_\<close> (null or this server) and \<open>registered_\<close>.\<close>

record epoll_alarm =
  a_token :: "token option"
  a_eps :: bool
  a_registered :: bool

definition EpollAlarm :: epoll_alarm where
  "EpollAlarm = \<lparr>a_token = None, a_eps = False, a_registered = False\<rparr>"

record epoll_server =
  epoll_fd :: fd
  cb_map :: "(fd \<times> cb_and_event_mask) list"
  all_alarms :: "alarm set"
  alarm_map :: "(int \<times> token \<times> alarm) list"
  timeout_in_us :: int
  recorded_now_in_us :: int
  skipped_alarms :: "alarm set"
  ready_list :: "fd option"
  tmp_list :: "fd option"
  ready_list_size :: int
  read_fd :: fd
  write_fd :: fd
  in_wait :: bool
  in_shutdown :: bool
  next_token :: token               \<comment> \<open>identity of the next map node\<close>
  alarm_objs :: "alarm \<Rightarrow> epoll_alarm" \<comment> \<open>the alarm objects\<close>
  pipe_bytes :: nat                 \<comment> \<open>bytes waiting in the wake pipe\<close>
  obs_trace :: "obs list"

text \<open>The calls a callback can make on the server.\<close>

datatype server_op =
    OpRegisterFD fd cb mask
  | OpUnregisterFD fd
  | OpModifyCallback fd mask
  | OpStopRead fd
  | OpStartRead fd
  | OpStopWrite fd
  | OpStartWrite fd
  | OpSetFDReady fd mask
  | OpSetFDNotReady fd
  | OpRegisterAlarm int alarm
  | OpUnregisterIfRegistered alarm
  | OpWake

record env =
  ndebug :: bool
  sys_ctl :: "obs list \<Rightarrow> ctl \<Rightarrow> int"
  sys_getfl :: "obs list \<Rightarrow> fd \<Rightarrow> int"
  sys_setfl :: "obs list \<Rightarrow> fd \<Rightarrow> mask \<Rightarrow> int"
  sys_wait :: "obs list \<Rightarrow> nat \<Rightarrow> int \<Rightarrow> int + (mask \<times> fd) list"
  sys_now :: "obs list \<Rightarrow> int"
  sys_write :: "obs list \<Rightarrow> int"
  on_event :: "cb \<Rightarrow> fd \<Rightarrow> mask \<Rightarrow> epoll_server \<Rightarrow> server_op list \<times> mask"
  on_alarm :: "alarm \<Rightarrow> epoll_server \<Rightarrow> server_op list \<times> int"

text \<open>The identity of \<open>wake_cb_\<close>, the server's own \<open>ReadPipeCallback\<close>.\<close>

definition wake_cb :: cb where
  "wake_cb = 0"

definition dcheck :: "env \<Rightarrow> bool \<Rightarrow> 'a res \<Rightarrow> 'a res" where
  "dcheck env P k = (if ndebug env then k else guard DCheckFailed P k)"

definition observe :: "obs \<Rightarrow> epoll_server \<Rightarrow> epoll_server" where
  "observe x s = s\<lparr>obs_trace := x # obs_trace s\<rparr>"

section \<open>Nodes and pointers\<close>

abbreviation node :: "epoll_server \<Rightarrow> fd \<Rightarrow> cb_and_event_mask option" where
  "node s f \<equiv> map_of (cb_map s) f"

definition deref :: "fd \<Rightarrow> epoll_server \<Rightarrow> cb_and_event_mask res" where
  "deref f s = (case node s f of None \<Rightarrow> Inl InvalidAccess | Some e \<Rightarrow> Inr e)"

definition modify_node ::
  "fd \<Rightarrow> (cb_and_event_mask \<Rightarrow> cb_and_event_mask) \<Rightarrow> epoll_server \<Rightarrow> epoll_server res" where
  "modify_node f g s =
     bindr (deref f s) (\<lambda>e. Inr (s\<lparr>cb_map := AList.update f (g e) (cb_map s)\<rparr>))"

text \<open>\<open>*p = v\<close> for a \<open>le_prev\<close> address \<open>p\<close>.\<close>

definition assign_through :: "le_ptr \<Rightarrow> fd option \<Rightarrow> epoll_server \<Rightarrow> epoll_server res" where
  "assign_through p v s =
     (case p of
        PNull \<Rightarrow> Inl InvalidAccess
      | PReady \<Rightarrow> Inr (s\<lparr>ready_list := v\<rparr>)
      | PTmp \<Rightarrow> Inr (s\<lparr>tmp_list := v\<rparr>)
      | PNext f \<Rightarrow> modify_node f (\<lambda>e. e\<lparr>le_next := v\<rparr>) s)"

definition LIST_INSERT_HEAD_ready :: "fd \<Rightarrow> epoll_server \<Rightarrow> epoll_server res" where
  "LIST_INSERT_HEAD_ready f s =
     bindr (modify_node f (\<lambda>e. e\<lparr>le_next := ready_list s\<rparr>) s) (\<lambda>s1.
     bindr (case ready_list s1 of
              None \<Rightarrow> Inr s1
            | Some g \<Rightarrow> modify_node g (\<lambda>e. e\<lparr>le_prev := PNext f\<rparr>) s1) (\<lambda>s2.
     modify_node f (\<lambda>e. e\<lparr>le_prev := PReady\<rparr>) (s2\<lparr>ready_list := Some f\<rparr>)))"

definition LIST_REMOVE :: "fd \<Rightarrow> epoll_server \<Rightarrow> epoll_server res" where
  "LIST_REMOVE f s =
     bindr (deref f s) (\<lambda>e.
     bindr (case le_next e of
              None \<Rightarrow> Inr s
            | Some g \<Rightarrow> modify_node g (\<lambda>e'. e'\<lparr>le_prev := le_prev e\<rparr>) s) (\<lambda>s1.
     assign_through (le_prev e) (le_next e) s1))"

section \<open>The ready list\<close>

definition AddToReadyList :: "fd \<Rightarrow> epoll_server \<Rightarrow> epoll_server res" where
  "AddToReadyList f s =
     bindr (deref f s) (\<lambda>e.
       if le_prev e = PNull
       then mapr (\<lambda>s'. s'\<lparr>ready_list_size := ready_list_size s' + 1\<rparr>) (LIST_INSERT_HEAD_ready f s)
       else Inr s)"

definition RemoveFromReadyList :: "env \<Rightarrow> fd \<Rightarrow> epoll_server \<Rightarrow> epoll_server res" where
  "RemoveFromReadyList env f s =
     bindr (deref f s) (\<lambda>e.
       if le_prev e \<noteq> PNull
       then bindr (LIST_REMOVE f s) (\<lambda>s1.
            bindr (modify_node f (\<lambda>e'. e'\<lparr>le_prev := PNull\<rparr>) s1) (\<lambda>s2.
            let s3 = s2\<lparr>ready_list_size := ready_list_size s2 - 1\<rparr>
            in if ready_list_size s3 = 0
               then dcheck env (ready_list s3 = None) (dcheck env (tmp_list s3 = None) (Inr s3))
               else Inr s3))
       else Inr s)"

section \<open>Talking to epoll\<close>

definition epoll_ctl :: "env \<Rightarrow> ctl \<Rightarrow> epoll_server \<Rightarrow> epoll_server res" where
  "epoll_ctl env c s =
     (let r = sys_ctl env (obs_trace s) c
      in guard LogFatal (r = 0) (Inr (observe (SysCtl c r) s)))"

definition DelFD :: "env \<Rightarrow> fd \<Rightarrow> epoll_server \<Rightarrow> epoll_server res" where
  "DelFD env f s = epoll_ctl env (CtlDel f) s"

definition AddFD :: "env \<Rightarrow> fd \<Rightarrow> mask \<Rightarrow> epoll_server \<Rightarrow> epoll_server res" where
  "AddFD env f em s = epoll_ctl env (CtlAdd f (em OR EPOLLERR OR EPOLLHUP)) s"

definition ModFD :: "env \<Rightarrow> fd \<Rightarrow> mask \<Rightarrow> epoll_server \<Rightarrow> epoll_server res" where
  "ModFD env f em s = epoll_ctl env (CtlMod f (em OR EPOLLERR OR EPOLLHUP)) s"

definition SetNonblocking :: "env \<Rightarrow> fd \<Rightarrow> epoll_server \<Rightarrow> epoll_server res" where
  "SetNonblocking env f s =
     (let flags = sys_getfl env (obs_trace s) f;
          s1 = observe (SysGetFl f flags) s
      in guard LogFatal (flags \<noteq> -1)
        (let fl = word_of_int flags :: mask
         in if fl AND O_NONBLOCK = 0
            then (let r = sys_setfl env (obs_trace s1) f (fl OR O_NONBLOCK)
                  in guard LogFatal (r \<noteq> -1) (Inr (observe (SysSetFl f (fl OR O_NONBLOCK) r) s1)))
            else Inr s1))"

section \<open>Registration of descriptors\<close>

definition RegisterFD :: "env \<Rightarrow> fd \<Rightarrow> cb option \<Rightarrow> mask \<Rightarrow> epoll_server \<Rightarrow> epoll_server res" where
  "RegisterFD env f copt em s =
     (case copt of None \<Rightarrow> Inl CheckFailed | Some c \<Rightarrow>
      bindr (case node s f of
          Some e \<Rightarrow>
            bindr (case e_cb e of
                Some other_cb \<Rightarrow>
                  bindr (RemoveFromReadyList env f s) (\<lambda>s1.
                  ModFD env f em (observe (CallOnUnregistration other_cb f True) s1))
              | None \<Rightarrow> AddFD env f em s) (\<lambda>s2.
            modify_node f (\<lambda>e'. e'\<lparr>e_cb := Some c, e_event_mask := em, e_events_to_fake := 0\<rparr>) s2)
        | None \<Rightarrow>
            mapr (\<lambda>s2. s2\<lparr>cb_map := (f, CBAndEventMask c em) # cb_map s2\<rparr>) (AddFD env f em s)) (\<lambda>s3.
      bindr (SetNonblocking env f s3) (\<lambda>s4.
      Inr (observe (CallOnRegistration c f em) s4))))"

definition RegisterFDForWrite :: "env \<Rightarrow> fd \<Rightarrow> cb option \<Rightarrow> epoll_server \<Rightarrow> epoll_server res" where
  "RegisterFDForWrite env f c = RegisterFD env f c EPOLLOUT"

definition RegisterFDForReadWrite :: "env \<Rightarrow> fd \<Rightarrow> cb option \<Rightarrow> epoll_server \<Rightarrow> epoll_server res" where
  "RegisterFDForReadWrite env f c = RegisterFD env f c (EPOLLIN OR EPOLLOUT)"

definition RegisterFDForRead :: "env \<Rightarrow> fd \<Rightarrow> cb option \<Rightarrow> epoll_server \<Rightarrow> epoll_server res" where
  "RegisterFDForRead env f c = RegisterFD env f c EPOLLIN"

definition UnregisterFD :: "env \<Rightarrow> fd \<Rightarrow> epoll_server \<Rightarrow> epoll_server res" where
  "UnregisterFD env f s =
     (case node s f of
        None \<Rightarrow> Inr s
      | Some e \<Rightarrow>
         (case e_cb e of
            None \<Rightarrow> Inr s
          | Some c \<Rightarrow>
              bindr (RemoveFromReadyList env f s) (\<lambda>s1.
              bindr (DelFD env f s1) (\<lambda>s2.
              let s3 = observe (CallOnUnregistration c f False) s2
              in bindr (deref f s3) (\<lambda>e'.
                 if \<not> e_in_use e'
                 then Inr (s3\<lparr>cb_map := AList.delete f (cb_map s3)\<rparr>)
                 else modify_node f
                   (\<lambda>e''. e''\<lparr>e_cb := None, e_event_mask := 0, e_events_to_fake := 0\<rparr>) s3)))))"

definition ModifyFD :: "env \<Rightarrow> fd \<Rightarrow> mask \<Rightarrow> mask \<Rightarrow> epoll_server \<Rightarrow> epoll_server res" where
  "ModifyFD env f remove_event add_event s =
     (case node s f of
        None \<Rightarrow> Inr s
      | Some e \<Rightarrow>
         (case e_cb e of
            None \<Rightarrow> Inr s
          | Some c \<Rightarrow>
             (let em = (e_event_mask e AND NOT remove_event) OR add_event
              in bindr (modify_node f (\<lambda>e'. e'\<lparr>e_event_mask := em\<rparr>) s) (\<lambda>s1.
                 bindr (ModFD env f em s1) (\<lambda>s2.
                 Inr (observe (CallOnModification c f em) s2))))))"

definition ModifyCallback :: "env \<Rightarrow> fd \<Rightarrow> mask \<Rightarrow> epoll_server \<Rightarrow> epoll_server res" where
  "ModifyCallback env f em = ModifyFD env f (NOT 0) em"

definition StopRead :: "env \<Rightarrow> fd \<Rightarrow> epoll_server \<Rightarrow> epoll_server res" where
  "StopRead env f = ModifyFD env f EPOLLIN 0"

definition StartRead :: "env \<Rightarrow> fd \<Rightarrow> epoll_server \<Rightarrow> epoll_server res" where
  "StartRead env f = ModifyFD env f 0 EPOLLIN"

definition StopWrite :: "env \<Rightarrow> fd \<Rightarrow> epoll_server \<Rightarrow> epoll_server res" where
  "StopWrite env f = ModifyFD env f EPOLLOUT 0"

definition StartWrite :: "env \<Rightarrow> fd \<Rightarrow> epoll_server \<Rightarrow> epoll_server res" where
  "StartWrite env f = ModifyFD env f 0 EPOLLOUT"

definition HasRegisterRead :: "fd \<Rightarrow> epoll_server \<Rightarrow> bool" where
  "HasRegisterRead f s =
     (case node s f of None \<Rightarrow> False | Some e \<Rightarrow> e_event_mask e AND EPOLLIN \<noteq> 0)"

definition HasRegisterWrite :: "fd \<Rightarrow> epoll_server \<Rightarrow> bool" where
  "HasRegisterWrite f s =
     (case node s f of None \<Rightarrow> False | Some e \<Rightarrow> e_event_mask e AND EPOLLOUT \<noteq> 0)"

definition NumFDsRegistered :: "env \<Rightarrow> epoll_server \<Rightarrow> int res" where
  "NumFDsRegistered env s = dcheck env (length (cb_map s) \<ge> 1) (Inr (int (length (cb_map s)) - 1))"

section \<open>Ready list interface\<close>

definition SetFDReady :: "fd \<Rightarrow> mask \<Rightarrow> epoll_server \<Rightarrow> epoll_server res" where
  "SetFDReady f events_to_fake s =
     (case node s f of
        None \<Rightarrow> Inr s
      | Some e \<Rightarrow>
          if e_cb e = None then Inr s
          else bindr (modify_node f (\<lambda>e'. e'\<lparr>e_events_to_fake := events_to_fake\<rparr>) s) (AddToReadyList f))"

definition SetFDNotReady :: "env \<Rightarrow> fd \<Rightarrow> epoll_server \<Rightarrow> epoll_server res" where
  "SetFDNotReady env f s =
     (case node s f of None \<Rightarrow> Inr s | Some e \<Rightarrow> RemoveFromReadyList env f s)"

definition IsFDReady :: "fd \<Rightarrow> epoll_server \<Rightarrow> bool" where
  "IsFDReady f s =
     (case node s f of None \<Rightarrow> False | Some e \<Rightarrow> e_cb e \<noteq> None \<and> le_prev e \<noteq> PNull)"

text \<open>The counting loop over one of the lists; a pointer to no node is \<open>None\<close>.\<close>

partial_function (option) list_count ::
  "(fd \<times> cb_and_event_mask) list \<Rightarrow> fd option \<Rightarrow> int \<Rightarrow> int option" where
  "list_count m cur count =
     (case cur of
        None \<Rightarrow> Some count
      | Some f \<Rightarrow> (case map_of m f of None \<Rightarrow> None | Some e \<Rightarrow> list_count m (le_next e) (count + 1)))"

definition VerifyReadyList :: "epoll_server \<Rightarrow> unit res option" where
  "VerifyReadyList s =
     Option.bind (list_count (cb_map s) (ready_list s) 0) (\<lambda>c1.
     Option.bind (list_count (cb_map s) (tmp_list s) c1) (\<lambda>c2.
     Some (guard CheckFailed (ready_list_size s = c2) (Inr ()))))"

definition HandleEvent :: "fd \<Rightarrow> mask \<Rightarrow> epoll_server \<Rightarrow> epoll_server res" where
  "HandleEvent f em s =
     (case node s f of
        None \<Rightarrow> Inr s
      | Some e \<Rightarrow>
          if e_cb e = None then Inr s
          else bindr (modify_node f (\<lambda>e'. e'\<lparr>e_events_asserted := em\<rparr>) s) (AddToReadyList f))"

section \<open>Alarms\<close>

text \<open>Insertion into a \<open>std::multimap\<close>: after the elements with an equal key.\<close>

fun multimap_insert ::
  "int \<Rightarrow> token \<Rightarrow> alarm \<Rightarrow> (int \<times> token \<times> alarm) list \<Rightarrow> (int \<times> token \<times> alarm) list" where
  "multimap_insert t k ac [] = [(t, k, ac)]"
| "multimap_insert t k ac ((t', k', ac') # m) =
     (if t' \<le> t then (t', k', ac') # multimap_insert t k ac m else (t, k, ac) # (t', k', ac') # m)"

definition tokens :: "epoll_server \<Rightarrow> token list" where
  "tokens s = map (fst \<circ> snd) (alarm_map s)"

definition alarm_find :: "token \<Rightarrow> epoll_server \<Rightarrow> (int \<times> alarm) res" where
  "alarm_find k s =
     (case find (\<lambda>(t, k', ac). k' = k) (alarm_map s) of
        None \<Rightarrow> Inl InvalidAccess | Some (t, _, ac) \<Rightarrow> Inr (t, ac))"

definition alarm_erase :: "token \<Rightarrow> epoll_server \<Rightarrow> epoll_server" where
  "alarm_erase k s = s\<lparr>alarm_map := filter (\<lambda>(t, k', ac). k' \<noteq> k) (alarm_map s)\<rparr>"

definition alarm_first :: "epoll_server \<Rightarrow> token option" where
  "alarm_first s = (case tokens s of [] \<Rightarrow> None | k # _ \<Rightarrow> Some k)"

text \<open>\<open>++i\<close>; \<open>None\<close> is \<open>end()\<close>.\<close>

definition alarm_succ :: "token \<Rightarrow> epoll_server \<Rightarrow> token option" where
  "alarm_succ k s =
     (case dropWhile (\<lambda>k'. k' \<noteq> k) (tokens s) of _ # k' # _ \<Rightarrow> Some k' | _ \<Rightarrow> None)"

definition modify_alarm :: "alarm \<Rightarrow> (epoll_alarm \<Rightarrow> epoll_alarm) \<Rightarrow> epoll_server \<Rightarrow> epoll_server" where
  "modify_alarm ac g s = s\<lparr>alarm_objs := (alarm_objs s)(ac := g (alarm_objs s ac))\<rparr>"

definition EpollAlarm_OnRegistration ::
  "env \<Rightarrow> alarm \<Rightarrow> token \<Rightarrow> epoll_server \<Rightarrow> epoll_server res" where
  "EpollAlarm_OnRegistration env ac k s =
     dcheck env (\<not> a_registered (alarm_objs s ac))
       (Inr (modify_alarm ac (\<lambda>a. a\<lparr>a_token := Some k, a_eps := True, a_registered := True\<rparr>)
          (observe (CallAlarmOnRegistration ac k) s)))"

definition EpollAlarm_OnUnregistration :: "alarm \<Rightarrow> epoll_server \<Rightarrow> epoll_server" where
  "EpollAlarm_OnUnregistration ac s =
     modify_alarm ac (\<lambda>a. a\<lparr>a_registered := False\<rparr>) (observe (CallAlarmOnUnregistration ac) s)"

definition EpollAlarm_OnShutdown :: "alarm \<Rightarrow> epoll_server \<Rightarrow> epoll_server" where
  "EpollAlarm_OnShutdown ac s =
     modify_alarm ac (\<lambda>a. a\<lparr>a_registered := False, a_eps := False\<rparr>)
       (observe (CallAlarmOnShutdown ac) s)"

definition EpollAlarm_OnAlarm :: "alarm \<Rightarrow> epoll_server \<Rightarrow> epoll_server" where
  "EpollAlarm_OnAlarm ac s =
     modify_alarm ac (\<lambda>a. a\<lparr>a_registered := False\<rparr>) (observe (CallAlarmOnAlarm ac) s)"

definition RegisterAlarm :: "env \<Rightarrow> int \<Rightarrow> alarm option \<Rightarrow> epoll_server \<Rightarrow> epoll_server res" where
  "RegisterAlarm env t acopt s =
     (case acopt of None \<Rightarrow> Inl CheckFailed | Some ac \<Rightarrow>
      guard LogFatal (ac \<notin> all_alarms s)
       (let k = next_token s
        in EpollAlarm_OnRegistration env ac k
             (s\<lparr>alarm_map := multimap_insert t k ac (alarm_map s),
                next_token := k + 1,
                all_alarms := insert ac (all_alarms s)\<rparr>)))"

definition UnregisterAlarm :: "token \<Rightarrow> epoll_server \<Rightarrow> epoll_server res" where
  "UnregisterAlarm k s =
     bindr (alarm_find k s) (\<lambda>(t, ac).
       let s1 = alarm_erase k s
       in Inr (EpollAlarm_OnUnregistration ac (s1\<lparr>all_alarms := all_alarms s1 - {ac}\<rparr>)))"

definition UnregisterIfRegistered :: "alarm \<Rightarrow> epoll_server \<Rightarrow> epoll_server res" where
  "UnregisterIfRegistered ac s =
     (let a = alarm_objs s ac
      in if \<not> a_registered a then Inr s
         else guard InvalidAccess (a_eps a)
           (case a_token a of None \<Rightarrow> Inl InvalidAccess | Some k \<Rightarrow> UnregisterAlarm k s))"

section \<open>Time and wake up\<close>

definition NowInUsec :: "env \<Rightarrow> epoll_server \<Rightarrow> int \<times> epoll_server" where
  "NowInUsec env s = (let t = sys_now env (obs_trace s) in (t, observe (SysNow t) s))"

definition ApproximateNowInUsec :: "env \<Rightarrow> epoll_server \<Rightarrow> int \<times> epoll_server" where
  "ApproximateNowInUsec env s =
     (if recorded_now_in_us s \<noteq> 0 then (recorded_now_in_us s, s) else NowInUsec env s)"

definition RegisterAlarmApproximateDelta ::
  "env \<Rightarrow> int \<Rightarrow> alarm option \<Rightarrow> epoll_server \<Rightarrow> epoll_server res" where
  "RegisterAlarmApproximateDelta env d ac s =
     (case ApproximateNowInUsec env s of (t, s1) \<Rightarrow>
        guard SignedOverflow (fits_int64 (t + d)) (RegisterAlarm env (t + d) ac s1))"

definition Wake :: "env \<Rightarrow> epoll_server \<Rightarrow> epoll_server res" where
  "Wake env s =
     (let rv = sys_write env (obs_trace s);
          s1 = observe (SysWrite rv) s
      in dcheck env (rv = 1) (Inr (if rv = 1 then s1\<lparr>pipe_bytes := pipe_bytes s1 + 1\<rparr> else s1)))"

text \<open>The read loop of \<open>ReadPipeCallback\<close>: four bytes at a time until \<open>read\<close> returns no data.\<close>

fun drain_pipe :: "nat \<Rightarrow> nat" where
  "drain_pipe n = (if 0 < n then drain_pipe (n - min 4 n) else 0)"

declare drain_pipe.simps [simp del]

definition ReadPipeCallback_OnEvent :: "env \<Rightarrow> mask \<Rightarrow> epoll_server \<Rightarrow> epoll_server res" where
  "ReadPipeCallback_OnEvent env in_events s =
     dcheck env (in_events = EPOLLIN) (Inr (s\<lparr>pipe_bytes := drain_pipe (pipe_bytes s)\<rparr>))"

fun exec_op :: "env \<Rightarrow> server_op \<Rightarrow> epoll_server \<Rightarrow> epoll_server res" where
  "exec_op env (OpRegisterFD f c em) s = RegisterFD env f (Some c) em s"
| "exec_op env (OpUnregisterFD f) s = UnregisterFD env f s"
| "exec_op env (OpModifyCallback f em) s = ModifyCallback env f em s"
| "exec_op env (OpStopRead f) s = StopRead env f s"
| "exec_op env (OpStartRead f) s = StartRead env f s"
| "exec_op env (OpStopWrite f) s = StopWrite env f s"
| "exec_op env (OpStartWrite f) s = StartWrite env f s"
| "exec_op env (OpSetFDReady f em) s = SetFDReady f em s"
| "exec_op env (OpSetFDNotReady f) s = SetFDNotReady env f s"
| "exec_op env (OpRegisterAlarm t ac) s = RegisterAlarm env t (Some ac) s"
| "exec_op env (OpUnregisterIfRegistered ac) s = UnregisterIfRegistered ac s"
| "exec_op env OpWake s = Wake env s"

definition run_ops :: "env \<Rightarrow> server_op list \<Rightarrow> epoll_server \<Rightarrow> epoll_server res" where
  "run_ops env = fold_res (exec_op env)"

section \<open>One pass of the server\<close>

text \<open>\<open>cb->OnEvent(fd, &event)\<close>: the state after it and \<open>event.out_ready_mask\<close>.\<close>

definition OnEvent :: "env \<Rightarrow> cb \<Rightarrow> fd \<Rightarrow> mask \<Rightarrow> epoll_server \<Rightarrow> (epoll_server \<times> mask) res" where
  "OnEvent env c f in_events s =
     (let s1 = observe (CallOnEvent c f in_events) s
      in if c = wake_cb
         then mapr (\<lambda>s2. (s2, 0)) (ReadPipeCallback_OnEvent env in_events s1)
         else (case on_event env c f in_events s1 of (ops, out_ready_mask) \<Rightarrow>
                 mapr (\<lambda>s2. (s2, out_ready_mask)) (run_ops env ops s1)))"

text \<open>The body of the loop of \<open>CallReadyListCallbacks\<close>, for the node at the head of \<open>tmp_list_\<close>.\<close>

definition CallReadyCallback :: "env \<Rightarrow> fd \<Rightarrow> epoll_server \<Rightarrow> epoll_server res" where
  "CallReadyCallback env f s =
     dcheck env (ready_list_size s > 0)
      (bindr (RemoveFromReadyList env f s) (\<lambda>s1.
       bindr (deref f s1) (\<lambda>e1.
       let in_events = e_events_asserted e1 OR e_events_to_fake e1
       in bindr (modify_node f
            (\<lambda>e. e\<lparr>e_events_asserted := 0, e_events_to_fake := 0, e_in_use := True\<rparr>) s1) (\<lambda>s2.
          case e_cb e1 of None \<Rightarrow> Inl InvalidAccess | Some c \<Rightarrow>
          bindr (OnEvent env c f in_events s2) (\<lambda>(s3, out_ready_mask).
          bindr (modify_node f (\<lambda>e. e\<lparr>e_in_use := e_in_use e1\<rparr>) s3) (\<lambda>s4.
          bindr (deref f s4) (\<lambda>e4.
            if e_cb e4 = None then Inr (s4\<lparr>cb_map := AList.delete f (cb_map s4)\<rparr>)
            else if out_ready_mask \<noteq> 0
            then bindr (modify_node f (\<lambda>e. e\<lparr>e_events_to_fake := out_ready_mask\<rparr>) s4)
                   (AddToReadyList f)
            else Inr s4)))))))"

fun ready_loop :: "nat \<Rightarrow> env \<Rightarrow> epoll_server \<Rightarrow> epoll_server res" where
  "ready_loop n env s =
     (case tmp_list s of
        None \<Rightarrow> Inr s
      | Some f \<Rightarrow>
         (case n of
            0 \<Rightarrow> Inl OutOfFuel
          | Suc n' \<Rightarrow> bindr (CallReadyCallback env f s) (ready_loop n' env)))"

declare ready_loop.simps [simp del]

text \<open>Nothing a callback can do makes \<open>tmp_list_\<close> longer, so its length at the start, at most
  \<open>ready_list_size_\<close>, bounds the number of rounds.\<close>

definition CallReadyListCallbacks :: "env \<Rightarrow> epoll_server \<Rightarrow> epoll_server res" where
  "CallReadyListCallbacks env s =
     dcheck env (tmp_list s = None)
      (let s1 = s\<lparr>ready_list := tmp_list s, tmp_list := ready_list s\<rparr>
       in bindr (case tmp_list s1 of
                   None \<Rightarrow> Inr s1
                 | Some f \<Rightarrow> bindr (modify_node f (\<lambda>e. e\<lparr>le_prev := PTmp\<rparr>) s1)
                     (ready_loop (nat (ready_list_size s1)) env)) (\<lambda>s2.
          dcheck env (tmp_list s2 = None) (Inr s2)))"

definition events_size :: nat where
  "events_size = 256"

definition EINTR :: int where
  "EINTR = 4"

text \<open>The timeout handed to \<open>epoll_wait\<close>, in milliseconds.\<close>

definition wait_timeout_ms :: "int \<Rightarrow> bool \<Rightarrow> int" where
  "wait_timeout_ms t ready_list_empty =
     (let t' = (if t = 0 \<or> \<not> ready_list_empty then 0
                else if t < 0 then -1000
                else if t < 1000 then 1000 else t)
      in sint (word_of_int (t' div 1000) :: 32 word))"

definition WaitForEventsAndCallHandleEvents ::
  "env \<Rightarrow> int \<Rightarrow> epoll_server \<Rightarrow> epoll_server res" where
  "WaitForEventsAndCallHandleEvents env t s =
     (let ms = wait_timeout_ms t (ready_list s = None);
          r = sys_wait env (obs_trace s) events_size ms;
          (now, s1) = NowInUsec env (observe (SysWait ms) s);
          s2 = s1\<lparr>recorded_now_in_us := now\<rparr>
      in bindr (case r of
                  Inr events \<Rightarrow>
                    guard InvalidAccess (length events \<le> events_size)
                      (fold_res (\<lambda>(em, f). HandleEvent f em) events s2)
                | Inl errno \<Rightarrow> guard LogFatal (errno = EINTR \<or> errno = 0) (Inr s2)) (\<lambda>s3.
         if ready_list s3 \<noteq> None then CallReadyListCallbacks env s3 else Inr s3))"

text \<open>\<open>cb->OnAlarm()\<close>: the state after it and the time it returns.\<close>

definition OnAlarm :: "env \<Rightarrow> alarm \<Rightarrow> epoll_server \<Rightarrow> (epoll_server \<times> int) res" where
  "OnAlarm env ac s =
     (let s1 = EpollAlarm_OnAlarm ac s
      in case on_alarm env ac s1 of (ops, t) \<Rightarrow> mapr (\<lambda>s2. (s2, t)) (run_ops env ops s1))"

text \<open>The loop of \<open>CallAndReregisterAlarmEvents\<close>: \<open>i\<close> is the iterator, \<open>n\<close> bounds the rounds.\<close>

fun alarm_loop :: "nat \<Rightarrow> env \<Rightarrow> int \<Rightarrow> token option \<Rightarrow> epoll_server \<Rightarrow> epoll_server res" where
  "alarm_loop n env now i s =
     (case i of
        None \<Rightarrow> Inr s
      | Some k \<Rightarrow>
         (case n of
            0 \<Rightarrow> Inl OutOfFuel
          | Suc n' \<Rightarrow>
              bindr (alarm_find k s) (\<lambda>(t, ac).
              if t > now then Inr s
              else if ac \<in> skipped_alarms s then alarm_loop n' env now (alarm_succ k s) s
              else
                bindr (OnAlarm env ac (s\<lparr>all_alarms := all_alarms s - {ac}\<rparr>)) (\<lambda>(s1, new_t).
                bindr (alarm_find k s1) (\<lambda>_.
                let i' = alarm_succ k s1;
                    s2 = alarm_erase k s1
                in if new_t > 0
                   then bindr (RegisterAlarm env new_t (Some ac)
                          (if new_t \<le> now
                           then s2\<lparr>skipped_alarms := insert ac (skipped_alarms s2)\<rparr> else s2))
                        (alarm_loop n' env now i')
                   else alarm_loop n' env now i' s2)))))"

declare alarm_loop.simps [simp del]

definition CallAndReregisterAlarmEvents :: "nat \<Rightarrow> env \<Rightarrow> epoll_server \<Rightarrow> epoll_server res" where
  "CallAndReregisterAlarmEvents n env s =
     dcheck env (recorded_now_in_us s \<noteq> 0)
      (bindr (alarm_loop n env (recorded_now_in_us s) (alarm_first s) s) (\<lambda>s1.
       Inr (s1\<lparr>skipped_alarms := {}\<rparr>)))"

definition WaitForEventsAndExecuteCallbacks :: "nat \<Rightarrow> env \<Rightarrow> epoll_server \<Rightarrow> epoll_server res" where
  "WaitForEventsAndExecuteCallbacks n env s =
     (if in_wait s then (if ndebug env then Inr s else Inl LogFatal)
      else mapr (\<lambda>s'. s'\<lparr>in_wait := False\<rparr>)
       (let s0 = s\<lparr>in_wait := True\<rparr>
        in case alarm_map s0 of
             [] \<Rightarrow>
               bindr (WaitForEventsAndCallHandleEvents env (timeout_in_us s0) s0) (\<lambda>s1.
               Inr (s1\<lparr>recorded_now_in_us := 0\<rparr>))
           | (next_alarm_time, _) # _ \<Rightarrow>
               (case NowInUsec env s0 of (now, s1) \<Rightarrow>
                guard SignedOverflow (fits_int64 (next_alarm_time - now))
                 (let alarm_timeout = next_alarm_time - now;
                      wait_time = (if alarm_timeout < timeout_in_us s1 \<or> timeout_in_us s1 < 0
                                   then max alarm_timeout 0 else timeout_in_us s1)
                  in bindr (WaitForEventsAndCallHandleEvents env wait_time s1) (\<lambda>s2.
                     bindr (CallAndReregisterAlarmEvents n env s2) (\<lambda>s3.
                     Inr (s3\<lparr>recorded_now_in_us := 0\<rparr>)))))))"

section \<open>Construction and destruction\<close>

text \<open>\<open>epfd\<close> is the result of \<open>epoll_create\<close>, \<open>fds\<close> that of \<open>pipe\<close> (\<open>None\<close>: it failed).\<close>

definition new_server :: "fd \<Rightarrow> (alarm \<Rightarrow> epoll_alarm) \<Rightarrow> obs list \<Rightarrow> epoll_server" where
  "new_server epfd objs tr =
     \<lparr>epoll_fd = epfd, cb_map = [], all_alarms = {}, alarm_map = [], timeout_in_us = 0,
      recorded_now_in_us = 0, skipped_alarms = {}, ready_list = None, tmp_list = None,
      ready_list_size = 0, read_fd = -1, write_fd = -1, in_wait = False, in_shutdown = False,
      next_token = 0, alarm_objs = objs, pipe_bytes = 0, obs_trace = tr\<rparr>"

definition EpollServer ::
  "env \<Rightarrow> fd \<Rightarrow> (fd \<times> fd) option \<Rightarrow> (alarm \<Rightarrow> epoll_alarm) \<Rightarrow> obs list \<Rightarrow> epoll_server res" where
  "EpollServer env epfd fds objs tr =
     guard CheckFailed (epfd \<noteq> -1)
      (case fds of
         None \<Rightarrow> Inl LogFatal
       | Some (r, w) \<Rightarrow>
           RegisterFD env r (Some wake_cb) EPOLLIN
             ((new_server epfd objs tr)\<lparr>read_fd := r, write_fd := w\<rparr>))"

fun shutdown_fds :: "(fd \<times> cb_and_event_mask) list \<Rightarrow> epoll_server \<Rightarrow> epoll_server" where
  "shutdown_fds [] s = s"
| "shutdown_fds ((f, e) # m) s =
     shutdown_fds m
       ((case e_cb e of None \<Rightarrow> s | Some c \<Rightarrow> observe (CallOnShutdown c f) s)\<lparr>cb_map := m\<rparr>)"

definition CleanupFDToCBMap :: "epoll_server \<Rightarrow> epoll_server" where
  "CleanupFDToCBMap s = shutdown_fds (cb_map s) s"

fun shutdown_alarms :: "(int \<times> token \<times> alarm) list \<Rightarrow> epoll_server \<Rightarrow> epoll_server" where
  "shutdown_alarms [] s = s"
| "shutdown_alarms ((t, k, ac) # m) s =
     shutdown_alarms m ((EpollAlarm_OnShutdown ac s)\<lparr>alarm_map := m\<rparr>)"

definition CleanupTimeToAlarmCBMap :: "epoll_server \<Rightarrow> epoll_server" where
  "CleanupTimeToAlarmCBMap s = shutdown_alarms (alarm_map s) s"

definition EpollServer_destroy :: "env \<Rightarrow> epoll_server \<Rightarrow> epoll_server res" where
  "EpollServer_destroy env s =
     dcheck env (\<not> in_shutdown s)
      (let s1 = CleanupFDToCBMap (s\<lparr>in_shutdown := True\<rparr>);
           s2 = CleanupTimeToAlarmCBMap (s1\<lparr>ready_list := None, tmp_list := None\<rparr>)
       in Inr (observe (SysClose (epoll_fd s2))
           (observe (SysClose (write_fd s2)) (observe (SysClose (read_fd s2)) s2))))"

definition set_timeout_in_us :: "int \<Rightarrow> epoll_server \<Rightarrow> epoll_server" where
  "set_timeout_in_us t s = s\<lparr>timeout_in_us := t\<rparr>"

definition EventMaskToString :: "mask \<Rightarrow> string" where
  "EventMaskToString em =
     (if em AND EPOLLIN \<noteq> 0 then ''EPOLLIN '' else []) @
     (if em AND EPOLLPRI \<noteq> 0 then ''EPOLLPRI '' else []) @
     (if em AND EPOLLOUT \<noteq> 0 then ''EPOLLOUT '' else []) @
     (if em AND EPOLLRDNORM \<noteq> 0 then ''EPOLLRDNORM '' else []) @
     (if em AND EPOLLRDBAND \<noteq> 0 then ''EPOLLRDBAND '' else []) @
     (if em AND EPOLLWRNORM \<noteq> 0 then ''EPOLLWRNORM '' else []) @
     (if em AND EPOLLWRBAND \<noteq> 0 then ''EPOLLWRBAND '' else []) @
     (if em AND EPOLLMSG \<noteq> 0 then ''EPOLLMSG '' else []) @
     (if em AND EPOLLERR \<noteq> 0 then ''EPOLLERR '' else []) @
     (if em AND EPOLLHUP \<noteq> 0 then ''EPOLLHUP '' else []) @
     (if em AND EPOLLONESHOT \<noteq> 0 then ''EPOLLONESHOT '' else []) @
     (if em AND EPOLLET \<noteq> 0 then ''EPOLLET '' else [])"

end
