(* ===== verification/Ready_List.thy ===== *)
theory Ready_List
  imports Epoll_Server
begin

text \<open>
  The intrusive lists of the epoll server, \<open>LIST_INSERT_HEAD\<close> and \<open>LIST_REMOVE\<close> on
  \<open>ready_list_\<close> and \<open>tmp_list_\<close> in \<open>raner/epoll_server.cc\<close>. \<open>ready_inv\<close> says which two sequences of
  descriptors the pointers form; adding is consing, removing is \<open>remove1\<close>, and the count of
  \<open>VerifyReadyList\<close> is the number of linked nodes.
\<close>

section \<open>Linked segments\<close>

text \<open>\<open>lseg m p h xs q t\<close>: from the pointer at address \<open>p\<close> with value \<open>h\<close>, the nodes \<open>xs\<close> in order,
  ending in the pointer at address \<open>q\<close> with value \<open>t\<close>. Every node on it has a callback.\<close>

fun lseg :: "(fd \<rightharpoonup> cb_and_event_mask) \<Rightarrow> le_ptr \<Rightarrow> fd option \<Rightarrow> fd list \<Rightarrow> le_ptr \<Rightarrow> fd option \<Rightarrow> bool" where
  "lseg m p h [] q t \<longleftrightarrow> p = q \<and> h = t"
| "lseg m p h (x # xs) q t \<longleftrightarrow>
     h = Some x \<and>
     (case m x of
        None \<Rightarrow> False
      | Some e \<Rightarrow> le_prev e = p \<and> e_cb e \<noteq> None \<and> lseg m (PNext x) (le_next e) xs q t)"

definition end_ptr :: "le_ptr \<Rightarrow> fd list \<Rightarrow> le_ptr" where
  "end_ptr p xs = (if xs = [] then p else PNext (last xs))"

lemma end_ptr_simps [simp]:
  "end_ptr p [] = p"
  "end_ptr p (x # xs) = end_ptr (PNext x) xs"
  by (auto simp: end_ptr_def)

lemma lseg_end: "lseg m p h xs q t \<Longrightarrow> q = end_ptr p xs"
  by (induction xs arbitrary: p h) (auto split: option.splits)

lemma lseg_append:
  "lseg m p h (xs @ ys) q t \<longleftrightarrow> (\<exists>v. lseg m p h xs (end_ptr p xs) v \<and> lseg m (end_ptr p xs) v ys q t)"
  by (induction xs arbitrary: p h) (auto split: option.splits)

lemma lseg_cong:
  assumes "\<And>x. x \<in> set xs \<Longrightarrow>
    map_option (\<lambda>e. (le_prev e, le_next e, e_cb e \<noteq> None)) (m x) =
    map_option (\<lambda>e. (le_prev e, le_next e, e_cb e \<noteq> None)) (m' x)"
  shows "lseg m p h xs q t = lseg m' p h xs q t"
  using assms
proof (induction xs arbitrary: p h)
  case (Cons x xs)
  have "map_option (\<lambda>e. (le_prev e, le_next e, e_cb e \<noteq> None)) (m x) =
    map_option (\<lambda>e. (le_prev e, le_next e, e_cb e \<noteq> None)) (m' x)"
    by (rule Cons.prems) simp
  moreover have "\<And>p h. lseg m p h xs q t = lseg m' p h xs q t"
    by (rule Cons.IH, rule Cons.prems) simp
  ultimately show ?case by (auto split: option.splits)
qed simp

lemma lseg_upd_other: "x \<notin> set xs \<Longrightarrow> lseg (m(x \<mapsto> e)) p h xs q t = lseg m p h xs q t"
  by (rule lseg_cong) auto

lemma lseg_upd_data:
  assumes "m x = Some e" "le_prev e' = le_prev e" "le_next e' = le_next e"
    "e_cb e' = None \<longleftrightarrow> e_cb e = None"
  shows "lseg (m(x \<mapsto> e')) p h xs q t = lseg m p h xs q t"
  by (rule lseg_cong) (use assms in auto)

lemma lseg_in_dom: "lseg m p h xs q t \<Longrightarrow> x \<in> set xs \<Longrightarrow> \<exists>e. m x = Some e \<and> e_cb e \<noteq> None \<and> (\<exists>c. e_cb e = Some c)"
  by (induction xs arbitrary: p h) (auto split: option.splits)

lemma lseg_prev_nonnull: "lseg m p h xs q t \<Longrightarrow> p \<noteq> PNull \<Longrightarrow> x \<in> set xs \<Longrightarrow> m x = Some e \<Longrightarrow> le_prev e \<noteq> PNull"
  by (induction xs arbitrary: p h) (auto split: option.splits)

text \<open>The pointer at the head moves to another address.\<close>

lemma lseg_move_head:
  assumes "lseg m p h xs q t" "distinct xs"
  shows "lseg (case h of Some g \<Rightarrow> if g \<in> set xs then m(g := map_option (\<lambda>e. e\<lparr>le_prev := p'\<rparr>) (m g)) else m | None \<Rightarrow> m)
     p' h xs (end_ptr p' xs) t"
proof (cases xs)
  case (Cons x ys)
  then obtain e where e: "m x = Some e" "lseg m (PNext x) (le_next e) ys q t" "h = Some x" "e_cb e \<noteq> None"
    using assms by (auto split: option.splits)
  have "q = end_ptr (PNext x) ys"
    using e(2) by (rule lseg_end)
  then show ?thesis
    using assms e Cons by (auto simp: lseg_upd_other)
qed (use assms in \<open>auto split: option.splits\<close>)

text \<open>The pointer at the end gets another value.\<close>

lemma lseg_set_end:
  assumes "lseg m p h xs q t" "distinct xs" "xs \<noteq> []" "m (last xs) = Some e"
  shows "lseg (m(last xs \<mapsto> e\<lparr>le_next := t'\<rparr>)) p h xs q t'"
  using assms
proof (induction xs arbitrary: p h)
  case (Cons x xs)
  show ?case
  proof (cases "xs = []")
    case False
    then have "last xs \<in> set xs" by simp
    then have "last xs \<noteq> x" using Cons.prems by auto
    then show ?thesis
      using Cons False by (auto split: option.splits)
  qed (use Cons.prems in auto)
qed simp

text \<open>The two assignments of \<open>LIST_REMOVE\<close>, on the nodes.\<close>

definition relink_next :: "le_ptr \<Rightarrow> fd option \<Rightarrow> (fd \<rightharpoonup> cb_and_event_mask) \<Rightarrow> (fd \<rightharpoonup> cb_and_event_mask)" where
  "relink_next p h m = (case h of None \<Rightarrow> m | Some g \<Rightarrow> m(g := map_option (\<lambda>e. e\<lparr>le_prev := p\<rparr>) (m g)))"

definition relink_prev :: "le_ptr \<Rightarrow> fd option \<Rightarrow> (fd \<rightharpoonup> cb_and_event_mask) \<Rightarrow> (fd \<rightharpoonup> cb_and_event_mask)" where
  "relink_prev p h m =
     (case p of PNext y \<Rightarrow> m(y := map_option (\<lambda>e. e\<lparr>le_next := h\<rparr>) (m y)) | _ \<Rightarrow> m)"

lemmas relink_defs = relink_next_def relink_prev_def

lemma lseg_relink_other:
  assumes "\<And>g. h = Some g \<Longrightarrow> g \<notin> set zs" "\<And>y. p = PNext y \<Longrightarrow> y \<notin> set zs"
  shows "lseg (relink_prev p h (relink_next p h m)) a b zs c d = lseg m a b zs c d"
  by (rule lseg_cong) (use assms in \<open>auto simp: relink_defs split: option.splits le_ptr.splits\<close>)

lemma lseg_relink:
  assumes seg: "lseg m p h (xs @ x # ys) q None" and d: "distinct (xs @ x # ys)"
    and x: "m x = Some e" and p: "\<And>y. p \<noteq> PNext y"
  shows "lseg (relink_prev (le_prev e) (le_next e) (relink_next (le_prev e) (le_next e) m)) p
    (if xs = [] then le_next e else h) (xs @ ys) (end_ptr p (xs @ ys)) None"
proof -
  define r where "r = end_ptr p xs"
  from seg x have e: "le_prev e = r" and xs: "lseg m p h xs r (Some x)"
    and ys: "lseg m (PNext x) (le_next e) ys q None"
    by (auto simp: lseg_append r_def)
  let ?m1 = "relink_next r (le_next e) m"
  have g: "le_next e = (case ys of [] \<Rightarrow> None | g # _ \<Rightarrow> Some g)"
    using ys by (cases ys) auto
  have ys1: "lseg ?m1 r (le_next e) ys (end_ptr r ys) None"
    using lseg_move_head [OF ys, of r] d g by (auto simp: relink_next_def split: list.splits)
  have xs1: "lseg ?m1 p h xs r (Some x)"
    by (rule iffD1 [OF lseg_cong xs]) (use d g in \<open>auto simp: relink_next_def split: list.splits option.splits\<close>)
  show ?thesis
  proof (cases "xs = []")
    case True
    then show ?thesis
      using ys1 e p by (auto simp: r_def relink_prev_def split: le_ptr.splits)
  next
    case False
    then have r: "r = PNext (last xs)" by (simp add: r_def end_ptr_def)
    obtain el where el: "?m1 (last xs) = Some el"
      using lseg_in_dom [OF xs1, of "last xs"] False by auto
    let ?m2 = "relink_prev r (le_next e) ?m1"
    have m2: "?m2 = ?m1(last xs \<mapsto> el\<lparr>le_next := le_next e\<rparr>)"
      using el r by (simp add: relink_prev_def)
    have "lseg ?m2 p h xs r (le_next e)"
      unfolding m2 by (rule lseg_set_end [OF xs1 _ False el]) (use d in simp)
    moreover have "lseg ?m2 r (le_next e) ys (end_ptr r ys) None"
      unfolding m2 by (subst lseg_upd_other) (use d ys1 False in \<open>auto dest: last_in_set\<close>)
    moreover have "end_ptr p (xs @ ys) = end_ptr r ys"
      by (simp add: r_def end_ptr_def)
    ultimately show ?thesis
      using False e by (auto simp: lseg_append r_def)
  qed
qed

section \<open>The invariant\<close>

text \<open>\<open>R\<close> and \<open>T\<close> are the descriptors linked from \<open>ready_list_\<close> and \<open>tmp_list_\<close>, \<open>U\<close> those whose
  node is in use by a running \<open>OnEvent\<close>: only there may the callback be null.\<close>

definition node_ok :: "fd list \<Rightarrow> fd list \<Rightarrow> fd set \<Rightarrow> fd \<Rightarrow> cb_and_event_mask \<Rightarrow> bool" where
  "node_ok R T U f e \<longleftrightarrow>
     (le_prev e \<noteq> PNull \<longleftrightarrow> f \<in> set R \<union> set T) \<and> (e_in_use e \<longleftrightarrow> f \<in> U) \<and> (e_cb e = None \<longrightarrow> f \<in> U)"

definition ready_inv :: "epoll_server \<Rightarrow> fd list \<Rightarrow> fd list \<Rightarrow> fd set \<Rightarrow> bool" where
  "ready_inv s R T U \<longleftrightarrow>
     distinct (map fst (cb_map s)) \<and>
     lseg (node s) PReady (ready_list s) R (end_ptr PReady R) None \<and>
     lseg (node s) PTmp (tmp_list s) T (end_ptr PTmp T) None \<and>
     distinct (R @ T) \<and>
     (\<forall>(f, e) \<in> set (cb_map s). node_ok R T U f e) \<and>
     U \<subseteq> fst ` set (cb_map s) \<and>
     ready_list_size s = int (length R) + int (length T)"

lemma ready_inv_alt:
  "ready_inv s R T U \<longleftrightarrow>
     distinct (map fst (cb_map s)) \<and>
     lseg (node s) PReady (ready_list s) R (end_ptr PReady R) None \<and>
     lseg (node s) PTmp (tmp_list s) T (end_ptr PTmp T) None \<and>
     distinct (R @ T) \<and>
     (\<forall>f e. node s f = Some e \<longrightarrow> node_ok R T U f e) \<and>
     U \<subseteq> dom (node s) \<and>
     ready_list_size s = int (length R) + int (length T)"
  by (auto simp: ready_inv_def dom_map_of_conv_image_fst)

definition strip_links :: "cb_and_event_mask \<Rightarrow> cb_and_event_mask" where
  "strip_links e = e\<lparr>le_next := None, le_prev := PNull\<rparr>"

text \<open>The state without the links, the list heads and the count.\<close>

definition frame :: "epoll_server \<Rightarrow> epoll_server" where
  "frame s = s\<lparr>cb_map := map (map_prod id strip_links) (cb_map s), ready_list := None,
               tmp_list := None, ready_list_size := 0\<rparr>"

definition same_data :: "epoll_server \<Rightarrow> epoll_server \<Rightarrow> bool" where
  "same_data s s' \<longleftrightarrow> frame s' = frame s"

lemma same_data_refl [simp]: "same_data s s"
  by (simp add: same_data_def)

lemma same_data_trans [trans]: "same_data s s1 \<Longrightarrow> same_data s1 s2 \<Longrightarrow> same_data s s2"
  by (simp add: same_data_def)

lemma same_data_fields:
  assumes "same_data s s'"
  shows "obs_trace s' = obs_trace s" "alarm_map s' = alarm_map s" "all_alarms s' = all_alarms s"
    "alarm_objs s' = alarm_objs s" "next_token s' = next_token s" "skipped_alarms s' = skipped_alarms s"
    "in_wait s' = in_wait s" "recorded_now_in_us s' = recorded_now_in_us s"
    "timeout_in_us s' = timeout_in_us s" "pipe_bytes s' = pipe_bytes s" "epoll_fd s' = epoll_fd s"
    "read_fd s' = read_fd s" "write_fd s' = write_fd s" "in_shutdown s' = in_shutdown s"
    "map (map_prod id strip_links) (cb_map s') = map (map_prod id strip_links) (cb_map s)"
  using assms by (cases s; cases s'; simp add: same_data_def frame_def)+

lemma map_of_strip:
  "map_of (map (map_prod id g) m) f = map_option g (map_of m f)"
  by (induction m) auto

lemma same_data_node:
  "same_data s s' \<Longrightarrow> map_option strip_links (node s' f) = map_option strip_links (node s f)"
  by (metis map_of_strip same_data_fields(15))

lemma same_data_keys: "same_data s s' \<Longrightarrow> map fst (cb_map s') = map fst (cb_map s)"
  using same_data_fields(15) [of s s', THEN arg_cong, of "map fst"] by (simp add: comp_def)

lemma map_strip_update:
  "map_of m f = Some e \<Longrightarrow> strip_links e' = strip_links e \<Longrightarrow>
   map (map_prod id strip_links) (AList.update f e' m) = map (map_prod id strip_links) m"
  by (induction m) (auto split: if_splits)

lemma same_data_update:
  assumes "node s f = Some e" "strip_links e' = strip_links e"
  shows "same_data s (s\<lparr>cb_map := AList.update f e' (cb_map s)\<rparr>)"
  using map_strip_update [OF assms] by (simp add: same_data_def frame_def)

lemma same_data_heads [simp]:
  "same_data s (s'\<lparr>ready_list := h\<rparr>) = same_data s s'"
  "same_data s (s'\<lparr>tmp_list := h\<rparr>) = same_data s s'"
  "same_data s (s'\<lparr>ready_list_size := n\<rparr>) = same_data s s'"
  "same_data (s\<lparr>ready_list := h\<rparr>) s' = same_data s s'"
  "same_data (s\<lparr>tmp_list := h\<rparr>) s' = same_data s s'"
  by (simp_all add: same_data_def frame_def)

lemma strip_links_upd [simp]:
  "strip_links (e\<lparr>le_next := h\<rparr>) = strip_links e"
  "strip_links (e\<lparr>le_prev := p\<rparr>) = strip_links e"
  by (simp_all add: strip_links_def)

lemma modify_node_eq:
  "node s f = Some e \<Longrightarrow> modify_node f g s = Inr (s\<lparr>cb_map := AList.update f (g e) (cb_map s)\<rparr>)"
  by (simp add: modify_node_def deref_def)

lemma modify_link:
  assumes "node s f = Some e" "strip_links (g e) = strip_links e"
  shows "\<exists>s'. modify_node f g s = Inr s' \<and> same_data s s' \<and> node s' = (node s)(f \<mapsto> g e) \<and>
    ready_list s' = ready_list s \<and> tmp_list s' = tmp_list s \<and> ready_list_size s' = ready_list_size s"
  using assms by (simp add: modify_node_eq same_data_update update_conv')

lemma node_update [simp]:
  "map_of (AList.update f e m) = (map_of m)(f \<mapsto> e)"
  by (rule update_conv')

lemma distinct_keys_update [simp]:
  "distinct (map fst m) \<Longrightarrow> distinct (map fst (AList.update f e m))"
  by (rule distinct_update)

section \<open>The list primitives\<close>

lemma LIST_REMOVE_eq:
  assumes e: "node s f = Some e" "le_prev e \<noteq> PNull"
    and g: "\<And>g. le_next e = Some g \<Longrightarrow> node s g \<noteq> None"
    and y: "\<And>y. le_prev e = PNext y \<Longrightarrow> node s y \<noteq> None"
  shows "\<exists>s'. LIST_REMOVE f s = Inr s' \<and> same_data s s' \<and>
    node s' = relink_prev (le_prev e) (le_next e) (relink_next (le_prev e) (le_next e) (node s)) \<and>
    ready_list s' = (if le_prev e = PReady then le_next e else ready_list s) \<and>
    tmp_list s' = (if le_prev e = PTmp then le_next e else tmp_list s) \<and>
    ready_list_size s' = ready_list_size s"
proof -
  have "\<exists>s1. (case le_next e of None \<Rightarrow> Inr s
      | Some g \<Rightarrow> modify_node g (\<lambda>e'. e'\<lparr>le_prev := le_prev e\<rparr>) s) = Inr s1 \<and>
    same_data s s1 \<and> node s1 = relink_next (le_prev e) (le_next e) (node s) \<and>
    ready_list s1 = ready_list s \<and> tmp_list s1 = tmp_list s \<and> ready_list_size s1 = ready_list_size s"
  proof (cases "le_next e")
    case (Some g)
    obtain eg where eg: "node s g = Some eg" using assms(3) [OF Some] by auto
    show ?thesis
      using same_data_update [OF eg, of "eg\<lparr>le_prev := le_prev e\<rparr>"] Some eg
      by (simp add: relink_next_def modify_node_eq)
  qed (simp add: relink_next_def)
  then obtain s1 where s1: "(case le_next e of None \<Rightarrow> Inr s
      | Some g \<Rightarrow> modify_node g (\<lambda>e'. e'\<lparr>le_prev := le_prev e\<rparr>) s) = Inr s1"
    "same_data s s1" "node s1 = relink_next (le_prev e) (le_next e) (node s)"
    "ready_list s1 = ready_list s" "tmp_list s1 = tmp_list s" "ready_list_size s1 = ready_list_size s"
    by blast
  have *: "LIST_REMOVE f s = assign_through (le_prev e) (le_next e) s1"
    using e s1(1) by (simp add: LIST_REMOVE_def deref_def)
  show ?thesis
  proof (cases "le_prev e")
    case (PNext y)
    have "node s1 y \<noteq> None"
      using y [OF PNext] by (simp add: s1(3) relink_next_def split: option.split)
    then obtain ey where ey: "node s1 y = Some ey" by blast
    have "same_data s (s1\<lparr>cb_map := AList.update y (ey\<lparr>le_next := le_next e\<rparr>) (cb_map s1)\<rparr>)"
      using s1(2) same_data_update [OF ey] by (auto intro: same_data_trans)
    then show ?thesis
      using s1(4-6) PNext ey
      by (simp add: * assign_through_def modify_node_eq relink_prev_def s1(3) [symmetric, unfolded PNext])
  qed (use e(2) s1(2-6) in \<open>simp_all add: * assign_through_def relink_prev_def\<close>)
qed

lemma lseg_neighbours:
  assumes "lseg m p h (xs @ x # ys) q None" "m x = Some e"
  shows "le_prev e = end_ptr p xs" "le_next e = (case ys of [] \<Rightarrow> None | g # _ \<Rightarrow> Some g)"
  using assms by (auto simp: lseg_append split: list.splits)

text \<open>Taking one node off one of two disjoint lists, whichever it is.\<close>

definition unlink :: "fd \<Rightarrow> cb_and_event_mask \<Rightarrow> (fd \<rightharpoonup> cb_and_event_mask) \<Rightarrow> (fd \<rightharpoonup> cb_and_event_mask)" where
  "unlink f e m =
     (let m2 = relink_prev (le_prev e) (le_next e) (relink_next (le_prev e) (le_next e) m)
      in m2(f := map_option (\<lambda>e. e\<lparr>le_prev := PNull\<rparr>) (m2 f)))"

lemma lseg_unlink:
  assumes seg: "lseg m p h (xs @ f # ys) q None" and d: "distinct (xs @ f # ys)"
    and f: "m f = Some e" and p: "p = PReady \<or> p = PTmp"
  shows "lseg (unlink f e m) p (if le_prev e = p then le_next e else h) (xs @ ys) (end_ptr p (xs @ ys)) None"
proof -
  have "lseg (relink_prev (le_prev e) (le_next e) (relink_next (le_prev e) (le_next e) m)) p
    (if xs = [] then le_next e else h) (xs @ ys) (end_ptr p (xs @ ys)) None"
    using seg d f by (rule lseg_relink) (use p in auto)
  moreover have "(le_prev e = p) = (xs = [])"
    using lseg_neighbours(1) [OF seg f] p by (auto simp: end_ptr_def)
  ultimately show ?thesis
    unfolding unlink_def Let_def using d by (subst lseg_cong) auto
qed

lemma lseg_unlink_other:
  assumes seg: "lseg m p h (xs @ f # ys) q None" and f: "m f = Some e"
    and d: "distinct ((xs @ f # ys) @ zs)" and p: "p = PReady \<or> p = PTmp"
  shows "lseg (unlink f e m) a b zs c t = lseg m a b zs c t"
proof -
  note n = lseg_neighbours [OF seg f]
  have "lseg (unlink f e m) a b zs c t =
    lseg (relink_prev (le_prev e) (le_next e) (relink_next (le_prev e) (le_next e) m)) a b zs c t"
    unfolding unlink_def Let_def by (rule lseg_cong) (use d in auto)
  also have "\<dots> = lseg m a b zs c t"
    by (rule lseg_relink_other)
      (use n d p in \<open>auto simp: end_ptr_def disjoint_iff split: list.splits if_splits\<close>)
  finally show ?thesis .
qed

lemma unlink_null:
  assumes seg: "lseg m p h (xs @ f # ys) q None" and f: "m f = Some e"
    and d: "distinct (xs @ f # ys)" and p: "p = PReady \<or> p = PTmp"
    and z: "unlink f e m z = Some ez'"
  shows "\<exists>ez. m z = Some ez \<and> strip_links ez' = strip_links ez \<and>
    (le_prev ez' = PNull \<longleftrightarrow> z = f \<or> le_prev ez = PNull)"
proof -
  note n = lseg_neighbours [OF seg f]
  have e: "le_prev e \<noteq> PNull"
    using n(1) p by (auto simp: end_ptr_def)
  have "le_prev eg \<noteq> PNull" if "le_next e = Some g" "m g = Some eg" for g eg
    by (rule lseg_prev_nonnull [OF seg _ _ that(2)])
      (use p n(2) that in \<open>auto split: list.splits\<close>)
  then show ?thesis
    using z e by (auto simp: unlink_def relink_defs strip_links_def Let_def
        split: if_splits le_ptr.splits option.splits)
qed

lemma unlink_step:
  assumes seg: "lseg (node s) p h (xs @ f # ys) q None" and f: "node s f = Some e"
    and p: "p = PReady \<or> p = PTmp"
  shows "\<exists>s1 s2. LIST_REMOVE f s = Inr s1 \<and> modify_node f (\<lambda>e. e\<lparr>le_prev := PNull\<rparr>) s1 = Inr s2 \<and>
    same_data s s2 \<and> node s2 = unlink f e (node s) \<and>
    ready_list s2 = (if le_prev e = PReady then le_next e else ready_list s) \<and>
    tmp_list s2 = (if le_prev e = PTmp then le_next e else tmp_list s) \<and>
    ready_list_size s2 = ready_list_size s"
proof -
  note n = lseg_neighbours [OF seg f]
  have "\<exists>s'. LIST_REMOVE f s = Inr s' \<and> same_data s s' \<and>
    node s' = relink_prev (le_prev e) (le_next e) (relink_next (le_prev e) (le_next e) (node s)) \<and>
    ready_list s' = (if le_prev e = PReady then le_next e else ready_list s) \<and>
    tmp_list s' = (if le_prev e = PTmp then le_next e else tmp_list s) \<and>
    ready_list_size s' = ready_list_size s"
  proof (rule LIST_REMOVE_eq [OF f])
    show "le_prev e \<noteq> PNull" using n(1) p by (auto simp: end_ptr_def)
    show "node s g \<noteq> None" if "le_next e = Some g" for g
      using lseg_in_dom [OF seg, of g] n(2) that by (auto split: list.splits)
    show "node s y \<noteq> None" if "le_prev e = PNext y" for y
      using lseg_in_dom [OF seg, of y] n(1) p that by (auto simp: end_ptr_def split: if_splits)
  qed
  then obtain s1 where s1: "LIST_REMOVE f s = Inr s1" "same_data s s1"
    "node s1 = relink_prev (le_prev e) (le_next e) (relink_next (le_prev e) (le_next e) (node s))"
    "ready_list s1 = (if le_prev e = PReady then le_next e else ready_list s)"
    "tmp_list s1 = (if le_prev e = PTmp then le_next e else tmp_list s)"
    "ready_list_size s1 = ready_list_size s"
    by blast
  have "map_option strip_links (node s1 f) = map_option strip_links (node s f)"
    using s1(2) by (rule same_data_node)
  then obtain e1 where e1: "node s1 f = Some e1" using f by auto
  have "same_data s (s1\<lparr>cb_map := AList.update f (e1\<lparr>le_prev := PNull\<rparr>) (cb_map s1)\<rparr>)"
    using s1(2) same_data_update [OF e1] by (auto intro: same_data_trans)
  moreover have "(node s1)(f \<mapsto> e1\<lparr>le_prev := PNull\<rparr>) = unlink f e (node s)"
    using e1 by (simp add: unlink_def Let_def s1(3) [symmetric])
  ultimately show ?thesis
    using s1(1,4-6) e1 by (simp add: modify_node_eq)
qed

lemma ready_inv_node: "ready_inv s R T U \<Longrightarrow> node s f = Some e \<Longrightarrow> node_ok R T U f e"
  by (simp add: ready_inv_alt)

lemma ready_inv_heads:
  assumes "ready_inv s R T U"
  shows "ready_list s = (case R of [] \<Rightarrow> None | g # _ \<Rightarrow> Some g)"
    "tmp_list s = (case T of [] \<Rightarrow> None | g # _ \<Rightarrow> Some g)"
    "ready_list_size s = 0 \<longleftrightarrow> R = [] \<and> T = []"
  using assms by (cases R; cases T; simp add: ready_inv_alt)+

lemma same_data_dom: "same_data s s' \<Longrightarrow> dom (node s') = dom (node s)"
  using same_data_keys [of s s', THEN arg_cong, of set] by (simp add: dom_map_of_conv_image_fst)

lemma strip_links_eq:
  assumes "strip_links e' = strip_links e"
  shows "e_cb e' = e_cb e" "e_in_use e' = e_in_use e" "e_event_mask e' = e_event_mask e"
    "e_events_asserted e' = e_events_asserted e" "e_events_to_fake e' = e_events_to_fake e"
  using assms by (cases e; cases e'; simp add: strip_links_def)+

lemma remove_ready_inv:
  assumes inv: "ready_inv s R T U" and f: "node s f = Some e"
    and s2: "same_data s s2" "node s2 = unlink f e (node s)"
      "ready_list s2 = (if le_prev e = PReady then le_next e else ready_list s)"
      "tmp_list s2 = (if le_prev e = PTmp then le_next e else tmp_list s)"
    and RT: "(L, L', p) = (R, T, PReady) \<or> (L, L', p) = (T, R, PTmp)"
    and L: "L = xs @ f # ys"
  shows "ready_inv (s2\<lparr>ready_list_size := ready_list_size s - 1\<rparr>) (remove1 f R) (remove1 f T) U"
proof -
  have p: "p = PReady \<or> p = PTmp" using RT by auto
  let ?h = "if p = PReady then ready_list s else tmp_list s"
  have seg: "lseg (node s) p ?h (xs @ f # ys) (end_ptr p (xs @ f # ys)) None"
    using inv RT L by (auto simp: ready_inv_alt)
  have d: "distinct ((xs @ f # ys) @ L')" using inv RT L by (auto simp: ready_inv_alt)
  have rm: "remove1 f L = xs @ ys" "remove1 f L' = L'"
    using d L by (auto simp: remove1_append remove1_idem)
  have pr: "le_prev e = PReady \<longrightarrow> p = PReady" "le_prev e = PTmp \<longrightarrow> p = PTmp"
    using lseg_neighbours(1) [OF seg f] p by (auto simp: end_ptr_def)
  have d': "distinct (xs @ f # ys)" using d by auto
  note un = lseg_unlink [OF seg d' f p]
  have oth: "\<forall>a b c t. lseg (unlink f e (node s)) a b L' c t = lseg (node s) a b L' c t"
    by (intro allI) (rule lseg_unlink_other [OF seg f d p])
  have node: "node_ok (remove1 f R) (remove1 f T) U z ez'" if z: "node s2 z = Some ez'" for z ez'
  proof -
    obtain ez where ez: "node s z = Some ez" "strip_links ez' = strip_links ez"
      "le_prev ez' = PNull \<longleftrightarrow> z = f \<or> le_prev ez = PNull"
      using unlink_null [OF seg f d' p, of z ez'] z s2(2) by auto
    have "distinct (R @ T)" using inv by (simp add: ready_inv_alt)
    then show ?thesis
      using ready_inv_node [OF inv ez(1)] ez(3) strip_links_eq [OF ez(2)]
      by (auto simp: node_ok_def)
  qed
  have "lseg (node s2) PReady (ready_list s2) (remove1 f R) (end_ptr PReady (remove1 f R)) None \<and>
    lseg (node s2) PTmp (tmp_list s2) (remove1 f T) (end_ptr PTmp (remove1 f T)) None"
    using RT rm un oth pr inv by (auto simp: s2 ready_inv_alt)
  moreover have "int (length (remove1 f R)) + int (length (remove1 f T)) = int (length R) + int (length T) - 1"
    using RT rm L by auto
  moreover have "distinct (remove1 f R @ remove1 f T)"
    using inv by (auto simp: ready_inv_alt dest: in_set_remove1 notin_set_remove1 set_remove1_subset [THEN subsetD])
  ultimately show ?thesis
    using inv node same_data_keys [OF s2(1)] same_data_dom [OF s2(1)] by (simp add: ready_inv_alt)
qed

theorem RemoveFromReadyList_ok:
  assumes inv: "ready_inv s R T U" and f: "node s f = Some e"
  shows "\<exists>s'. RemoveFromReadyList env f s = Inr s' \<and> same_data s s' \<and>
    ready_inv s' (remove1 f R) (remove1 f T) U"
proof (cases "le_prev e = PNull")
  case True
  then have "f \<notin> set R" "f \<notin> set T"
    using ready_inv_node [OF inv f] by (auto simp: node_ok_def)
  then show ?thesis
    using True f inv by (simp add: RemoveFromReadyList_def deref_def remove1_idem)
next
  case False
  then have "f \<in> set R \<or> f \<in> set T"
    using ready_inv_node [OF inv f] by (auto simp: node_ok_def)
  then obtain L L' p xs ys where L: "(L, L', p) = (R, T, PReady) \<or> (L, L', p) = (T, R, PTmp)"
    "L = xs @ f # ys"
    by (metis split_list)
  then have p: "p = PReady \<or> p = PTmp" by auto
  have "lseg (node s) p (if p = PReady then ready_list s else tmp_list s) (xs @ f # ys)
    (end_ptr p (xs @ f # ys)) None"
    using inv L by (auto simp: ready_inv_alt)
  from unlink_step [OF this f p] obtain s1 s2 where
    s2: "LIST_REMOVE f s = Inr s1" "modify_node f (\<lambda>e. e\<lparr>le_prev := PNull\<rparr>) s1 = Inr s2"
      "same_data s s2" "node s2 = unlink f e (node s)"
      "ready_list s2 = (if le_prev e = PReady then le_next e else ready_list s)"
      "tmp_list s2 = (if le_prev e = PTmp then le_next e else tmp_list s)"
      "ready_list_size s2 = ready_list_size s"
    by blast
  let ?s3 = "s2\<lparr>ready_list_size := ready_list_size s - 1\<rparr>"
  have inv3: "ready_inv ?s3 (remove1 f R) (remove1 f T) U"
    by (rule remove_ready_inv [OF inv f s2(3-6) L])
  then have "ready_list_size s - 1 = 0 \<longrightarrow> ready_list s2 = None \<and> tmp_list s2 = None"
    using ready_inv_heads [OF inv3] by auto
  then have "RemoveFromReadyList env f s = Inr ?s3"
    using False f s2(1,2,7) by (simp add: RemoveFromReadyList_def deref_def Let_def dcheck_def)
  then show ?thesis using inv3 s2(3) by auto
qed

lemma LIST_INSERT_HEAD_ready_eq:
  assumes f: "node s f = Some e" and g: "\<And>g. ready_list s = Some g \<Longrightarrow> g \<noteq> f \<and> node s g \<noteq> None"
  shows "\<exists>s'. LIST_INSERT_HEAD_ready f s = Inr s' \<and> same_data s s' \<and>
    node s' = (relink_next (PNext f) (ready_list s) (node s))
      (f \<mapsto> e\<lparr>le_next := ready_list s, le_prev := PReady\<rparr>) \<and>
    ready_list s' = Some f \<and> tmp_list s' = tmp_list s \<and> ready_list_size s' = ready_list_size s"
proof -
  let ?e1 = "e\<lparr>le_next := ready_list s\<rparr>"
  let ?e2 = "?e1\<lparr>le_prev := PReady\<rparr>"
  obtain s1 where s1: "modify_node f (\<lambda>e. e\<lparr>le_next := ready_list s\<rparr>) s = Inr s1" "same_data s s1"
    "node s1 = (node s)(f \<mapsto> ?e1)" "ready_list s1 = ready_list s" "tmp_list s1 = tmp_list s"
    "ready_list_size s1 = ready_list_size s"
    using modify_link [OF f, of "\<lambda>e. e\<lparr>le_next := ready_list s\<rparr>"] by auto
  have "\<exists>s2. (case ready_list s1 of None \<Rightarrow> Inr s1
      | Some g \<Rightarrow> modify_node g (\<lambda>e. e\<lparr>le_prev := PNext f\<rparr>) s1) = Inr s2 \<and> same_data s1 s2 \<and>
    node s2 = relink_next (PNext f) (ready_list s) (node s1) \<and>
    tmp_list s2 = tmp_list s1 \<and> ready_list_size s2 = ready_list_size s1"
  proof (cases "ready_list s")
    case (Some g)
    then obtain eg where "node s1 g = Some eg"
      using g [OF Some] by (auto simp: s1(3))
    from modify_link [OF this, of "\<lambda>e. e\<lparr>le_prev := PNext f\<rparr>"] show ?thesis
      using Some s1(4) \<open>node s1 g = Some eg\<close> by (auto simp: relink_next_def)
  qed (use s1(4) in \<open>simp add: relink_next_def\<close>)
  then obtain s2 where s2: "(case ready_list s1 of None \<Rightarrow> Inr s1
      | Some g \<Rightarrow> modify_node g (\<lambda>e. e\<lparr>le_prev := PNext f\<rparr>) s1) = Inr s2" "same_data s1 s2"
    "node s2 = relink_next (PNext f) (ready_list s) (node s1)"
    "tmp_list s2 = tmp_list s1" "ready_list_size s2 = ready_list_size s1"
    by blast
  let ?s2 = "s2\<lparr>ready_list := Some f\<rparr>"
  have n2: "node ?s2 f = Some ?e1" "(node ?s2)(f \<mapsto> ?e2) = (relink_next (PNext f) (ready_list s) (node s))(f \<mapsto> ?e2)"
    using g by (auto simp: s2(3) s1(3) relink_next_def fun_eq_iff split: option.splits)
  have "same_data s ?s2"
    using s1(2) s2(2) by (auto intro: same_data_trans)
  then show ?thesis
    using modify_link [OF n2(1), of "\<lambda>e. e\<lparr>le_prev := PReady\<rparr>"] s1 s2 n2(2)
    by (auto simp: LIST_INSERT_HEAD_ready_def intro: same_data_trans)
qed

lemma LIST_INSERT_HEAD_ready_ok:
  assumes inv: "ready_inv s R T U" and f: "node s f = Some e" "f \<notin> set R \<union> set T" "e_cb e \<noteq> None"
  shows "\<exists>s'. LIST_INSERT_HEAD_ready f s = Inr s' \<and> same_data s s' \<and>
    ready_inv (s'\<lparr>ready_list_size := ready_list_size s' + 1\<rparr>) (f # R) T U"
proof -
  have seg: "lseg (node s) PReady (ready_list s) R (end_ptr PReady R) None" "distinct R"
    using inv by (auto simp: ready_inv_alt)
  define m where "m = (relink_next (PNext f) (ready_list s) (node s))(f \<mapsto> e\<lparr>le_next := ready_list s, le_prev := PReady\<rparr>)"
  have hd: "ready_list s = (case R of [] \<Rightarrow> None | g # _ \<Rightarrow> Some g)"
    using seg by (cases R) auto
  have R: "lseg (relink_next (PNext f) (ready_list s) (node s)) (PNext f) (ready_list s) R (end_ptr (PNext f) R) None"
    using lseg_move_head [OF seg, of "PNext f"] hd by (auto simp: relink_next_def split: list.splits)
  have R': "lseg m (PNext f) (ready_list s) R (end_ptr (PNext f) R) None"
    unfolding m_def using f R by (simp add: lseg_upd_other)
  have "lseg m PTmp (tmp_list s) T (end_ptr PTmp T) None =
    lseg (node s) PTmp (tmp_list s) T (end_ptr PTmp T) None"
    by (rule lseg_cong) (use inv hd f(2) in
      \<open>auto simp: m_def relink_next_def ready_inv_alt split: list.splits option.splits\<close>)
  then have T: "lseg m PTmp (tmp_list s) T (end_ptr PTmp T) None"
    using inv by (simp add: ready_inv_alt)
  have "\<And>g. ready_list s = Some g \<Longrightarrow> g \<noteq> f \<and> node s g \<noteq> None"
    using seg(1) f(2) hd by (auto split: list.splits option.splits)
  from LIST_INSERT_HEAD_ready_eq [OF f(1) this]
  obtain s' where s': "LIST_INSERT_HEAD_ready f s = Inr s'" "same_data s s'" "node s' = m"
    "ready_list s' = Some f" "tmp_list s' = tmp_list s" "ready_list_size s' = ready_list_size s"
    unfolding m_def by blast
  have node: "node_ok (f # R) T U z ez'" if z: "m z = Some ez'" for z ez'
  proof (cases "z = f")
    case False
    then obtain ez where ez: "node s z = Some ez" "strip_links ez' = strip_links ez"
      "le_prev ez' = PNull \<longleftrightarrow> le_prev ez = PNull"
      using z hd seg(1)
      by (auto simp: m_def relink_next_def strip_links_def split: list.splits if_splits option.splits)
    show ?thesis
      using ready_inv_node [OF inv ez(1)] ez(3) strip_links_eq [OF ez(2)] False by (auto simp: node_ok_def)
  qed (use ready_inv_node [OF inv f(1)] z in \<open>auto simp: m_def node_ok_def\<close>)
  have "lseg m PReady (Some f) (f # R) (end_ptr PReady (f # R)) None"
    using R' f(3) by (simp add: m_def)
  moreover have "distinct ((f # R) @ T)" "ready_list_size s = int (length R) + int (length T)"
    "distinct (map fst (cb_map s))" "U \<subseteq> dom (node s)"
    using inv f(2) by (auto simp: ready_inv_alt)
  ultimately have "ready_inv (s'\<lparr>ready_list_size := ready_list_size s' + 1\<rparr>) (f # R) T U"
    using s' node T same_data_keys [OF s'(2)] same_data_dom [OF s'(2)]
    unfolding ready_inv_alt by simp
  then show ?thesis using s' by auto
qed

lemma AddToReadyList_ok:
  assumes inv: "ready_inv s R T U" and f: "node s f = Some e" "e_cb e \<noteq> None"
  shows "\<exists>s'. AddToReadyList f s = Inr s' \<and> same_data s s' \<and>
    ready_inv s' (if f \<in> set R \<union> set T then R else f # R) T U"
proof (cases "f \<in> set R \<union> set T")
  case True
  then show ?thesis
    using inv f ready_inv_node [OF inv f(1)]
    by (auto simp: AddToReadyList_def deref_def node_ok_def)
next
  case False
  then show ?thesis
    using LIST_INSERT_HEAD_ready_ok [OF inv f(1) False f(2)] f ready_inv_node [OF inv f(1)]
    by (auto simp: AddToReadyList_def deref_def node_ok_def)
qed

section \<open>Counting\<close>

lemma list_count_None: "list_count m None c = Some c"
  by (subst list_count.simps) simp

lemma list_count_Some:
  "map_of m f = Some e \<Longrightarrow> list_count m (Some f) c = list_count m (le_next e) (c + 1)"
  by (subst list_count.simps) simp

lemma list_count_lseg:
  "lseg (map_of m) p h xs q None \<Longrightarrow> list_count m h c = Some (c + int (length xs))"
  by (induction xs arbitrary: p h c) (auto simp: list_count_None list_count_Some split: option.splits)

text \<open>The order of the nodes reached from a list head, for at most \<open>n\<close> of them.\<close>

fun walk :: "nat \<Rightarrow> (fd \<times> cb_and_event_mask) list \<Rightarrow> fd option \<Rightarrow> fd list" where
  "walk 0 m h = []"
| "walk (Suc n) m h =
     (case h of
        None \<Rightarrow> []
      | Some f \<Rightarrow> f # (case map_of m f of None \<Rightarrow> [] | Some e \<Rightarrow> walk n m (le_next e)))"

lemma walk_lseg:
  "lseg (map_of m) p h xs q None \<Longrightarrow> length xs \<le> n \<Longrightarrow> walk n m h = xs"
proof (induction n arbitrary: p h xs)
  case (Suc n)
  then show ?case by (cases xs) (auto split: option.splits)
qed simp

definition ready_seq :: "epoll_server \<Rightarrow> fd list" where
  "ready_seq s = walk (nat (ready_list_size s)) (cb_map s) (ready_list s)"

definition tmp_seq :: "epoll_server \<Rightarrow> fd list" where
  "tmp_seq s = walk (nat (ready_list_size s)) (cb_map s) (tmp_list s)"

lemma ready_inv_seq:
  assumes "ready_inv s R T U"
  shows "ready_seq s = R" "tmp_seq s = T"
  using assms walk_lseg by (auto simp: ready_seq_def tmp_seq_def ready_inv_alt)

lemma VerifyReadyList_ok: "ready_inv s R T U \<Longrightarrow> VerifyReadyList s = Some (Inr ())"
  by (auto simp: VerifyReadyList_def list_count_lseg ready_inv_alt)

end
