(* ===== verification/Epoll_Spec.thy ===== *)
theory Epoll_Spec
  imports Ready_List
begin

unbundle bit_operations_syntax

text \<open>
  What the registration and ready list interface of \<open>EpollServer\<close> promises, over a map from
  descriptors to callbacks with their masks and two plain lists, and the proof that the
  operations of \<open>raner/epoll_server.cc\<close>, on nodes and pointers, implement it. The nodes a running
  \<open>OnEvent\<close> keeps alive after \<open>UnregisterFD\<close> do not exist at this level.
\<close>

section \<open>The abstract server\<close>

record spec_server =
  sp_regs :: "fd \<rightharpoonup> cb \<times> mask"
  sp_ready :: "fd list"
  sp_tmp :: "fd list"
  sp_trace :: "obs list"

definition sp_observe :: "obs \<Rightarrow> spec_server \<Rightarrow> spec_server" where
  "sp_observe x a = a\<lparr>sp_trace := x # sp_trace a\<rparr>"

definition spec_ctl :: "env \<Rightarrow> ctl \<Rightarrow> spec_server \<Rightarrow> spec_server res" where
  "spec_ctl env c a =
     (let r = sys_ctl env (sp_trace a) c
      in guard LogFatal (r = 0) (Inr (sp_observe (SysCtl c r) a)))"

definition spec_nonblocking :: "env \<Rightarrow> fd \<Rightarrow> spec_server \<Rightarrow> spec_server res" where
  "spec_nonblocking env f a =
     (let flags = sys_getfl env (sp_trace a) f;
          a1 = sp_observe (SysGetFl f flags) a;
          fl = word_of_int flags :: mask
      in guard LogFatal (flags \<noteq> -1)
        (if fl AND O_NONBLOCK = 0
         then (let r = sys_setfl env (sp_trace a1) f (fl OR O_NONBLOCK)
               in guard LogFatal (r \<noteq> -1) (Inr (sp_observe (SysSetFl f (fl OR O_NONBLOCK) r) a1)))
         else Inr a1))"

definition spec_drop :: "fd \<Rightarrow> spec_server \<Rightarrow> spec_server" where
  "spec_drop f a = a\<lparr>sp_ready := remove1 f (sp_ready a), sp_tmp := remove1 f (sp_tmp a)\<rparr>"

definition spec_push :: "fd \<Rightarrow> spec_server \<Rightarrow> spec_server" where
  "spec_push f a =
     (if f \<in> set (sp_ready a) \<union> set (sp_tmp a) then a else a\<lparr>sp_ready := f # sp_ready a\<rparr>)"

definition kernel_mask :: "mask \<Rightarrow> mask" where
  "kernel_mask em = em OR EPOLLERR OR EPOLLHUP"

definition spec_register :: "env \<Rightarrow> fd \<Rightarrow> cb \<Rightarrow> mask \<Rightarrow> spec_server \<Rightarrow> spec_server res" where
  "spec_register env f c em a =
     bindr (case sp_regs a f of
         Some (c', _) \<Rightarrow>
           spec_ctl env (CtlMod f (kernel_mask em)) (sp_observe (CallOnUnregistration c' f True) (spec_drop f a))
       | None \<Rightarrow> spec_ctl env (CtlAdd f (kernel_mask em)) a) (\<lambda>a1.
     bindr (spec_nonblocking env f (a1\<lparr>sp_regs := (sp_regs a1)(f \<mapsto> (c, em))\<rparr>)) (\<lambda>a2.
     Inr (sp_observe (CallOnRegistration c f em) a2)))"

definition spec_unregister :: "env \<Rightarrow> fd \<Rightarrow> spec_server \<Rightarrow> spec_server res" where
  "spec_unregister env f a =
     (case sp_regs a f of
        None \<Rightarrow> Inr a
      | Some (c, _) \<Rightarrow>
          bindr (spec_ctl env (CtlDel f) (spec_drop f a)) (\<lambda>a1.
          Inr (sp_observe (CallOnUnregistration c f False) (a1\<lparr>sp_regs := (sp_regs a1)(f := None)\<rparr>))))"

definition spec_modify :: "env \<Rightarrow> fd \<Rightarrow> mask \<Rightarrow> mask \<Rightarrow> spec_server \<Rightarrow> spec_server res" where
  "spec_modify env f remove_event add_event a =
     (case sp_regs a f of
        None \<Rightarrow> Inr a
      | Some (c, em) \<Rightarrow>
          (let em' = (em AND NOT remove_event) OR add_event
           in bindr (spec_ctl env (CtlMod f (kernel_mask em')) (a\<lparr>sp_regs := (sp_regs a)(f \<mapsto> (c, em'))\<rparr>))
                (\<lambda>a1. Inr (sp_observe (CallOnModification c f em') a1))))"

definition spec_ready :: "fd \<Rightarrow> spec_server \<Rightarrow> spec_server" where
  "spec_ready f a = (if sp_regs a f = None then a else spec_push f a)"

section \<open>The representation\<close>

definition regs :: "epoll_server \<Rightarrow> fd \<rightharpoonup> cb \<times> mask" where
  "regs s f = Option.bind (node s f) (\<lambda>e. map_option (\<lambda>c. (c, e_event_mask e)) (e_cb e))"

definition rep :: "fd set \<Rightarrow> epoll_server \<Rightarrow> spec_server \<Rightarrow> bool" where
  "rep U s a \<longleftrightarrow>
     ready_inv s (sp_ready a) (sp_tmp a) U \<and> regs s = sp_regs a \<and> obs_trace s = sp_trace a"

definition abs_server :: "epoll_server \<Rightarrow> spec_server" where
  "abs_server s =
     \<lparr>sp_regs = regs s, sp_ready = ready_seq s, sp_tmp = tmp_seq s, sp_trace = obs_trace s\<rparr>"

lemma rep_abs: "rep U s a \<Longrightarrow> abs_server s = a"
  by (cases a) (auto simp: rep_def abs_server_def ready_inv_seq)

lemma rep_abs_server: "rep U s (abs_server s) \<longleftrightarrow> ready_inv s (ready_seq s) (tmp_seq s) U"
  by (simp add: rep_def abs_server_def)

abbreviation sim :: "fd set \<Rightarrow> epoll_server res \<Rightarrow> spec_server res \<Rightarrow> bool" where
  "sim U \<equiv> res_sim (rep U)"

lemma sim_abs: "sim U m m' \<Longrightarrow> mapr abs_server m = m'"
  by (cases m; cases m') (auto dest: rep_abs)

lemma ready_inv_observe [simp]: "ready_inv (observe x s) = ready_inv s"
  by (simp add: ready_inv_def observe_def fun_eq_iff)

lemma regs_observe [simp]: "regs (observe x s) = regs s"
  by (simp add: regs_def observe_def fun_eq_iff)

lemma observe_fields [simp]:
  "obs_trace (observe x s) = x # obs_trace s" "cb_map (observe x s) = cb_map s"
  "alarm_map (observe x s) = alarm_map s" "all_alarms (observe x s) = all_alarms s"
  "alarm_objs (observe x s) = alarm_objs s" "next_token (observe x s) = next_token s"
  "skipped_alarms (observe x s) = skipped_alarms s" "ready_list (observe x s) = ready_list s"
  "tmp_list (observe x s) = tmp_list s" "ready_list_size (observe x s) = ready_list_size s"
  "recorded_now_in_us (observe x s) = recorded_now_in_us s"
  "timeout_in_us (observe x s) = timeout_in_us s" "in_wait (observe x s) = in_wait s"
  "pipe_bytes (observe x s) = pipe_bytes s"
  by (simp_all add: observe_def)

lemma sp_observe_fields [simp]:
  "sp_regs (sp_observe x a) = sp_regs a" "sp_ready (sp_observe x a) = sp_ready a"
  "sp_tmp (sp_observe x a) = sp_tmp a" "sp_trace (sp_observe x a) = x # sp_trace a"
  by (simp_all add: sp_observe_def)

lemma sp_observe_regs [simp]:
  "sp_observe x (a\<lparr>sp_regs := r\<rparr>) = (sp_observe x a)\<lparr>sp_regs := r\<rparr>"
  by (simp add: sp_observe_def)

lemma rep_observe [intro]: "rep U s a \<Longrightarrow> rep U (observe x s) (sp_observe x a)"
  by (simp add: rep_def)

lemma same_data_regs: "same_data s s' \<Longrightarrow> regs s' = regs s"
proof
  fix f
  assume "same_data s s'"
  from same_data_node [OF this, of f] show "regs s' f = regs s f"
    by (auto simp: regs_def map_option_case dest: strip_links_eq split: option.splits)
qed

lemma regs_node:
  "regs s f = Some (c, em) \<longleftrightarrow> (\<exists>e. node s f = Some e \<and> e_cb e = Some c \<and> e_event_mask e = em)"
  by (auto simp: regs_def bind_eq_Some_conv)

lemma regs_None: "regs s f = None \<longleftrightarrow> node s f = None \<or> (\<exists>e. node s f = Some e \<and> e_cb e = None)"
  by (auto simp: regs_def split: bind_splits)

lemma rep_cases:
  assumes "rep U s a"
  obtains
    (unregistered) "sp_regs a f = None" "node s f = None \<or> (\<exists>e. node s f = Some e \<and> e_cb e = None)"
  | (registered) c em e where "sp_regs a f = Some (c, em)" "node s f = Some e" "e_cb e = Some c"
      "e_event_mask e = em"
proof (cases "regs s f")
  case None
  then show ?thesis using assms unregistered by (auto simp: rep_def regs_None [symmetric])
next
  case (Some cm)
  then obtain c em where "regs s f = Some (c, em)" by (cases cm) auto
  moreover from this obtain e where "node s f = Some e" "e_cb e = Some c" "e_event_mask e = em"
    by (auto simp: regs_node)
  ultimately show ?thesis using assms registered by (simp add: rep_def)
qed

section \<open>Simulation of the primitives\<close>

lemma epoll_ctl_sim: "rep U s a \<Longrightarrow> sim U (epoll_ctl env c s) (spec_ctl env c a)"
  by (auto simp: epoll_ctl_def spec_ctl_def Let_def guard_def rep_def)

lemma SetNonblocking_sim: "rep U s a \<Longrightarrow> sim U (SetNonblocking env f s) (spec_nonblocking env f a)"
  by (auto simp: SetNonblocking_def spec_nonblocking_def Let_def guard_def rep_def)

lemma RemoveFromReadyList_sim:
  assumes "rep U s a" "node s f = Some e"
  shows "\<exists>s' e'. RemoveFromReadyList env f s = Inr s' \<and> rep U s' (spec_drop f a) \<and>
    node s' f = Some e' \<and> strip_links e' = strip_links e \<and> same_data s s'"
proof -
  have "ready_inv s (sp_ready a) (sp_tmp a) U" using assms(1) by (simp add: rep_def)
  from RemoveFromReadyList_ok [OF this assms(2)]
  obtain s' where s': "RemoveFromReadyList env f s = Inr s'" "same_data s s'"
    "ready_inv s' (remove1 f (sp_ready a)) (remove1 f (sp_tmp a)) U"
    by blast
  then have "rep U s' (spec_drop f a)"
    using assms(1) same_data_regs [OF s'(2)] same_data_fields(1) [OF s'(2)]
    by (simp add: rep_def spec_drop_def)
  moreover obtain e' where "node s' f = Some e'" "strip_links e' = strip_links e"
    using same_data_node [OF s'(2), of f] assms(2) by auto
  ultimately show ?thesis using s' by blast
qed

lemma AddToReadyList_sim:
  assumes "rep U s a" "node s f = Some e" "e_cb e \<noteq> None"
  shows "\<exists>s'. AddToReadyList f s = Inr s' \<and> rep U s' (spec_push f a) \<and> same_data s s'"
proof -
  have "ready_inv s (sp_ready a) (sp_tmp a) U" using assms(1) by (simp add: rep_def)
  from AddToReadyList_ok [OF this assms(2,3)]
  obtain s' where s': "AddToReadyList f s = Inr s'" "same_data s s'"
    "ready_inv s' (if f \<in> set (sp_ready a) \<union> set (sp_tmp a) then sp_ready a else f # sp_ready a) (sp_tmp a) U"
    by blast
  then have "rep U s' (spec_push f a)"
    using assms(1) same_data_regs [OF s'(2)] same_data_fields(1) [OF s'(2)]
    by (auto simp: rep_def spec_push_def)
  then show ?thesis using s' by blast
qed

lemma ready_inv_linked:
  assumes "ready_inv s R T U" "f \<in> set R \<union> set T"
  shows "\<exists>e c. node s f = Some e \<and> e_cb e = Some c"
proof -
  have "lseg (node s) PReady (ready_list s) R (end_ptr PReady R) None"
    "lseg (node s) PTmp (tmp_list s) T (end_ptr PTmp T) None"
    using assms(1) unfolding ready_inv_def by simp_all
  from this [THEN lseg_in_dom, of f] show ?thesis using assms(2) by auto
qed

lemma ready_inv_update:
  assumes inv: "ready_inv s R T U" and f: "node s f = Some e"
    and e': "le_prev e' = le_prev e" "le_next e' = le_next e" "e_in_use e' = e_in_use e"
      "e_cb e' = None \<Longrightarrow> f \<in> U \<and> f \<notin> set R \<union> set T"
  shows "ready_inv (s\<lparr>cb_map := AList.update f e' (cb_map s)\<rparr>) R T U"
proof -
  have "lseg ((node s)(f \<mapsto> e')) p h xs q None = lseg (node s) p h xs q None"
    if xs: "set xs \<subseteq> set R \<union> set T" "lseg (node s) p h xs q None" for p h xs q
  proof (cases "f \<in> set xs")
    case True
    then have "e_cb e \<noteq> None" "e_cb e' \<noteq> None"
      using lseg_in_dom [OF xs(2), of f] f e'(4) xs(1) by auto
    then show ?thesis by (intro lseg_upd_data [where m = "node s" and e = e]) (use f e' in auto)
  qed (rule lseg_upd_other)
  moreover have "node_ok R T U f e'"
    using ready_inv_node [OF inv f] e' by (auto simp: node_ok_def)
  moreover have "\<forall>z ez. node s z = Some ez \<longrightarrow> node_ok R T U z ez"
    using ready_inv_node [OF inv] by blast
  ultimately show ?thesis
    using inv unfolding ready_inv_alt by (simp add: subset_insertI2)
qed

lemma ready_inv_insert:
  assumes inv: "ready_inv s R T U" and f: "node s f = None"
    and e: "le_prev e = PNull" "\<not> e_in_use e" "e_cb e \<noteq> None"
  shows "ready_inv (s\<lparr>cb_map := (f, e) # cb_map s\<rparr>) R T U"
proof -
  have "f \<notin> set R \<union> set T"
    using ready_inv_linked [OF inv, of f] f by auto
  moreover have "f \<notin> U" using inv f by (auto simp: ready_inv_alt)
  moreover have "node_ok R T U f e"
    using calculation e by (simp add: node_ok_def)
  moreover have "\<forall>z ez. node s z = Some ez \<longrightarrow> node_ok R T U z ez"
    using ready_inv_node [OF inv] by blast
  moreover have "f \<notin> fst ` set (cb_map s)"
    using f by (simp add: map_of_eq_None_iff)
  ultimately show ?thesis
    using inv f unfolding ready_inv_alt by (auto simp: lseg_upd_other)
qed

lemma ready_inv_delete:
  assumes inv: "ready_inv s R T U" and f: "f \<notin> set R \<union> set T"
  shows "ready_inv (s\<lparr>cb_map := AList.delete f (cb_map s)\<rparr>) R T (U - {f})"
proof -
  have "lseg ((node s)(f := None)) p h xs q None = lseg (node s) p h xs q None"
    if "set xs \<subseteq> set R \<union> set T" for p h xs q
    by (rule lseg_cong) (use f that in auto)
  moreover have "node_ok R T (U - {f}) z ez" if "((node s)(f := None)) z = Some ez" for z ez
    using ready_inv_node [OF inv, of z ez] that by (auto simp: node_ok_def split: if_splits)
  moreover have "U - {f} \<subseteq> dom ((node s)(f := None))"
    using inv unfolding ready_inv_alt by auto
  ultimately show ?thesis
    using inv unfolding ready_inv_alt by (simp add: delete_conv' distinct_delete)
qed

lemma regs_update:
  "regs (s\<lparr>cb_map := AList.update f e (cb_map s)\<rparr>) = (regs s)(f := map_option (\<lambda>c. (c, e_event_mask e)) (e_cb e))"
  by (simp add: regs_def fun_eq_iff)

lemma regs_insert:
  "regs (s\<lparr>cb_map := (f, e) # cb_map s\<rparr>) = (regs s)(f := map_option (\<lambda>c. (c, e_event_mask e)) (e_cb e))"
  by (simp add: regs_def fun_eq_iff)

lemma regs_delete: "regs (s\<lparr>cb_map := AList.delete f (cb_map s)\<rparr>) = (regs s)(f := None)"
  by (simp add: regs_def fun_eq_iff delete_conv')

section \<open>Simulation of the operations\<close>

lemma ModifyFD_sim:
  assumes rep: "rep U s a"
  shows "sim U (ModifyFD env f rem add s) (spec_modify env f rem add a)"
  using rep
proof (cases rule: rep_cases [where f = f])
  case unregistered
  then show ?thesis using rep by (auto simp: ModifyFD_def spec_modify_def)
next
  case (registered c em e)
  let ?em = "(em AND NOT rem) OR add"
  let ?s1 = "s\<lparr>cb_map := AList.update f (e\<lparr>e_event_mask := ?em\<rparr>) (cb_map s)\<rparr>"
  have "rep U ?s1 (a\<lparr>sp_regs := (sp_regs a)(f \<mapsto> (c, ?em))\<rparr>)"
    using rep registered ready_inv_update [of s "sp_ready a" "sp_tmp a" U f e "e\<lparr>e_event_mask := ?em\<rparr>"]
    by (auto simp: rep_def regs_update)
  then have "sim U (bindr (ModFD env f ?em ?s1) (\<lambda>s2. Inr (observe (CallOnModification c f ?em) s2)))
    (bindr (spec_ctl env (CtlMod f (kernel_mask ?em)) (a\<lparr>sp_regs := (sp_regs a)(f \<mapsto> (c, ?em))\<rparr>))
      (\<lambda>a1. Inr (sp_observe (CallOnModification c f ?em) a1)))"
    unfolding ModFD_def kernel_mask_def by (intro res_sim_bindr [OF epoll_ctl_sim]) auto
  then show ?thesis
    using registered by (simp add: ModifyFD_def spec_modify_def modify_node_eq Let_def)
qed

text \<open>The end of \<open>UnregisterFD\<close>: the node is erased, or kept without a callback if in use.\<close>

lemma unregister_node_rep:
  assumes rep: "rep U s a" and f: "node s f = Some e" and off: "f \<notin> set (sp_ready a) \<union> set (sp_tmp a)"
  shows "rep U (if \<not> e_in_use e then s\<lparr>cb_map := AList.delete f (cb_map s)\<rparr>
      else s\<lparr>cb_map := AList.update f (e\<lparr>e_cb := None, e_event_mask := 0, e_events_to_fake := 0\<rparr>) (cb_map s)\<rparr>)
    (a\<lparr>sp_regs := (sp_regs a)(f := None)\<rparr>)"
proof -
  have inv: "ready_inv s (sp_ready a) (sp_tmp a) U" and ok: "node_ok (sp_ready a) (sp_tmp a) U f e"
    using rep f ready_inv_node by (auto simp: rep_def)
  show ?thesis
  proof (cases "e_in_use e")
    case True
    let ?e = "e\<lparr>e_cb := None, e_event_mask := 0, e_events_to_fake := 0\<rparr>"
    have "ready_inv (s\<lparr>cb_map := AList.update f ?e (cb_map s)\<rparr>) (sp_ready a) (sp_tmp a) U"
      by (rule ready_inv_update [OF inv f]) (use True ok off in \<open>auto simp: node_ok_def\<close>)
    then show ?thesis
      using rep True by (simp add: rep_def regs_update)
  next
    case False
    then have "U - {f} = U" using ok by (auto simp: node_ok_def)
    then show ?thesis
      using rep False ready_inv_delete [OF inv off] by (simp add: rep_def regs_delete)
  qed
qed

lemma spec_drop_off:
  "ready_inv s (sp_ready a) (sp_tmp a) U \<Longrightarrow> f \<notin> set (sp_ready (spec_drop f a)) \<union> set (sp_tmp (spec_drop f a))"
  by (auto simp: spec_drop_def ready_inv_def)

lemma spec_drop_fields [simp]:
  "sp_regs (spec_drop f a) = sp_regs a" "sp_trace (spec_drop f a) = sp_trace a"
  by (simp_all add: spec_drop_def)

lemma epoll_ctl_state:
  "epoll_ctl env c s = Inr s' \<Longrightarrow> s' = observe (SysCtl c (sys_ctl env (obs_trace s) c)) s"
  by (auto simp: epoll_ctl_def Let_def guard_def split: if_splits)

lemma UnregisterFD_sim:
  assumes rep: "rep U s a"
  shows "sim U (UnregisterFD env f s) (spec_unregister env f a)"
  using rep
proof (cases rule: rep_cases [where f = f])
  case unregistered
  then show ?thesis using rep by (auto simp: UnregisterFD_def spec_unregister_def)
next
  case (registered c em e)
  from RemoveFromReadyList_sim [OF rep registered(2), of env] obtain s1 e1 where
    s1: "RemoveFromReadyList env f s = Inr s1" "rep U s1 (spec_drop f a)" "node s1 f = Some e1" by blast
  let ?x = "SysCtl (CtlDel f) (sys_ctl env (obs_trace s1) (CtlDel f))"
  let ?s3 = "observe (CallOnUnregistration c f False) (observe ?x s1)"
  let ?a3 = "sp_observe (CallOnUnregistration c f False) (sp_observe ?x (spec_drop f a))"
  have tr: "obs_trace s1 = sp_trace a" using s1(2) by (simp add: rep_def)
  have rep3: "rep U ?s3 ?a3" using s1(2) by (intro rep_observe)
  have off: "f \<notin> set (sp_ready ?a3) \<union> set (sp_tmp ?a3)"
    using spec_drop_off [of s a U f] rep by (simp add: rep_def)
  have "node ?s3 f = Some e1" using s1(3) by simp
  note fin = unregister_node_rep [OF rep3 this off]
  show ?thesis
  proof (cases "sys_ctl env (sp_trace a) (CtlDel f) = 0")
    case True
    have "UnregisterFD env f s = Inr (if \<not> e_in_use e1 then ?s3\<lparr>cb_map := AList.delete f (cb_map ?s3)\<rparr>
      else ?s3\<lparr>cb_map := AList.update f (e1\<lparr>e_cb := None, e_event_mask := 0, e_events_to_fake := 0\<rparr>) (cb_map ?s3)\<rparr>)"
      using s1(3) True
      by (simp add: UnregisterFD_def registered(2,3) s1(1) DelFD_def epoll_ctl_def tr deref_def modify_node_eq)
    moreover have "spec_unregister env f a = Inr (?a3\<lparr>sp_regs := (sp_regs ?a3)(f := None)\<rparr>)"
      using True by (simp add: spec_unregister_def registered(1) spec_ctl_def tr)
    ultimately show ?thesis using fin by (simp only: res_sim_simps)
  next
    case False
    then show ?thesis
      by (simp add: UnregisterFD_def spec_unregister_def registered(1-3) s1(1) DelFD_def epoll_ctl_def
          spec_ctl_def tr)
  qed
qed

lemma rep_set_callback:
  assumes rep: "rep U s a" and f: "node s f = Some e"
  shows "rep U (s\<lparr>cb_map := AList.update f (e\<lparr>e_cb := Some c, e_event_mask := em, e_events_to_fake := 0\<rparr>) (cb_map s)\<rparr>)
    (a\<lparr>sp_regs := (sp_regs a)(f \<mapsto> (c, em))\<rparr>)"
  using rep ready_inv_update [OF _ f, of "sp_ready a" "sp_tmp a" U "e\<lparr>e_cb := Some c, e_event_mask := em, e_events_to_fake := 0\<rparr>"]
  by (simp add: rep_def regs_update)

lemma rep_new_node:
  assumes rep: "rep U s a" and f: "node s f = None"
  shows "rep U (s\<lparr>cb_map := (f, CBAndEventMask c em) # cb_map s\<rparr>) (a\<lparr>sp_regs := (sp_regs a)(f \<mapsto> (c, em))\<rparr>)"
  using rep ready_inv_insert [OF _ f, of "sp_ready a" "sp_tmp a" U "CBAndEventMask c em"]
  by (simp add: rep_def regs_insert CBAndEventMask_def)

lemma epoll_ctl_sim_map:
  "rep U s a \<Longrightarrow>
   res_sim (\<lambda>s' a'. rep U s' a' \<and> cb_map s' = cb_map s) (epoll_ctl env c s) (spec_ctl env c a)"
  by (auto simp: epoll_ctl_def spec_ctl_def Let_def guard_def rep_def)

lemma mapr_bindr: "mapr g m = bindr m (\<lambda>x. Inr (g x))"
  by (cases m) auto

text \<open>The tail of \<open>RegisterFD\<close>, after the kernel has been told.\<close>

lemma register_tail_sim:
  assumes "sim U m (bindr m' (\<lambda>a1. Inr (a1\<lparr>sp_regs := (sp_regs a1)(f \<mapsto> (c, em))\<rparr>)))"
  shows "sim U (bindr m (\<lambda>s3. bindr (SetNonblocking env f s3) (\<lambda>s4. Inr (observe (CallOnRegistration c f em) s4))))
    (bindr m' (\<lambda>a1. bindr (spec_nonblocking env f (a1\<lparr>sp_regs := (sp_regs a1)(f \<mapsto> (c, em))\<rparr>))
      (\<lambda>a2. Inr (sp_observe (CallOnRegistration c f em) a2))))"
proof -
  have "sim U (bindr m (\<lambda>s3. bindr (SetNonblocking env f s3) (\<lambda>s4. Inr (observe (CallOnRegistration c f em) s4))))
    (bindr (bindr m' (\<lambda>a1. Inr (a1\<lparr>sp_regs := (sp_regs a1)(f \<mapsto> (c, em))\<rparr>)))
      (\<lambda>a1. bindr (spec_nonblocking env f a1) (\<lambda>a2. Inr (sp_observe (CallOnRegistration c f em) a2))))"
    by (intro res_sim_bindr [OF assms] res_sim_bindr [OF SetNonblocking_sim]) auto
  then show ?thesis by (simp add: bindr_assoc)
qed

lemma RegisterFD_sim:
  assumes rep: "rep U s a"
  shows "sim U (RegisterFD env f (Some c) em s) (spec_register env f c em a)"
proof -
  let ?set = "\<lambda>a1. Inr (a1\<lparr>sp_regs := (sp_regs a1)(f \<mapsto> (c, em))\<rparr>) :: spec_server res"
  have set: "sim U (bindr (epoll_ctl env ct s1) (modify_node f (\<lambda>e'. e'\<lparr>e_cb := Some c, e_event_mask := em, e_events_to_fake := 0\<rparr>)))
      (bindr (spec_ctl env ct a1) ?set)"
    if "rep U s1 a1" "node s1 f = Some e1" for s1 a1 e1 ct
  proof (rule res_sim_bindr [OF epoll_ctl_sim_map [OF that(1)]])
    fix x y
    assume "rep U x y \<and> cb_map x = cb_map s1"
    then show "sim U (modify_node f (\<lambda>e'. e'\<lparr>e_cb := Some c, e_event_mask := em, e_events_to_fake := 0\<rparr>) x) (?set y)"
      using rep_set_callback [of U x y f e1 em c] that(2) by (simp add: modify_node_eq)
  qed
  show ?thesis
  using rep
  proof (cases rule: rep_cases [where f = f])
    case (registered c' em' e)
    from RemoveFromReadyList_sim [OF rep registered(2), of env] obtain s1 e1 where
      s1: "RemoveFromReadyList env f s = Inr s1" "rep U s1 (spec_drop f a)" "node s1 f = Some e1" by blast
    show ?thesis
      using set [OF rep_observe [OF s1(2)], of "CallOnUnregistration c' f True" e1 "CtlMod f (kernel_mask em)"] s1(3)
      by (simp add: RegisterFD_def spec_register_def registered s1(1) ModFD_def kernel_mask_def register_tail_sim)
  next
    case unregistered
    then consider (null) e where "node s f = Some e" "e_cb e = None" | (fresh) "node s f = None" by auto
    then show ?thesis
    proof cases
      case null
      then show ?thesis
        using set [OF rep null(1), of "CtlAdd f (kernel_mask em)"] unregistered(1)
        by (simp add: RegisterFD_def spec_register_def AddFD_def kernel_mask_def register_tail_sim)
    next
      case fresh
      have "sim U (mapr (\<lambda>s2. s2\<lparr>cb_map := (f, CBAndEventMask c em) # cb_map s2\<rparr>) (AddFD env f em s))
        (bindr (spec_ctl env (CtlAdd f (kernel_mask em)) a) ?set)"
        unfolding mapr_bindr AddFD_def kernel_mask_def
      proof (rule res_sim_bindr [OF epoll_ctl_sim_map [OF rep]])
        fix x y
        assume "rep U x y \<and> cb_map x = cb_map s"
        then show "sim U (Inr (x\<lparr>cb_map := (f, CBAndEventMask c em) # cb_map x\<rparr>)) (?set y)"
          using rep_new_node [of U x y f c em] fresh by simp
      qed
      then show ?thesis
        using fresh unregistered(1) by (simp add: RegisterFD_def spec_register_def register_tail_sim)
    qed
  qed
qed

lemma rep_update_events:
  assumes rep: "rep U s a" and f: "node s f = Some e"
    and e': "le_prev e' = le_prev e" "le_next e' = le_next e" "e_in_use e' = e_in_use e"
      "e_cb e' = e_cb e" "e_event_mask e' = e_event_mask e" "e_cb e \<noteq> None"
  shows "rep U (s\<lparr>cb_map := AList.update f e' (cb_map s)\<rparr>) a"
proof -
  have "(regs s)(f := map_option (\<lambda>c. (c, e_event_mask e')) (e_cb e')) = regs s"
    using f e' by (auto simp: regs_def fun_eq_iff)
  then show ?thesis
    using rep ready_inv_update [OF _ f e'(1-3), of "sp_ready a" "sp_tmp a" U] e' by (simp add: rep_def regs_update)
qed

lemma SetFDReady_sim:
  assumes rep: "rep U s a"
  shows "sim U (SetFDReady f em s) (Inr (spec_ready f a))"
  using rep
proof (cases rule: rep_cases [where f = f])
  case unregistered
  then show ?thesis using rep by (auto simp: SetFDReady_def spec_ready_def)
next
  case (registered c em' e)
  let ?s1 = "s\<lparr>cb_map := AList.update f (e\<lparr>e_events_to_fake := em\<rparr>) (cb_map s)\<rparr>"
  have "rep U ?s1 a"
    using registered by (intro rep_update_events [OF rep registered(2)]) auto
  from AddToReadyList_sim [OF this, of f "e\<lparr>e_events_to_fake := em\<rparr>"] registered show ?thesis
    by (auto simp: SetFDReady_def spec_ready_def modify_node_eq)
qed

lemma HandleEvent_sim:
  assumes rep: "rep U s a"
  shows "sim U (HandleEvent f em s) (Inr (spec_ready f a))"
  using rep
proof (cases rule: rep_cases [where f = f])
  case unregistered
  then show ?thesis using rep by (auto simp: HandleEvent_def spec_ready_def)
next
  case (registered c em' e)
  let ?s1 = "s\<lparr>cb_map := AList.update f (e\<lparr>e_events_asserted := em\<rparr>) (cb_map s)\<rparr>"
  have "rep U ?s1 a"
    using registered by (intro rep_update_events [OF rep registered(2)]) auto
  from AddToReadyList_sim [OF this, of f "e\<lparr>e_events_asserted := em\<rparr>"] registered show ?thesis
    by (auto simp: HandleEvent_def spec_ready_def modify_node_eq)
qed

lemma SetFDNotReady_sim:
  assumes rep: "rep U s a"
  shows "sim U (SetFDNotReady env f s) (Inr (spec_drop f a))"
proof (cases "node s f")
  case None
  then have "f \<notin> set (sp_ready a) \<union> set (sp_tmp a)"
    using rep ready_inv_linked [of s "sp_ready a" "sp_tmp a" U f] by (auto simp: rep_def)
  then show ?thesis
    using None rep by (simp add: SetFDNotReady_def spec_drop_def remove1_idem)
next
  case (Some e)
  then show ?thesis
    using RemoveFromReadyList_sim [OF rep Some, of env] by (auto simp: SetFDNotReady_def)
qed

section \<open>Refinement\<close>

text \<open>The calls on descriptors, at the level of the specification.\<close>

fun spec_op :: "env \<Rightarrow> server_op \<Rightarrow> spec_server \<Rightarrow> spec_server res" where
  "spec_op env (OpRegisterFD f c em) a = spec_register env f c em a"
| "spec_op env (OpUnregisterFD f) a = spec_unregister env f a"
| "spec_op env (OpModifyCallback f em) a = spec_modify env f (NOT 0) em a"
| "spec_op env (OpStopRead f) a = spec_modify env f EPOLLIN 0 a"
| "spec_op env (OpStartRead f) a = spec_modify env f 0 EPOLLIN a"
| "spec_op env (OpStopWrite f) a = spec_modify env f EPOLLOUT 0 a"
| "spec_op env (OpStartWrite f) a = spec_modify env f 0 EPOLLOUT a"
| "spec_op env (OpSetFDReady f em) a = Inr (spec_ready f a)"
| "spec_op env (OpSetFDNotReady f) a = Inr (spec_drop f a)"
| "spec_op env _ a = Inr a"

fun fd_op :: "server_op \<Rightarrow> bool" where
  "fd_op (OpRegisterAlarm t ac) = False"
| "fd_op (OpUnregisterIfRegistered ac) = False"
| "fd_op OpWake = False"
| "fd_op _ = True"

lemma exec_op_sim:
  "fd_op op \<Longrightarrow> rep U s a \<Longrightarrow> sim U (exec_op env op s) (spec_op env op a)"
  by (cases op) (auto simp: RegisterFD_sim UnregisterFD_sim ModifyCallback_def StopRead_def
      StartRead_def StopWrite_def StartWrite_def ModifyFD_sim SetFDReady_sim SetFDNotReady_sim)

end
