(* ===== verification/Epoll_Alarms.thy ===== *)
theory Epoll_Alarms
  imports Epoll_Spec
begin

text \<open>
  The alarms of the epoll server: \<open>RegisterAlarm\<close>, \<open>UnregisterAlarm\<close>, \<open>EpollAlarm\<close> and
  \<open>CallAndReregisterAlarmEvents\<close> of \<open>raner/epoll_server.cc\<close>.

  \<open>alarm_inv K s\<close> relates the map, the set of all alarms and the alarm objects; \<open>K\<close> holds the map
  node whose \<open>OnAlarm\<close> is running. Under it no operation uses an invalid iterator.
\<close>

section \<open>The invariant\<close>

definition live :: "token set \<Rightarrow> epoll_server \<Rightarrow> (int \<times> token \<times> alarm) list" where
  "live K s = filter (\<lambda>(t, k, ac). k \<notin> K) (alarm_map s)"

definition alarm_of :: "int \<times> token \<times> alarm \<Rightarrow> alarm" where
  "alarm_of x = snd (snd x)"

definition token_of :: "int \<times> token \<times> alarm \<Rightarrow> token" where
  "token_of x = fst (snd x)"

lemma alarm_of_simps [simp]: "alarm_of (t, k, ac) = ac" "token_of (t, k, ac) = k"
  by (simp_all add: alarm_of_def token_of_def)

definition alarm_inv :: "token set \<Rightarrow> epoll_server \<Rightarrow> bool" where
  "alarm_inv K s \<longleftrightarrow>
     sorted (map fst (alarm_map s)) \<and>
     distinct (map token_of (alarm_map s)) \<and>
     (\<forall>x \<in> set (alarm_map s). token_of x < next_token s) \<and>
     distinct (map alarm_of (live K s)) \<and>
     all_alarms s = set (map alarm_of (live K s)) \<and>
     (\<forall>ac. a_registered (alarm_objs s ac) \<longleftrightarrow> ac \<in> all_alarms s) \<and>
     (\<forall>(t, k, ac) \<in> set (live K s). a_token (alarm_objs s ac) = Some k \<and> a_eps (alarm_objs s ac)) \<and>
     K \<subseteq> token_of ` set (alarm_map s)"

lemma alarm_invD:
  assumes "alarm_inv K s"
  shows "sorted (map fst (alarm_map s))" "distinct (map token_of (alarm_map s))"
    "x \<in> set (alarm_map s) \<Longrightarrow> token_of x < next_token s"
    "distinct (map alarm_of (live K s))" "all_alarms s = alarm_of ` set (live K s)"
    "a_registered (alarm_objs s ac) \<longleftrightarrow> ac \<in> all_alarms s"
    "(t, k, ac) \<in> set (live K s) \<Longrightarrow> a_token (alarm_objs s ac) = Some k \<and> a_eps (alarm_objs s ac)"
    "K \<subseteq> token_of ` set (alarm_map s)"
  using assms unfolding alarm_inv_def by auto

definition alarm_part ::
  "epoll_server \<Rightarrow> (int \<times> token \<times> alarm) list \<times> alarm set \<times> (alarm \<Rightarrow> epoll_alarm) \<times> token \<times> alarm set \<times> int" where
  "alarm_part s =
     (alarm_map s, all_alarms s, alarm_objs s, next_token s, skipped_alarms s, recorded_now_in_us s)"

lemma alarm_inv_part: "alarm_part s' = alarm_part s \<Longrightarrow> alarm_inv K s' = alarm_inv K s"
  by (simp add: alarm_part_def alarm_inv_def live_def)

lemma alarm_inv_recorded [simp]: "alarm_inv K (s\<lparr>recorded_now_in_us := t\<rparr>) = alarm_inv K s"
  by (simp add: alarm_inv_def live_def)

section \<open>The multimap\<close>

lemma set_multimap_insert [simp]:
  "set (multimap_insert t k ac m) = insert (t, k, ac) (set m)"
  by (induction t k ac m rule: multimap_insert.induct) auto

lemma sorted_multimap_insert:
  "sorted (map fst m) \<Longrightarrow> sorted (map fst (multimap_insert t k ac m))"
  by (induction t k ac m rule: multimap_insert.induct) auto

lemma multimap_insert_split:
  "\<exists>m1 m2. m = m1 @ m2 \<and> multimap_insert t k ac m = m1 @ (t, k, ac) # m2 \<and>
     (\<forall>x \<in> set m1. fst x \<le> t) \<and> (m2 \<noteq> [] \<longrightarrow> t < fst (hd m2))"
proof (induction t k ac m rule: multimap_insert.induct)
  case (2 t k ac t' k' ac' m)
  show ?case
  proof (cases "t' \<le> t")
    case True
    with 2 obtain m1 m2 where "m = m1 @ m2" "multimap_insert t k ac m = m1 @ (t, k, ac) # m2"
      "\<forall>x \<in> set m1. fst x \<le> t" "m2 \<noteq> [] \<longrightarrow> t < fst (hd m2)" by auto
    then show ?thesis
      using True by (intro exI [of _ "(t', k', ac') # m1"] exI [of _ m2]) auto
  qed (auto intro: exI [of _ "[]"])
qed auto

lemma multimap_insert_front:
  "\<forall>x \<in> set m. t < fst x \<Longrightarrow> multimap_insert t k ac m = (t, k, ac) # m"
  by (cases m) auto

lemma filter_multimap_insert:
  "filter P (multimap_insert t k ac m) =
     (if P (t, k, ac) then multimap_insert t k ac (filter P m) else filter P m)"
  if "sorted (map fst m)"
  using that
proof (induction t k ac m rule: multimap_insert.induct)
  case (2 t k ac t' k' ac' m)
  then show ?case
    by (fastforce simp: linorder_not_le intro!: multimap_insert_front [symmetric])
qed simp

lemma distinct_map_multimap_insert:
  "distinct (map g (multimap_insert t k ac m)) \<longleftrightarrow> g (t, k, ac) \<notin> g ` set m \<and> distinct (map g m)"
  by (induction t k ac m rule: multimap_insert.induct) auto

lemma find_token:
  assumes "distinct (map token_of m)" "(t, k, ac) \<in> set m"
  shows "find (\<lambda>(t, k', ac). k' = k) m = Some (t, k, ac)"
  using assms
proof (induction m)
  case (Cons x m)
  show ?case
  proof (cases x)
    case (fields t' k' ac')
    then show ?thesis using Cons by (force simp: image_iff)
  qed
qed simp

section \<open>Registration\<close>

lemma alarm_inv_registered:
  assumes "alarm_inv K s" "a_registered (alarm_objs s ac)"
  obtains t k where "(t, k, ac) \<in> set (alarm_map s)" "k \<notin> K"
    "a_token (alarm_objs s ac) = Some k" "a_eps (alarm_objs s ac)"
proof -
  have "ac \<in> alarm_of ` set (live K s)"
    using assms by (simp add: alarm_inv_def)
  then obtain t k where "(t, k, ac) \<in> set (live K s)"
    by (auto simp: alarm_of_def)
  then show ?thesis
    using assms(1) that by (auto simp: alarm_inv_def live_def)
qed

lemma RegisterAlarm_eq:
  assumes inv: "alarm_inv K s"
  shows "RegisterAlarm env t (Some ac) s =
    (if ac \<in> all_alarms s then Inl LogFatal
     else Inr (modify_alarm ac (\<lambda>a. a\<lparr>a_token := Some (next_token s), a_eps := True, a_registered := True\<rparr>)
       (observe (CallAlarmOnRegistration ac (next_token s))
         (s\<lparr>alarm_map := multimap_insert t (next_token s) ac (alarm_map s),
            next_token := next_token s + 1, all_alarms := insert ac (all_alarms s)\<rparr>))))"
  using inv by (auto simp: RegisterAlarm_def EpollAlarm_OnRegistration_def dcheck_def guard_def
      Let_def alarm_inv_def)

lemma modify_alarm_fields [simp]:
  "alarm_map (modify_alarm ac g s) = alarm_map s" "all_alarms (modify_alarm ac g s) = all_alarms s"
  "next_token (modify_alarm ac g s) = next_token s" "skipped_alarms (modify_alarm ac g s) = skipped_alarms s"
  "alarm_objs (modify_alarm ac g s) = (alarm_objs s)(ac := g (alarm_objs s ac))"
  "obs_trace (modify_alarm ac g s) = obs_trace s" "cb_map (modify_alarm ac g s) = cb_map s"
  "ready_list (modify_alarm ac g s) = ready_list s" "tmp_list (modify_alarm ac g s) = tmp_list s"
  "ready_list_size (modify_alarm ac g s) = ready_list_size s"
  "recorded_now_in_us (modify_alarm ac g s) = recorded_now_in_us s"
  by (simp_all add: modify_alarm_def)

lemma RegisterAlarm_inv:
  assumes inv: "alarm_inv K s"
  shows "res_only {LogFatal} (alarm_inv K) (RegisterAlarm env t (Some ac) s)"
proof (cases "ac \<in> all_alarms s")
  case False
  let ?k = "next_token s"
  have K: "?k \<notin> K"
    using alarm_invD(3,8) [OF inv] by fastforce
  have srt: "sorted (map fst (alarm_map s))" using inv by (simp add: alarm_inv_def)
  let ?s = "modify_alarm ac (\<lambda>a. a\<lparr>a_token := Some ?k, a_eps := True, a_registered := True\<rparr>)
    (observe (CallAlarmOnRegistration ac ?k) (s\<lparr>alarm_map := multimap_insert t ?k ac (alarm_map s),
      next_token := ?k + 1, all_alarms := insert ac (all_alarms s)\<rparr>))"
  have live: "live K ?s = multimap_insert t ?k ac (live K s)"
    using K by (simp add: filter_multimap_insert [OF srt] live_def)
  have fresh: "?k \<notin> token_of ` set (alarm_map s)" "ac \<notin> alarm_of ` set (live K s)"
    using inv False by (auto simp: alarm_inv_def)
  have old: "a_token (alarm_objs s ac') = Some k' \<and> a_eps (alarm_objs s ac') \<and> ac' \<noteq> ac"
    if "(t', k', ac') \<in> set (live K s)" for t' k' ac'
    using alarm_invD(7) [OF inv that] fresh(2) that by (metis alarm_of_simps(1) image_eqI)
  have "alarm_inv K ?s"
    unfolding alarm_inv_def live
  proof (intro conjI)
    show "\<forall>x \<in> set (alarm_map ?s). token_of x < next_token ?s"
      using inv by (auto simp: alarm_inv_def less_Suc_eq)
    show "\<forall>ac'. a_registered (alarm_objs ?s ac') = (ac' \<in> all_alarms ?s)"
      using alarm_invD(6) [OF inv] by simp
    show "K \<subseteq> token_of ` set (alarm_map ?s)"
      using alarm_invD(8) [OF inv] by auto
    show "\<forall>(t, k, ac) \<in> set (multimap_insert t ?k ac (live K s)).
      a_token (alarm_objs ?s ac) = Some k \<and> a_eps (alarm_objs ?s ac)"
      using old by auto
  qed (use alarm_invD(2,4,5) [OF inv] fresh srt in
      \<open>simp_all add: sorted_multimap_insert distinct_map_multimap_insert\<close>)
  then show ?thesis using False by (simp add: RegisterAlarm_eq [OF inv])
qed (simp add: RegisterAlarm_eq [OF inv])

lemma UnregisterIfRegistered_eq:
  assumes inv: "alarm_inv K s" and reg: "a_registered (alarm_objs s ac)"
    and k: "a_token (alarm_objs s ac) = Some k"
  shows "UnregisterIfRegistered ac s =
    Inr (EpollAlarm_OnUnregistration ac ((alarm_erase k s)\<lparr>all_alarms := all_alarms s - {ac}\<rparr>))"
proof -
  obtain t where t: "(t, k, ac) \<in> set (alarm_map s)" "a_eps (alarm_objs s ac)"
    using alarm_inv_registered [OF inv reg] k by auto
  have "distinct (map token_of (alarm_map s))" using inv by (simp add: alarm_inv_def)
  from find_token [OF this t(1)] show ?thesis
    using reg k t(2)
    by (simp add: UnregisterIfRegistered_def UnregisterAlarm_def alarm_find_def Let_def alarm_erase_def)
qed

text \<open>Erasing one node: the alarm that leaves is marked unregistered.\<close>

lemma live_remove:
  assumes "alarm_inv K s" "(t, k, ac) \<in> set (live K s)" "x \<in> set (live K s)"
  shows "token_of x = k \<longleftrightarrow> x = (t, k, ac)" "alarm_of x = ac \<longleftrightarrow> x = (t, k, ac)"
proof -
  have "distinct (map token_of (alarm_map s))" "distinct (map alarm_of (live K s))"
    using assms(1) by (auto simp: alarm_inv_def)
  moreover have "x \<in> set (alarm_map s)" "(t, k, ac) \<in> set (alarm_map s)"
    using assms(2,3) by (auto simp: live_def)
  ultimately show "token_of x = k \<longleftrightarrow> x = (t, k, ac)" "alarm_of x = ac \<longleftrightarrow> x = (t, k, ac)"
    using assms(2,3) inj_on_eq_iff [of token_of "set (alarm_map s)" x "(t, k, ac)"]
      inj_on_eq_iff [of alarm_of "set (live K s)" x "(t, k, ac)"]
    by (auto simp: distinct_map)
qed

lemma live_remove_set:
  assumes "alarm_inv K s" "(t, k, ac) \<in> set (live K s)"
  shows "set (filter (\<lambda>x. token_of x \<noteq> k) (live K s)) = {x \<in> set (live K s). alarm_of x \<noteq> ac}"
proof (rule set_eqI)
  fix x
  show "x \<in> set (filter (\<lambda>x. token_of x \<noteq> k) (live K s)) \<longleftrightarrow> x \<in> {x \<in> set (live K s). alarm_of x \<noteq> ac}"
    using live_remove [OF assms, of x] by (cases "x \<in> set (live K s)") simp_all
qed

lemma live_erase: "live K (alarm_erase k s) = filter (\<lambda>x. token_of x \<noteq> k) (live K s)"
  by (auto simp: live_def alarm_erase_def token_of_def intro: filter_cong)

lemma alarm_erase_fields [simp]:
  "all_alarms (alarm_erase k s) = all_alarms s" "alarm_objs (alarm_erase k s) = alarm_objs s"
  "next_token (alarm_erase k s) = next_token s" "skipped_alarms (alarm_erase k s) = skipped_alarms s"
  "obs_trace (alarm_erase k s) = obs_trace s" "cb_map (alarm_erase k s) = cb_map s"
  "ready_list (alarm_erase k s) = ready_list s" "tmp_list (alarm_erase k s) = tmp_list s"
  "ready_list_size (alarm_erase k s) = ready_list_size s"
  "recorded_now_in_us (alarm_erase k s) = recorded_now_in_us s"
  by (simp_all add: alarm_erase_def)

lemma alarm_map_erase: "alarm_map (alarm_erase k s) = filter (\<lambda>x. token_of x \<noteq> k) (alarm_map s)"
  by (auto simp: alarm_erase_def token_of_def intro: filter_cong)

lemma alarm_inv_remove:
  assumes inv: "alarm_inv K s" and x: "(t, k, ac) \<in> set (live K s)"
    and s': "alarm_map s' = filter (\<lambda>x. token_of x \<noteq> k) (alarm_map s)"
      "all_alarms s' = all_alarms s - {ac}" "next_token s' = next_token s"
      "\<And>ac'. ac' \<noteq> ac \<Longrightarrow> alarm_objs s' ac' = alarm_objs s ac'" "\<not> a_registered (alarm_objs s' ac)"
  shows "alarm_inv K s'"
proof -
  have live: "live K s' = filter (\<lambda>x. token_of x \<noteq> k) (live K s)"
    by (auto simp: live_def s'(1) token_of_def intro: filter_cong)
  have "k \<notin> K" using x by (auto simp: live_def)
  have all: "all_alarms s' = alarm_of ` set (live K s')"
    unfolding s'(2) live live_remove_set [OF inv x] alarm_invD(5) [OF inv] by auto
  show ?thesis
    unfolding alarm_inv_def
  proof (intro conjI)
    show "\<forall>ac'. a_registered (alarm_objs s' ac') = (ac' \<in> all_alarms s')"
    proof
      fix ac'
      show "a_registered (alarm_objs s' ac') = (ac' \<in> all_alarms s')"
        by (cases "ac' = ac") (use alarm_invD(6) [OF inv] s' in simp_all)
    qed
    show "\<forall>(t, k, ac) \<in> set (live K s'). a_token (alarm_objs s' ac) = Some k \<and> a_eps (alarm_objs s' ac)"
    proof clarify
      fix t' k' ac'
      assume "(t', k', ac') \<in> set (live K s')"
      then have "(t', k', ac') \<in> set (live K s)" "ac' \<noteq> ac"
        unfolding live live_remove_set [OF inv x] by auto
      then show "a_token (alarm_objs s' ac') = Some k' \<and> a_eps (alarm_objs s' ac')"
        using alarm_invD(7) [OF inv, of t' k' ac'] s'(4) by simp
    qed
    show "K \<subseteq> token_of ` set (alarm_map s')"
      using alarm_invD(8) [OF inv] \<open>k \<notin> K\<close> by (auto simp: s'(1))
    show "sorted (map fst (alarm_map s'))"
      using alarm_invD(1) [OF inv] by (simp add: s'(1) sorted_filter)
    show "distinct (map token_of (alarm_map s'))" "distinct (map alarm_of (live K s'))"
      using alarm_invD(2,4) [OF inv] by (simp_all add: s'(1) live distinct_map_filter)
  qed (use alarm_invD(3) [OF inv] all in \<open>auto simp: s'(1,3)\<close>)
qed

lemma UnregisterIfRegistered_inv:
  assumes inv: "alarm_inv K s"
  shows "res_ok (alarm_inv K) (UnregisterIfRegistered ac s)"
proof (cases "a_registered (alarm_objs s ac)")
  case True
  from alarm_inv_registered [OF inv True] obtain t k where
    k: "(t, k, ac) \<in> set (alarm_map s)" "k \<notin> K" "a_token (alarm_objs s ac) = Some k" by blast
  then have "(t, k, ac) \<in> set (live K s)" by (simp add: live_def)
  then show ?thesis
    unfolding UnregisterIfRegistered_eq [OF inv True k(3)] res_ok_simps
    by (rule alarm_inv_remove [OF inv]) (simp_all add: EpollAlarm_OnUnregistration_def alarm_map_erase)
qed (use inv in \<open>simp add: UnregisterIfRegistered_def\<close>)

section \<open>Running an alarm\<close>

text \<open>While \<open>OnAlarm\<close> of the node \<open>k\<close> runs, the alarm is not registered; the node is erased after it.\<close>

lemma alarm_inv_fire:
  assumes inv: "alarm_inv {} s" and x: "(t, k, ac) \<in> set (alarm_map s)"
  shows "alarm_inv {k} (EpollAlarm_OnAlarm ac (s\<lparr>all_alarms := all_alarms s - {ac}\<rparr>))"
proof -
  let ?s = "EpollAlarm_OnAlarm ac (s\<lparr>all_alarms := all_alarms s - {ac}\<rparr>)"
  have live0: "live {} s = alarm_map s" by (simp add: live_def)
  have x': "(t, k, ac) \<in> set (live {} s)" using x live0 by simp
  have live: "live {k} ?s = filter (\<lambda>x. token_of x \<noteq> k) (live {} s)"
    by (auto simp: live_def EpollAlarm_OnAlarm_def token_of_def intro: filter_cong)
  show ?thesis
    unfolding alarm_inv_def
  proof (intro conjI)
    show "all_alarms ?s = set (map alarm_of (live {k} ?s))"
      unfolding live set_map live_remove_set [OF inv x']
      by (auto simp: EpollAlarm_OnAlarm_def alarm_invD(5) [OF inv])
    show "\<forall>ac'. a_registered (alarm_objs ?s ac') = (ac' \<in> all_alarms ?s)"
      using alarm_invD(6) [OF inv] by (simp add: EpollAlarm_OnAlarm_def)
    show "\<forall>(t, k', ac') \<in> set (live {k} ?s). a_token (alarm_objs ?s ac') = Some k' \<and> a_eps (alarm_objs ?s ac')"
      unfolding live using alarm_invD(7) [OF inv]
      by (auto simp: EpollAlarm_OnAlarm_def simp del: alarm_of_simps)
    show "distinct (map alarm_of (live {k} ?s))"
      using alarm_invD(4) [OF inv] unfolding live by (simp add: distinct_map_filter)
    show "{k} \<subseteq> token_of ` set (alarm_map ?s)"
      using x by (force simp: EpollAlarm_OnAlarm_def)
  qed (use alarm_invD(1-3) [OF inv] in \<open>auto simp: EpollAlarm_OnAlarm_def\<close>)
qed

lemma alarm_inv_fired: "alarm_inv {k} s \<Longrightarrow> alarm_inv {} (alarm_erase k s)"
proof -
  assume inv: "alarm_inv {k} s"
  have live: "live {} (alarm_erase k s) = live {k} s"
    by (auto simp: live_def alarm_erase_def intro: filter_cong)
  show "alarm_inv {} (alarm_erase k s)"
    unfolding alarm_inv_def live
  proof (intro conjI)
    show "\<forall>(t, k', ac) \<in> set (live {k} s). a_token (alarm_objs (alarm_erase k s) ac) = Some k' \<and>
      a_eps (alarm_objs (alarm_erase k s) ac)"
      using alarm_invD(7) [OF inv] by auto
    show "\<forall>ac. a_registered (alarm_objs (alarm_erase k s) ac) = (ac \<in> all_alarms (alarm_erase k s))"
      using alarm_invD(6) [OF inv] by simp
  qed (use alarm_invD(1-5) [OF inv] in
      \<open>simp_all add: alarm_map_erase sorted_filter distinct_map_filter\<close>)
qed

section \<open>Calls made by callbacks\<close>

definition fd_part :: "epoll_server \<Rightarrow> (fd \<times> cb_and_event_mask) list \<times> fd option \<times> fd option \<times> int" where
  "fd_part s = (cb_map s, ready_list s, tmp_list s, ready_list_size s)"

lemma alarm_part_simps [simp]:
  "alarm_part (observe x s) = alarm_part s"
  "alarm_part (s\<lparr>cb_map := m\<rparr>) = alarm_part s"
  "alarm_part (s\<lparr>ready_list := h\<rparr>) = alarm_part s"
  "alarm_part (s\<lparr>tmp_list := h\<rparr>) = alarm_part s"
  "alarm_part (s\<lparr>ready_list_size := n\<rparr>) = alarm_part s"
  "alarm_part (s\<lparr>pipe_bytes := b\<rparr>) = alarm_part s"
  by (simp_all add: alarm_part_def)

text \<open>The calls on descriptors write the nodes, the lists and the trace only; they keep every part of
  the server that does not depend on these.\<close>

locale fd_frame =
  fixes part :: "epoll_server \<Rightarrow> 'p"
  assumes part_observe: "part (observe x s) = part s"
    and part_map: "part (s\<lparr>cb_map := m\<rparr>) = part s"
    and part_lists: "part (s\<lparr>ready_list := h\<rparr>) = part s" "part (s\<lparr>tmp_list := h\<rparr>) = part s"
    and part_size: "part (s\<lparr>ready_list_size := n\<rparr>) = part s"
begin

abbreviation keeps :: "epoll_server \<Rightarrow> epoll_server res \<Rightarrow> bool" where
  "keeps s \<equiv> res_inv (\<lambda>s'. part s' = part s)"

lemmas part_simps = part_observe part_map part_lists part_size

lemma keeps_bindr: "keeps s m \<Longrightarrow> (\<And>s'. part s' = part s \<Longrightarrow> keeps s (f s')) \<Longrightarrow> keeps s (bindr m f)"
  by (cases m) auto

lemma keeps_deref: "(\<And>e. keeps s (k e)) \<Longrightarrow> keeps s (bindr (deref f s0) k)"
  by (cases "deref f s0") auto

lemma keeps_check: "keeps s k \<Longrightarrow> keeps s (guard e P k)" "keeps s k \<Longrightarrow> keeps s (dcheck env P k)"
  by (simp_all add: guard_def dcheck_def)

lemma keeps_node:
  "part s0 = part s \<Longrightarrow> keeps s (modify_node f g s0)"
  "part s0 = part s \<Longrightarrow> keeps s (assign_through p v s0)"
  by (auto simp: modify_node_def assign_through_def deref_def part_simps split: option.splits le_ptr.splits)

lemmas keeps_intros = keeps_bindr keeps_deref keeps_check keeps_node

lemma keeps_list:
  "part s0 = part s \<Longrightarrow> keeps s (LIST_INSERT_HEAD_ready f s0)"
  "part s0 = part s \<Longrightarrow> keeps s (LIST_REMOVE f s0)"
  unfolding LIST_INSERT_HEAD_ready_def LIST_REMOVE_def
  by (auto simp: part_simps split: option.splits intro!: keeps_intros)

lemma keeps_ready:
  "part s0 = part s \<Longrightarrow> keeps s (AddToReadyList f s0)"
  "part s0 = part s \<Longrightarrow> keeps s (RemoveFromReadyList env f s0)"
  unfolding AddToReadyList_def RemoveFromReadyList_def Let_def
  by (auto intro!: keeps_intros keeps_list simp: mapr_bindr part_simps)

lemma keeps_sys:
  "part s0 = part s \<Longrightarrow> keeps s (epoll_ctl env c s0)"
  "part s0 = part s \<Longrightarrow> keeps s (SetNonblocking env f s0)"
  by (simp_all add: epoll_ctl_def SetNonblocking_def Let_def guard_def part_simps)

lemma keeps_ops:
  "keeps s (RegisterFD env f copt em s)" "keeps s (UnregisterFD env f s)"
  "keeps s (ModifyFD env f r a s)" "keeps s (SetFDReady f em s)"
  "keeps s (SetFDNotReady env f s)" "keeps s (HandleEvent f em s)"
  unfolding RegisterFD_def UnregisterFD_def ModifyFD_def SetFDReady_def SetFDNotReady_def
    HandleEvent_def Let_def ModFD_def AddFD_def DelFD_def mapr_bindr
  by (auto simp: part_simps split: option.splits intro!: keeps_intros keeps_ready keeps_sys)

end

interpretation alarm_frame: fd_frame alarm_part
  by unfold_locales simp_all

interpretation pipe_frame: fd_frame pipe_bytes
  by unfold_locales (simp_all add: observe_def)

abbreviation keeps_alarms :: "epoll_server \<Rightarrow> epoll_server res \<Rightarrow> bool" where
  "keeps_alarms s \<equiv> res_inv (\<lambda>s'. alarm_part s' = alarm_part s)"

lemma keeps_alarms_wake: "keeps_alarms s (Wake env s)"
  by (simp add: Wake_def Let_def dcheck_def guard_def)

lemmas keeps_alarms_ready = alarm_frame.keeps_ready

lemmas keeps_alarms_ops = alarm_frame.keeps_ops keeps_alarms_wake

end
