(* ===== verification/Epoll_Callbacks.thy ===== *)
theory Epoll_Callbacks
  imports Epoll_Alarms "HOL-Library.Sublist"
begin

text \<open>
  What the calls a callback makes do to the server of \<open>raner/epoll_server.cc\<close>, whatever they are.

  \<open>server_inv U K s\<close> is the invariant of the whole server. The locale \<open>ops_contract\<close> carries a
  property of the registrations and of the trace through any sequence of calls, once its laws
  hold of the abstract operations of \<open>Epoll_Spec\<close>, and through the bookkeeping before and after
  \<open>OnEvent\<close>.
\<close>

section \<open>The invariant of the server\<close>

definition server_inv :: "fd set \<Rightarrow> token set \<Rightarrow> epoll_server \<Rightarrow> bool" where
  "server_inv U K s \<longleftrightarrow> ready_inv s (ready_seq s) (tmp_seq s) U \<and> alarm_inv K s"

lemma server_inv_rep: "server_inv U K s \<longleftrightarrow> rep U s (abs_server s) \<and> alarm_inv K s"
  by (simp add: server_inv_def rep_abs_server)

lemma rep_server_inv: "rep U s a \<Longrightarrow> alarm_inv K s \<Longrightarrow> server_inv U K s"
  by (simp add: server_inv_rep rep_abs [of U s a])

lemma rep_seq: "rep U s a \<Longrightarrow> tmp_seq s = sp_tmp a \<and> ready_seq s = sp_ready a \<and> regs s = sp_regs a \<and> obs_trace s = sp_trace a"
  by (auto simp: rep_def ready_inv_seq)

text \<open>Faults a pass may end with: a failed system call or a second registration of an alarm
  (\<open>LOG(FATAL)\<close>), and in debug builds a short write to the wake pipe or an unexpected event on it.\<close>

definition pass_faults :: "fault set" where
  "pass_faults = {LogFatal, DCheckFailed}"

lemma ready_inv_fd_part: "fd_part s' = fd_part s \<Longrightarrow> ready_inv s' = ready_inv s"
  by (simp add: fd_part_def ready_inv_def fun_eq_iff)

lemma fd_part_seq: "fd_part s' = fd_part s \<Longrightarrow> ready_seq s' = ready_seq s \<and> tmp_seq s' = tmp_seq s \<and> regs s' = regs s"
  by (simp add: fd_part_def ready_seq_def tmp_seq_def regs_def fun_eq_iff)

lemma fd_part_simps [simp]:
  "fd_part (observe x s) = fd_part s"
  "fd_part (modify_alarm ac g s) = fd_part s"
  "fd_part (alarm_erase k s) = fd_part s"
  "fd_part (s\<lparr>alarm_map := m\<rparr>) = fd_part s"
  "fd_part (s\<lparr>all_alarms := al\<rparr>) = fd_part s"
  "fd_part (s\<lparr>next_token := n\<rparr>) = fd_part s"
  "fd_part (s\<lparr>skipped_alarms := al\<rparr>) = fd_part s"
  "fd_part (s\<lparr>pipe_bytes := b\<rparr>) = fd_part s"
  "fd_part (s\<lparr>recorded_now_in_us := t\<rparr>) = fd_part s"
  "fd_part (s\<lparr>in_wait := w\<rparr>) = fd_part s"
  by (simp_all add: fd_part_def)

text \<open>Observations that are neither about registrations nor calls of \<open>OnEvent\<close>.\<close>

fun quiet :: "obs \<Rightarrow> bool" where
  "quiet (SysWait ms) = True"
| "quiet (SysNow t) = True"
| "quiet (SysWrite r) = True"
| "quiet (CallAlarmOnRegistration ac k) = True"
| "quiet (CallAlarmOnUnregistration ac) = True"
| "quiet (CallAlarmOnAlarm ac) = True"
| "quiet (CallAlarmOnShutdown ac) = True"
| "quiet _ = False"

section \<open>Abstract steps\<close>

lemma subseq_remove1: "subseq (remove1 x xs) xs"
  by (induction xs) auto

lemma spec_op_only: "res_only {LogFatal} (\<lambda>a'. subseq (sp_tmp a') (sp_tmp a)) (spec_op env op a)"
  by (cases op) (auto simp: spec_register_def spec_unregister_def spec_modify_def spec_ctl_def
      spec_nonblocking_def spec_ready_def spec_push_def spec_drop_def Let_def guard_def subseq_remove1
      split: option.splits)

section \<open>The node of a running callback\<close>

text \<open>The end of a round of \<open>CallReadyListCallbacks\<close>, after \<open>OnEvent\<close> has returned with \<open>m\<close> as its
  \<open>out_ready_mask\<close>.\<close>

definition after_event :: "fd \<Rightarrow> mask \<Rightarrow> epoll_server \<Rightarrow> epoll_server res" where
  "after_event f m s =
     bindr (modify_node f (\<lambda>e. e\<lparr>e_in_use := False\<rparr>) s) (\<lambda>s4.
     bindr (deref f s4) (\<lambda>e4.
       if e_cb e4 = None then Inr (s4\<lparr>cb_map := AList.delete f (cb_map s4)\<rparr>)
       else if m \<noteq> 0
       then bindr (modify_node f (\<lambda>e. e\<lparr>e_events_to_fake := m\<rparr>) s4) (AddToReadyList f)
       else Inr s4))"

lemma rep_use:
  assumes rep: "rep U s a" and f: "node s f = Some e"
    and e': "le_prev e' = le_prev e" "le_next e' = le_next e" "e_cb e' = e_cb e"
      "e_event_mask e' = e_event_mask e" "e_cb e = None \<Longrightarrow> e_in_use e'"
  shows "rep (if e_in_use e' then insert f U else U - {f})
    (s\<lparr>cb_map := AList.update f e' (cb_map s)\<rparr>) a"
proof -
  let ?s = "s\<lparr>cb_map := AList.update f e' (cb_map s)\<rparr>"
  let ?U = "if e_in_use e' then insert f U else U - {f}"
  have inv: "ready_inv s (sp_ready a) (sp_tmp a) U" using rep by (simp add: rep_def)
  have seg: "lseg ((node s)(f \<mapsto> e')) p h xs q t = lseg (node s) p h xs q t" for p h xs q t
    by (rule lseg_upd_data [where e = e]) (use f e' in auto)
  have node: "node_ok (sp_ready a) (sp_tmp a) ?U z ez" if "((node s)(f \<mapsto> e')) z = Some ez" for z ez
    using that ready_inv_node [OF inv, of z ez] ready_inv_node [OF inv f] e'
    by (auto simp: node_ok_def split: if_splits)
  have "U \<subseteq> dom (node s)" using inv unfolding ready_inv_alt by simp
  then have U: "?U \<subseteq> insert f (dom (node s))" by auto
  have "ready_inv ?s (sp_ready a) (sp_tmp a) ?U"
    using inv seg node U unfolding ready_inv_alt by simp
  moreover have "regs ?s = regs s"
    using f e' by (auto simp: regs_update regs_def fun_eq_iff)
  ultimately show ?thesis using rep by (simp add: rep_def)
qed

lemma delete_update_same: "AList.delete f (AList.update f e m) = AList.delete f m"
  by (induction m) auto

lemma rep_erase:
  assumes rep: "rep U s a" and f: "node s f = Some e" "e_cb e = None"
  shows "rep (U - {f}) (s\<lparr>cb_map := AList.delete f (cb_map s)\<rparr>) a"
proof -
  have inv: "ready_inv s (sp_ready a) (sp_tmp a) U" using rep by (simp add: rep_def)
  have "f \<notin> set (sp_ready a) \<union> set (sp_tmp a)"
    using ready_inv_linked [OF inv, of f] f by auto
  moreover have "(regs s)(f := None) = regs s"
    using f by (auto simp: regs_def fun_eq_iff)
  ultimately show ?thesis
    using rep ready_inv_delete [OF inv] by (simp add: rep_def regs_delete)
qed

text \<open>\<open>std::swap\<close> of the two heads and the repair of the first back pointer.\<close>

lemma ready_inv_swap:
  assumes inv: "ready_inv s R [] U" and f: "ready_list s = Some f"
  shows "\<exists>s2. modify_node f (\<lambda>e. e\<lparr>le_prev := PTmp\<rparr>) (s\<lparr>ready_list := None, tmp_list := Some f\<rparr>) = Inr s2 \<and>
    ready_inv s2 [] R U \<and> same_data s s2"
proof -
  let ?s1 = "s\<lparr>ready_list := None, tmp_list := Some f\<rparr>"
  obtain R' where R: "R = f # R'"
    using ready_inv_heads(1) [OF inv] f by (cases R) auto
  obtain e where e: "node s f = Some e"
    using ready_inv_linked [OF inv, of f] R by auto
  obtain s2 where s2: "modify_node f (\<lambda>e. e\<lparr>le_prev := PTmp\<rparr>) ?s1 = Inr s2" "same_data ?s1 s2"
    "node s2 = (node s)(f \<mapsto> e\<lparr>le_prev := PTmp\<rparr>)" "ready_list s2 = None" "tmp_list s2 = Some f"
    "ready_list_size s2 = ready_list_size s"
    using modify_link [of ?s1 f e "\<lambda>e. e\<lparr>le_prev := PTmp\<rparr>"] e by auto
  have seg: "lseg (node s) PReady (Some f) R (end_ptr PReady R) None" "distinct R"
    using inv f unfolding ready_inv_def by simp_all
  have "lseg (node s2) PTmp (Some f) R (end_ptr PTmp R) None"
    unfolding s2(3) using lseg_move_head [OF seg, of PTmp] R e by (simp add: fun_upd_def)
  moreover have "node_ok [] R U z ez" if "node s2 z = Some ez" for z ez
    using that ready_inv_node [OF inv, of z ez] ready_inv_node [OF inv e] R
    by (auto simp: s2(3) node_ok_def split: if_splits)
  moreover have "map fst (cb_map s2) = map fst (cb_map s)" "dom (node s2) = dom (node s)"
    using s2(2) same_data_keys same_data_dom by (metis same_data_heads(4,5))+
  ultimately have "ready_inv s2 [] R U"
    using inv s2(4-6) unfolding ready_inv_alt by simp
  then show ?thesis using s2(1,2) by auto
qed

section \<open>Carrying a property through calls\<close>

locale ops_contract =
  fixes env :: env and J :: "(fd \<rightharpoonup> cb \<times> mask) \<Rightarrow> obs list \<Rightarrow> bool"
  assumes spec_law: "J (sp_regs a) (sp_trace a) \<Longrightarrow>
      res_inv (\<lambda>a'. J (sp_regs a') (sp_trace a')) (spec_op env op a)"
    and quiet_law: "J r tr \<Longrightarrow> quiet x \<Longrightarrow> J r (x # tr)"
begin

text \<open>What holds of the server while a callback runs: \<open>T\<close> is \<open>tmp_list_\<close> when it was called.\<close>

definition good :: "fd set \<Rightarrow> token set \<Rightarrow> fd list \<Rightarrow> epoll_server \<Rightarrow> bool" where
  "good U K T s \<longleftrightarrow> server_inv U K s \<and> J (regs s) (obs_trace s) \<and> subseq (tmp_seq s) T"

lemma good_rep:
  "rep U s a \<Longrightarrow> alarm_inv K s \<Longrightarrow> J (sp_regs a) (sp_trace a) \<Longrightarrow> subseq (sp_tmp a) T \<Longrightarrow> good U K T s"
  by (simp add: good_def rep_server_inv rep_seq [of U s a])

lemma good_fd_op:
  assumes s: "good U K T s" and op: "fd_op op"
    and al: "keeps_alarms s (exec_op env op s)"
  shows "res_only pass_faults (good U K T) (exec_op env op s)"
proof -
  let ?a = "abs_server s"
  have a: "J (sp_regs ?a) (sp_trace ?a)" "subseq (sp_tmp ?a) T" "rep U s ?a" "alarm_inv K s"
    using s by (auto simp: good_def server_inv_rep abs_server_def)
  have sim: "sim U (exec_op env op s) (spec_op env op ?a)"
    by (rule exec_op_sim [OF op a(3)])
  show ?thesis
  proof (cases "spec_op env op ?a")
    case (Inl e)
    then show ?thesis
      using sim spec_op_only [of ?a env op] by (simp add: pass_faults_def)
  next
    case (Inr a')
    then obtain s' where s': "exec_op env op s = Inr s'" "rep U s' a'"
      using sim by (cases "exec_op env op s") auto
    have "J (sp_regs a') (sp_trace a')"
      using spec_law [OF a(1), of op] Inr by simp
    moreover have "subseq (sp_tmp a') (sp_tmp ?a)"
      using spec_op_only [of ?a env op] Inr by simp
    then have "subseq (sp_tmp a') T"
      using a(2) by (rule subseq_order.trans)
    moreover have "alarm_inv K s'"
      using al s'(1) a(4) alarm_inv_part [of s' s K] by simp
    ultimately show ?thesis using s' good_rep by simp
  qed
qed

lemma good_quiet:
  assumes "good U K T s" "fd_part s' = fd_part s" "alarm_inv K' s'"
    "obs_trace s' = obs_trace s \<or> (\<exists>x. quiet x \<and> obs_trace s' = x # obs_trace s)"
  shows "good U K' T s'"
  using assms quiet_law
  by (auto simp: good_def server_inv_def fd_part_seq [OF assms(2)] ready_inv_fd_part [OF assms(2)])

lemma good_RegisterAlarm:
  assumes "good U K T s"
  shows "res_only pass_faults (good U K T) (RegisterAlarm env t (Some ac) s)"
proof -
  have inv: "alarm_inv K s" using assms by (simp add: good_def server_inv_def)
  show ?thesis
  proof (cases "ac \<in> all_alarms s")
    case False
    then show ?thesis
      using RegisterAlarm_inv [OF inv, of env t ac]
      by (auto simp: RegisterAlarm_eq [OF inv] intro!: good_quiet [OF assms])
  qed (simp add: RegisterAlarm_eq [OF inv] pass_faults_def)
qed

lemma good_UnregisterIfRegistered:
  assumes "good U K T s"
  shows "res_only pass_faults (good U K T) (UnregisterIfRegistered ac s)"
proof (cases "a_registered (alarm_objs s ac)")
  case True
  have inv: "alarm_inv K s" using assms by (simp add: good_def server_inv_def)
  from alarm_inv_registered [OF inv True] obtain k where k: "a_token (alarm_objs s ac) = Some k" by blast
  show ?thesis
    using UnregisterIfRegistered_inv [OF inv, of ac]
    by (auto simp: UnregisterIfRegistered_eq [OF inv True k] EpollAlarm_OnUnregistration_def
        intro!: good_quiet [OF assms])
qed (use assms in \<open>simp add: UnregisterIfRegistered_def\<close>)

lemma good_Wake:
  assumes "good U K T s"
  shows "res_only pass_faults (good U K T) (Wake env s)"
proof -
  have "alarm_inv K s" using assms by (simp add: good_def server_inv_def)
  then have "good U K T (observe (SysWrite r) s)"
    "good U K T ((observe (SysWrite r) s)\<lparr>pipe_bytes := b\<rparr>)" for r b
    using alarm_inv_part [of "observe (SysWrite r) s" s K]
      alarm_inv_part [of "(observe (SysWrite r) s)\<lparr>pipe_bytes := b\<rparr>" s K]
    by (auto intro!: good_quiet [OF assms])
  then show ?thesis
    by (simp add: Wake_def Let_def dcheck_def guard_def pass_faults_def)
qed

lemma good_exec_op:
  assumes "good U K T s"
  shows "res_only pass_faults (good U K T) (exec_op env op s)"
proof (cases "fd_op op")
  case True
  moreover from this have "keeps_alarms s (exec_op env op s)"
    by (cases op) (simp_all add: keeps_alarms_ops ModifyCallback_def StopRead_def StartRead_def
        StopWrite_def StartWrite_def)
  ultimately show ?thesis using good_fd_op assms by blast
next
  case False
  then show ?thesis
    by (cases op) (simp_all add: good_RegisterAlarm good_UnregisterIfRegistered good_Wake assms)
qed

lemma good_run_ops: "good U K T s \<Longrightarrow> res_only pass_faults (good U K T) (run_ops env ops s)"
  unfolding run_ops_def by (rule fold_res_only) (auto intro: good_exec_op)

lemma good_abs:
  assumes "good U K T s"
  shows "rep U s (abs_server s)" "alarm_inv K s" "J (sp_regs (abs_server s)) (sp_trace (abs_server s))"
    "subseq (sp_tmp (abs_server s)) T"
  using assms by (auto simp: good_def server_inv_rep abs_server_def)

text \<open>After \<open>OnEvent\<close>: the node is erased if it was unregistered, else perhaps queued again.\<close>

lemma good_finish:
  assumes s: "good {f} K T s"
  shows "res_only pass_faults (good {} K T)
    (after_event f m s)"
proof -
  let ?a = "abs_server s"
  note a = good_abs [OF s]
  obtain e where e: "node s f = Some e"
    using a(1) by (auto simp: rep_def ready_inv_alt)
  let ?e4 = "e\<lparr>e_in_use := False\<rparr>"
  let ?s4 = "s\<lparr>cb_map := AList.update f ?e4 (cb_map s)\<rparr>"
  have al: "alarm_inv K s'" if "alarm_part s' = alarm_part s" for s'
    using alarm_inv_part [OF that] a(2) by simp
  show ?thesis
  proof (cases "e_cb e")
    case None
    have "rep {} (s\<lparr>cb_map := AList.delete f (cb_map s)\<rparr>) ?a"
      using rep_erase [OF a(1) e None] by simp
    then have "good {} K T (s\<lparr>cb_map := AList.delete f (cb_map s)\<rparr>)"
      by (rule good_rep) (use a al in simp_all)
    then show ?thesis
      using e None by (simp add: after_event_def modify_node_eq deref_def delete_update_same)
  next
    case (Some c)
    have s4: "rep {} ?s4 ?a"
      using rep_use [OF a(1) e, of ?e4] Some by simp
    let ?s5 = "?s4\<lparr>cb_map := AList.update f (?e4\<lparr>e_events_to_fake := m\<rparr>) (cb_map ?s4)\<rparr>"
    have s5: "rep {} ?s5 ?a"
      by (rule rep_update_events [OF s4, of f ?e4]) (use Some in simp_all)
    obtain s6 where s6: "AddToReadyList f ?s5 = Inr s6" "rep {} s6 (spec_push f ?a)"
      using AddToReadyList_sim [OF s5, of f "?e4\<lparr>e_events_to_fake := m\<rparr>"] Some by auto
    have "good {} K T ?s4"
      using s4 by (rule good_rep) (use a al in simp_all)
    moreover have "alarm_part s6 = alarm_part s"
      using keeps_alarms_ready(1) [of ?s5 s f] s6(1) by simp
    then have "good {} K T s6"
      by (intro good_rep [OF s6(2)]) (use a al in \<open>simp_all add: spec_push_def\<close>)
    ultimately show ?thesis
      using e Some s6(1) by (simp add: after_event_def modify_node_eq deref_def)
  qed
qed

text \<open>Before \<open>OnEvent\<close>: the node leaves \<open>tmp_list_\<close> and is marked as in use.\<close>

lemma good_begin:
  assumes s: "good {} K (f # T) s" and f: "tmp_seq s = f # T'"
  shows "\<exists>s1 e1 c. RemoveFromReadyList env f s = Inr s1 \<and> node s1 f = Some e1 \<and> e_cb e1 = Some c \<and>
    \<not> e_in_use e1 \<and> (\<exists>s2 em. modify_node f
      (\<lambda>e. e\<lparr>e_events_asserted := 0, e_events_to_fake := 0, e_in_use := True\<rparr>) s1 = Inr s2 \<and>
      good {f} K T s2 \<and> regs s2 f = Some (c, em))"
proof -
  let ?a = "abs_server s"
  note a = good_abs [OF s]
  have inv: "ready_inv s (sp_ready ?a) (sp_tmp ?a) {}" and tmp: "sp_tmp ?a = f # T'"
    using a(1) f by (simp_all add: rep_def abs_server_def)
  obtain e c where e: "node s f = Some e" "e_cb e = Some c"
    using ready_inv_linked [OF inv, of f] tmp by auto
  obtain s1 e1 where s1: "RemoveFromReadyList env f s = Inr s1" "rep {} s1 (spec_drop f ?a)"
    "node s1 f = Some e1" "strip_links e1 = strip_links e" "same_data s s1"
    using RemoveFromReadyList_sim [OF a(1) e(1), of env] by blast
  have e1: "e_cb e1 = Some c" "\<not> e_in_use e1"
    using strip_links_eq [OF s1(4)] e(2) ready_inv_node [OF inv e(1)] by (simp_all add: node_ok_def)
  let ?e2 = "e1\<lparr>e_events_asserted := 0, e_events_to_fake := 0, e_in_use := True\<rparr>"
  let ?s2 = "s1\<lparr>cb_map := AList.update f ?e2 (cb_map s1)\<rparr>"
  have s2: "rep {f} ?s2 (spec_drop f ?a)"
    using rep_use [OF s1(2,3), of ?e2] by simp
  have "alarm_part s1 = alarm_part s"
    using same_data_fields [OF s1(5)] by (simp add: alarm_part_def)
  then have "alarm_inv K ?s2"
    using alarm_inv_part [of ?s2 s K] a(2) by simp
  moreover have "subseq (sp_tmp (spec_drop f ?a)) T"
    using a(4) tmp by (simp add: spec_drop_def)
  ultimately have "good {f} K T ?s2"
    by (intro good_rep [OF s2]) (use a(3) in simp_all)
  then show ?thesis
    using s1(1,3) e1 by (auto simp: modify_node_eq regs_def)
qed

text \<open>One round: it is enough to know what \<open>OnEvent\<close> does.\<close>

lemma good_round:
  assumes s: "good {} K (f # T) s" and f: "tmp_seq s = f # T'"
    and ev: "\<And>s2 c em m. good {f} K T s2 \<Longrightarrow> regs s2 f = Some (c, em) \<Longrightarrow>
      res_only pass_faults (\<lambda>(s3, m). Q s3) (OnEvent env c f m s2)"
    and fin: "\<And>s3 m. Q s3 \<Longrightarrow> res_only pass_faults Q' (after_event f m s3)"
  shows "res_only pass_faults Q' (CallReadyCallback env f s)"
proof -
  obtain s1 e1 c s2 em where s1: "RemoveFromReadyList env f s = Inr s1" "node s1 f = Some e1"
    "e_cb e1 = Some c" "\<not> e_in_use e1"
    and s2: "modify_node f (\<lambda>e. e\<lparr>e_events_asserted := 0, e_events_to_fake := 0, e_in_use := True\<rparr>) s1 = Inr s2"
      "good {f} K T s2" "regs s2 f = Some (c, em)"
    using good_begin [OF s f] by blast
  have "ready_list_size s > 0"
    using s f by (simp add: good_def server_inv_def ready_inv_def)
  moreover have "res_only pass_faults Q'
    (bindr (OnEvent env c f m s2) (\<lambda>(s3, out_mask). after_event f out_mask s3))" for m
    using ev [OF s2(2,3)] by (rule res_only_bindr) (auto intro: fin)
  ultimately show ?thesis
    using s1 s2(1) by (simp add: CallReadyCallback_def after_event_def dcheck_def deref_def [of f s1])
qed

lemma good_tmp:
  assumes s: "good {} K T s"
  shows "tmp_list s = None \<Longrightarrow> good {} K [] s"
    "tmp_list s = Some f \<Longrightarrow> \<exists>T'. tmp_seq s = f # T' \<and> good {} K (f # T') s \<and> length T' < length T"
proof -
  have inv: "ready_inv s (ready_seq s) (tmp_seq s) {}" and sub: "subseq (tmp_seq s) T"
    using s by (simp_all add: good_def server_inv_def)
  note hd = ready_inv_heads(2) [OF inv]
  show "tmp_list s = None \<Longrightarrow> good {} K [] s"
    using s hd by (auto simp: good_def split: list.splits)
  show "\<exists>T'. tmp_seq s = f # T' \<and> good {} K (f # T') s \<and> length T' < length T" if "tmp_list s = Some f"
    using that s hd list_emb_length [OF sub] by (cases "tmp_seq s") (auto simp: good_def)
qed

lemma good_tmp_None: "good {} K [] s \<Longrightarrow> tmp_list s = None"
  using good_tmp(2) [of K "[]" s] by (cases "tmp_list s") auto

text \<open>\<open>CallReadyListCallbacks\<close>: it is enough to know what its loop does.\<close>

lemma good_ready_list:
  assumes s: "good {} K [] s" and f: "ready_list s = Some f"
    and loop: "\<And>s2. good {} K (ready_seq s) s2 \<Longrightarrow> length (ready_seq s) \<le> nat (ready_list_size s) \<Longrightarrow>
      res_only pass_faults Q (ready_loop (nat (ready_list_size s)) env s2)"
    and fin: "\<And>s'. Q s' \<Longrightarrow> tmp_list s' = None"
  shows "res_only pass_faults Q (CallReadyListCallbacks env s)"
proof -
  let ?a = "abs_server s"
  note a = good_abs [OF s]
  have tmp: "sp_tmp ?a = []" using a(4) by simp
  have ready: "sp_ready ?a = ready_seq s" by (simp add: abs_server_def)
  have inv: "ready_inv s (ready_seq s) [] {}" using a(1) tmp ready by (simp add: rep_def)
  obtain s2 where s2: "modify_node f (\<lambda>e. e\<lparr>le_prev := PTmp\<rparr>) (s\<lparr>ready_list := None, tmp_list := Some f\<rparr>) = Inr s2"
    "ready_inv s2 [] (ready_seq s) {}" "same_data s s2"
    using ready_inv_swap [OF inv f] by blast
  have rep2: "rep {} s2 (?a\<lparr>sp_ready := [], sp_tmp := ready_seq s\<rparr>)"
    using a(1) s2 same_data_regs [OF s2(3)] same_data_fields(1) [OF s2(3)] by (simp add: rep_def)
  have "alarm_inv K s2"
    using alarm_inv_part [of s2 s K] same_data_fields [OF s2(3)] a(2) by (simp add: alarm_part_def)
  then have "good {} K (ready_seq s) s2"
    using a(3) by (intro good_rep [OF rep2]) simp_all
  moreover have "length (ready_seq s) \<le> nat (ready_list_size s)"
    using inv by (simp add: ready_inv_def)
  ultimately have run: "res_only pass_faults Q (ready_loop (nat (ready_list_size s)) env s2)"
    by (rule loop)
  show ?thesis
    using s2(1) f good_tmp_None [OF s] run
    by (auto simp: CallReadyListCallbacks_def dcheck_def guard_def fin intro!: res_only_bindr [OF run])
qed

end

end
