(* ===== verification/Epoll_Pass.thy ===== *)
theory Epoll_Pass
  imports Epoll_Callbacks
begin

text \<open>
  One pass of the server, \<open>WaitForEventsAndExecuteCallbacks\<close> with everything it calls in
  \<open>raner/epoll_server.cc\<close>, for callbacks that make arbitrary calls back into the server. The
  locale \<open>server_contract\<close> adds to \<open>ops_contract\<close> the law for a call of \<open>OnEvent\<close>, and carries the
  property through the whole pass.
\<close>

section \<open>Loops\<close>

text \<open>\<open>epoll_wait\<close> returns at most \<open>maxevents\<close> events.\<close>

definition wait_bounded :: "env \<Rightarrow> bool" where
  "wait_bounded env \<longleftrightarrow> (\<forall>tr n ms evs. sys_wait env tr n ms = Inr evs \<longrightarrow> length evs \<le> n)"

text \<open>The iterator of the alarm loop points to an element or past the end.\<close>

definition valid_iterator :: "token option \<Rightarrow> epoll_server \<Rightarrow> bool" where
  "valid_iterator i s \<longleftrightarrow> (case i of None \<Rightarrow> True | Some k \<Rightarrow> k \<in> token_of ` set (alarm_map s))"

lemma tokens_eq: "tokens s = map token_of (alarm_map s)"
  by (simp add: tokens_def token_of_def comp_def)

lemma alarm_find_split:
  assumes "alarm_map s = m1 @ (t, k, ac) # m2" "distinct (map token_of (alarm_map s))"
  shows "alarm_find k s = Inr (t, ac)"
  using find_token [OF assms(2), of t k ac] assms(1) by (simp add: alarm_find_def)

lemma alarm_succ_split:
  assumes "alarm_map s = m1 @ x # m2" "distinct (map token_of (alarm_map s))"
  shows "alarm_succ (token_of x) s = (case m2 of [] \<Rightarrow> None | y # _ \<Rightarrow> Some (token_of y))"
proof -
  have "token_of x \<notin> set (map token_of m1)" using assms by simp
  then have "\<forall>k' \<in> set (map token_of m1). k' \<noteq> token_of x" by blast
  then have "dropWhile (\<lambda>k'. k' \<noteq> token_of x) (tokens s) = token_of x # map token_of m2"
    using assms(1) by (simp add: tokens_eq del: set_map)
  then show ?thesis
    by (simp add: alarm_succ_def split: list.split)
qed

lemma alarm_split:
  assumes "k \<in> token_of ` set (alarm_map s)"
  obtains m1 t ac m2 where "alarm_map s = m1 @ (t, k, ac) # m2"
  using assms by (force dest: split_list)

lemma valid_iterator_first: "valid_iterator (alarm_first s) s"
  by (auto simp: valid_iterator_def alarm_first_def tokens_eq split: list.splits option.splits)

lemma valid_iterator_succ:
  assumes "k \<in> token_of ` set (alarm_map s)" "distinct (map token_of (alarm_map s))"
  shows "valid_iterator (alarm_succ k s) s" "valid_iterator (alarm_succ k s) (alarm_erase k s)"
proof -
  obtain m1 t ac m2 where m: "alarm_map s = m1 @ (t, k, ac) # m2"
    using assms(1) by (rule alarm_split)
  note succ = alarm_succ_split [OF m assms(2)]
  show "valid_iterator (alarm_succ k s) s" "valid_iterator (alarm_succ k s) (alarm_erase k s)"
    using succ m assms(2)
    by (auto simp: valid_iterator_def alarm_map_erase split: list.splits option.splits)
qed

text \<open>The loop of \<open>CallAndReregisterAlarmEvents\<close> from the return of \<open>OnAlarm\<close>.\<close>

definition alarm_rest :: "nat \<Rightarrow> env \<Rightarrow> int \<Rightarrow> token \<Rightarrow> alarm \<Rightarrow> epoll_server \<times> int \<Rightarrow> epoll_server res" where
  "alarm_rest n env now k ac r =
     bindr (alarm_find k (fst r)) (\<lambda>_.
       if snd r > 0
       then bindr (RegisterAlarm env (snd r) (Some ac)
              (if snd r \<le> now
               then (alarm_erase k (fst r))\<lparr>skipped_alarms := insert ac (skipped_alarms (alarm_erase k (fst r)))\<rparr>
               else alarm_erase k (fst r)))
            (alarm_loop n env now (alarm_succ k (fst r)))
       else alarm_loop n env now (alarm_succ k (fst r)) (alarm_erase k (fst r)))"

lemma alarm_loop_None [simp]: "alarm_loop n env now None s = Inr s"
  by (simp add: alarm_loop.simps)

lemma alarm_loop_0 [simp]: "alarm_loop 0 env now (Some k) s = Inl OutOfFuel"
  by (simp add: alarm_loop.simps)

lemma alarm_loop_Suc:
  assumes "alarm_find k s = Inr (t, ac)"
  shows "alarm_loop (Suc n) env now (Some k) s =
    (if t > now then Inr s
     else if ac \<in> skipped_alarms s then alarm_loop n env now (alarm_succ k s) s
     else bindr (OnAlarm env ac (s\<lparr>all_alarms := all_alarms s - {ac}\<rparr>)) (alarm_rest n env now k ac))"
proof -
  have "alarm_rest n env now k ac = (\<lambda>(s1, new_t). bindr (alarm_find k s1) (\<lambda>_.
      let i' = alarm_succ k s1; s2 = alarm_erase k s1
      in if new_t > 0
         then bindr (RegisterAlarm env new_t (Some ac)
                (if new_t \<le> now then s2\<lparr>skipped_alarms := insert ac (skipped_alarms s2)\<rparr> else s2))
              (alarm_loop n env now i')
         else alarm_loop n env now i' s2))"
    by (simp add: fun_eq_iff alarm_rest_def Let_def)
  then show ?thesis
    using assms by (subst alarm_loop.simps) simp
qed

section \<open>Carrying a property through a pass\<close>

text \<open>Faults a pass may end with. \<open>OutOfFuel\<close> is an alarm loop cut off after \<open>n\<close> rounds.\<close>

definition all_faults :: "fault set" where
  "all_faults = {LogFatal, DCheckFailed, OutOfFuel, SignedOverflow}"

locale server_contract = ops_contract +
  assumes event_law: "J r tr \<Longrightarrow> r f = Some (c, em) \<Longrightarrow> J r (CallOnEvent c f m # tr)"
begin

lemma good_OnEvent:
  assumes s: "good U K T s" and f: "regs s f = Some (c, em)"
  shows "res_only pass_faults (\<lambda>(s', m). good U K T s') (OnEvent env c f ev s)"
proof -
  let ?s = "observe (CallOnEvent c f ev) s"
  have "alarm_inv K ?s" using s alarm_inv_part [of ?s s K] by (simp add: good_def server_inv_def)
  moreover have "fd_part ?s = fd_part s" by simp
  ultimately have s1: "good U K T ?s"
    using s event_law [of "regs s" "obs_trace s" f c em ev] f fd_part_seq [of ?s s]
    by (simp add: good_def server_inv_def)
  let ?s2 = "?s\<lparr>pipe_bytes := drain_pipe (pipe_bytes ?s)\<rparr>"
  have "good U K T ?s2"
    using s1 alarm_inv_part [of ?s2 ?s K] by (intro good_quiet [OF s1]) (auto simp: good_def server_inv_def)
  then show ?thesis
    using good_run_ops [OF s1]
    by (auto simp: OnEvent_def Let_def ReadPipeCallback_OnEvent_def dcheck_def guard_def
        pass_faults_def split: prod.splits)
qed

lemma good_CallReadyCallback:
  assumes "good {} K (f # T) s" "tmp_seq s = f # T'"
  shows "res_only pass_faults (good {} K T) (CallReadyCallback env f s)"
  using assms by (rule good_round [where Q = "good {f} K T"]) (erule (1) good_OnEvent, erule good_finish)

lemma good_ready_loop:
  "good {} K T s \<Longrightarrow> length T \<le> n \<Longrightarrow> res_only pass_faults (good {} K []) (ready_loop n env s)"
proof (induction n arbitrary: s T)
  case 0
  then show ?case
    using good_tmp [OF 0(1)] by (cases "tmp_list s") (auto simp: ready_loop.simps)
next
  case (Suc n)
  show ?case
  proof (cases "tmp_list s")
    case None
    then show ?thesis using good_tmp(1) [OF Suc(2)] by (simp add: ready_loop.simps)
  next
    case (Some f)
    from good_tmp(2) [OF Suc(2) Some] obtain T' where
      T': "tmp_seq s = f # T'" "good {} K (f # T') s" "length T' < length T" by blast
    have "res_only pass_faults (good {} K []) (bindr (CallReadyCallback env f s) (ready_loop n env))"
      by (rule res_only_bindr [OF good_CallReadyCallback [OF T'(2,1)]])
        (use Suc T'(3) in auto)
    then show ?thesis using Some by (subst ready_loop.simps) simp
  qed
qed

lemma good_CallReadyListCallbacks:
  assumes "good {} K [] s" "ready_list s = Some f"
  shows "res_only pass_faults (good {} K []) (CallReadyListCallbacks env s)"
  using assms by (rule good_ready_list) (auto intro: good_ready_loop good_tmp_None)

lemma good_HandleEvent:
  assumes s: "good {} K [] s"
  shows "res_only pass_faults (good {} K []) (HandleEvent f em s)"
proof -
  note a = good_abs [OF s]
  obtain s' where s': "HandleEvent f em s = Inr s'" "rep {} s' (spec_ready f (abs_server s))"
    using HandleEvent_sim [OF a(1), of f em] by (cases "HandleEvent f em s") auto
  have "alarm_inv K s'"
    using keeps_alarms_ops(6) [of s f em] s'(1) alarm_inv_part [of s' s K] a(2) by simp
  then have "good {} K [] s'"
    by (intro good_rep [OF s'(2)]) (use a(3,4) in \<open>simp_all add: spec_ready_def spec_push_def\<close>)
  then show ?thesis using s'(1) by simp
qed

lemma good_WaitForEvents:
  assumes s: "good {} K [] s" and os: "wait_bounded env"
  shows "res_only pass_faults (good {} K []) (WaitForEventsAndCallHandleEvents env t s)"
proof -
  let ?ms = "wait_timeout_ms t (ready_list s = None)"
  let ?s1 = "observe (SysWait ?ms) s"
  obtain now s2 where now: "NowInUsec env ?s1 = (now, s2)" by fastforce
  let ?s3 = "s2\<lparr>recorded_now_in_us := now\<rparr>"
  have al: "alarm_inv K s" using s by (simp add: good_def server_inv_def)
  have s1: "good {} K [] ?s1"
    using alarm_inv_part [of ?s1 s K] al by (intro good_quiet [OF s]) auto
  have "s2 = observe (SysNow now) ?s1" using now by (auto simp: NowInUsec_def Let_def)
  then have s3: "good {} K [] ?s3"
    using alarm_inv_part [of s2 s K] al by (intro good_quiet [OF s1]) auto
  have "res_only pass_faults (good {} K [])
    (case sys_wait env (obs_trace s) events_size ?ms of
       Inr events \<Rightarrow> guard InvalidAccess (length events \<le> events_size)
         (fold_res (\<lambda>(em, f). HandleEvent f em) events ?s3)
     | Inl errno \<Rightarrow> guard LogFatal (errno = EINTR \<or> errno = 0) (Inr ?s3))"
    using os s3
    by (auto simp: wait_bounded_def guard_def pass_faults_def split: sum.splits
        intro!: fold_res_only good_HandleEvent [unfolded pass_faults_def])
  then show ?thesis
    unfolding WaitForEventsAndCallHandleEvents_def Let_def now prod.case
    by (rule res_only_bindr) (auto intro: good_CallReadyListCallbacks)
qed

lemma good_OnAlarm:
  assumes s: "good {} {} [] s" and k: "(t, k, ac) \<in> set (alarm_map s)"
  shows "res_only pass_faults (\<lambda>(s', t). good {} {k} [] s') (OnAlarm env ac (s\<lparr>all_alarms := all_alarms s - {ac}\<rparr>))"
proof -
  let ?s1 = "EpollAlarm_OnAlarm ac (s\<lparr>all_alarms := all_alarms s - {ac}\<rparr>)"
  have "alarm_inv {k} ?s1"
    using s k by (auto simp: good_def server_inv_def intro: alarm_inv_fire)
  then have "good {} {k} [] ?s1"
    by (intro good_quiet [OF s]) (simp_all add: EpollAlarm_OnAlarm_def)
  then show ?thesis
    using good_run_ops by (simp add: OnAlarm_def Let_def split: prod.splits)
qed

lemma good_erase: "good {} {k} [] s \<Longrightarrow> good {} {} [] (alarm_erase k s)"
  by (rule good_quiet) (auto simp: good_def server_inv_def intro: alarm_inv_fired)

lemma good_skipped: "good U K T (s\<lparr>skipped_alarms := al\<rparr>) = good U K T s"
proof -
  have "alarm_inv K (s\<lparr>skipped_alarms := al\<rparr>) = alarm_inv K s"
    by (simp add: alarm_inv_def live_def)
  moreover have "fd_part (s\<lparr>skipped_alarms := al\<rparr>) = fd_part s" by simp
  ultimately show ?thesis
    using fd_part_seq [of "s\<lparr>skipped_alarms := al\<rparr>" s] ready_inv_fd_part [of "s\<lparr>skipped_alarms := al\<rparr>" s]
    by (simp add: good_def server_inv_def)
qed

lemma valid_iterator_RegisterAlarm:
  assumes "alarm_inv K s" "valid_iterator i s"
  shows "res_inv (valid_iterator i) (RegisterAlarm env t (Some ac) s)"
  using assms(2) unfolding RegisterAlarm_eq [OF assms(1)]
  by (auto simp: valid_iterator_def split: option.splits)

lemma good_alarm_rest:
  assumes s: "good {} {k} [] s"
    and IH: "\<And>i s. good {} {} [] s \<Longrightarrow> valid_iterator i s \<Longrightarrow>
      res_only (insert OutOfFuel pass_faults) (good {} {} []) (alarm_loop n env now i s)"
  shows "res_only (insert OutOfFuel pass_faults) (good {} {} []) (alarm_rest n env now k ac (s, t))"
proof -
  have inv: "alarm_inv {k} s" using s by (simp add: good_def server_inv_def)
  have k: "k \<in> token_of ` set (alarm_map s)" using alarm_invD(8) [OF inv] by simp
  note dist = alarm_invD(2) [OF inv]
  obtain m1 t' ac' m2 where m: "alarm_map s = m1 @ (t', k, ac') # m2" using k by (rule alarm_split)
  note find = alarm_find_split [OF m dist]
  let ?s2 = "\<lambda>al. (alarm_erase k s)\<lparr>skipped_alarms := al\<rparr>"
  have good2: "good {} {} [] (alarm_erase k s)" "good {} {} [] (?s2 al)" for al
    using good_erase [OF s] good_skipped by simp_all
  have val: "valid_iterator (alarm_succ k s) (alarm_erase k s)" "valid_iterator (alarm_succ k s) (?s2 al)" for al
    using valid_iterator_succ(2) [OF k dist] by (simp_all add: valid_iterator_def split: option.splits)
  have reg: "res_only (insert OutOfFuel pass_faults) (good {} {} [])
    (bindr (RegisterAlarm env t (Some ac) s2) (alarm_loop n env now i))"
    if "good {} {} [] s2" "valid_iterator i s2" for s2 i
  proof -
    have "alarm_inv {} s2" using that(1) by (simp add: good_def server_inv_def)
    from res_only_conj_inv [OF good_RegisterAlarm [OF that(1)] valid_iterator_RegisterAlarm [OF this that(2)]]
    show ?thesis
      by (rule res_only_bindr [OF res_only_mono]) (auto intro: IH)
  qed
  show ?thesis
    using IH [OF good2(1) val(1)] reg [OF good2(1) val(1)] reg [OF good2(2) val(2)]
    by (simp add: alarm_rest_def find)
qed

lemma good_alarm_loop:
  "good {} {} [] s \<Longrightarrow> valid_iterator i s \<Longrightarrow>
   res_only (insert OutOfFuel pass_faults) (good {} {} []) (alarm_loop n env now i s)"
proof (induction n arbitrary: i s)
  case 0
  then show ?case by (cases i) simp_all
next
  case (Suc n)
  show ?case
  proof (cases i)
    case None
    then show ?thesis using Suc by simp
  next
    case (Some k)
    have dist: "distinct (map token_of (alarm_map s'))" if "good {} K [] s'" for s' K
      using that alarm_invD(2) by (auto simp: good_def server_inv_def)
    have k: "k \<in> token_of ` set (alarm_map s)"
      using Suc(3) Some by (simp add: valid_iterator_def)
    then obtain m1 t ac m2 where m: "alarm_map s = m1 @ (t, k, ac) # m2" by (rule alarm_split)
    have find: "alarm_find k s = Inr (t, ac)" using m dist [OF Suc(2)] by (rule alarm_find_split)
    have km: "(t, k, ac) \<in> set (alarm_map s)" using m by simp
    have skip: "res_only (insert OutOfFuel pass_faults) (good {} {} []) (alarm_loop n env now (alarm_succ k s) s)"
      by (rule Suc(1) [OF Suc(2) valid_iterator_succ(1) [OF k dist [OF Suc(2)]]])
    have fire: "res_only (insert OutOfFuel pass_faults) (good {} {} [])
      (bindr (OnAlarm env ac (s\<lparr>all_alarms := all_alarms s - {ac}\<rparr>)) (alarm_rest n env now k ac))"
      by (rule res_only_bindr [OF res_only_mono [OF good_OnAlarm [OF Suc(2) km]]])
        (auto intro: good_alarm_rest Suc(1))
    show ?thesis
      using skip fire Suc(2) by (simp add: Some alarm_loop_Suc [OF find])
  qed
qed

lemma good_recorded: "good U K T (s\<lparr>recorded_now_in_us := t\<rparr>) = good U K T s"
  and good_in_wait: "good U K T (s\<lparr>in_wait := w\<rparr>) = good U K T s"
  using fd_part_seq [of "s\<lparr>recorded_now_in_us := t\<rparr>" s] fd_part_seq [of "s\<lparr>in_wait := w\<rparr>" s]
    ready_inv_fd_part [of "s\<lparr>recorded_now_in_us := t\<rparr>" s] ready_inv_fd_part [of "s\<lparr>in_wait := w\<rparr>" s]
  by (simp_all add: good_def server_inv_def alarm_inv_def live_def)

lemma good_CallAndReregisterAlarmEvents:
  assumes "good {} {} [] s"
  shows "res_only (insert OutOfFuel pass_faults) (good {} {} []) (CallAndReregisterAlarmEvents n env s)"
proof -
  have "res_only (insert OutOfFuel pass_faults) (good {} {} [])
    (bindr (alarm_loop n env (recorded_now_in_us s) (alarm_first s) s) (\<lambda>s1. Inr (s1\<lparr>skipped_alarms := {}\<rparr>)))"
    using good_alarm_loop [OF assms valid_iterator_first] by (rule res_only_bindr) (simp add: good_skipped)
  then show ?thesis
    by (simp add: CallAndReregisterAlarmEvents_def dcheck_def guard_def pass_faults_def)
qed

lemma good_pass:
  assumes s: "good {} {} [] s" and os: "wait_bounded env"
  shows "res_only all_faults (good {} {} []) (WaitForEventsAndExecuteCallbacks n env s)"
proof (cases "in_wait s")
  case True
  then show ?thesis
    using s by (simp add: WaitForEventsAndExecuteCallbacks_def all_faults_def)
next
  case False
  have sub: "pass_faults \<subseteq> all_faults" "insert OutOfFuel pass_faults \<subseteq> all_faults"
    by (auto simp: pass_faults_def all_faults_def)
  let ?s0 = "s\<lparr>in_wait := True\<rparr>"
  have s0: "good {} {} [] ?s0" using s by (simp add: good_in_wait)
  have wait: "res_only all_faults (good {} {} []) (WaitForEventsAndCallHandleEvents env t s')"
    if "good {} {} [] s'" for s' t
    using res_only_mono [OF good_WaitForEvents [OF that os] sub(1)] by blast
  have al: "res_only all_faults (good {} {} []) (CallAndReregisterAlarmEvents n env s')"
    if "good {} {} [] s'" for s'
    using res_only_mono [OF good_CallAndReregisterAlarmEvents [OF that] sub(2)] by blast
  have now: "good {} {} [] (snd (NowInUsec env ?s0))"
    using alarm_inv_part [of "snd (NowInUsec env ?s0)" ?s0 "{}"] s0
    by (intro good_quiet [OF s0]) (auto simp: NowInUsec_def Let_def good_def server_inv_def)
  have full: "res_only all_faults (good {} {} [])
    (bindr (WaitForEventsAndCallHandleEvents env t s') (\<lambda>s2.
     bindr (CallAndReregisterAlarmEvents n env s2) (\<lambda>s3. Inr (s3\<lparr>recorded_now_in_us := 0\<rparr>))))"
    if "good {} {} [] s'" for s' t
    by (rule res_only_bindr [OF wait [OF that]], rule res_only_bindr [OF al]) (simp_all add: good_recorded)
  have short: "res_only all_faults (good {} {} [])
    (bindr (WaitForEventsAndCallHandleEvents env t ?s0) (\<lambda>s1. Inr (s1\<lparr>recorded_now_in_us := 0\<rparr>)))" for t
    by (rule res_only_bindr [OF wait [OF s0]]) (simp add: good_recorded)
  show ?thesis
    using short full [OF now] False
    by (auto simp: WaitForEventsAndExecuteCallbacks_def Let_def good_in_wait guard_def all_faults_def
        split: list.splits prod.splits)
qed

end

end
