(* ===== verification/Epoll_Correct.thy ===== *)
theory Epoll_Correct
  imports Epoll_Pass
begin

unbundle bit_operations_syntax

text \<open>
  Correctness of \<open>EpollServer\<close> in every state it can reach: the constructor, then calls of its
  interface and passes of \<open>WaitForEventsAndExecuteCallbacks\<close> in any order, with callbacks that
  call back into it. The contracts of \<open>Epoll_Callbacks\<close> and \<open>Epoll_Pass\<close> are interpreted here.
\<close>

section \<open>Reachable states\<close>

datatype server_step = Call server_op | SetTimeout int | Pass nat

fun run_step :: "env \<Rightarrow> server_step \<Rightarrow> epoll_server \<Rightarrow> epoll_server res" where
  "run_step env (Call op) s = exec_op env op s"
| "run_step env (SetTimeout t) s = Inr (set_timeout_in_us t s)"
| "run_step env (Pass n) s = WaitForEventsAndExecuteCallbacks n env s"

inductive reachable :: "env \<Rightarrow> epoll_server \<Rightarrow> bool" for env where
  construct: "EpollServer env epfd fds (\<lambda>_. EpollAlarm) [] = Inr s \<Longrightarrow> reachable env s"
| step: "reachable env s \<Longrightarrow> run_step env st s = Inr s' \<Longrightarrow> reachable env s'"

section \<open>The invariant in reachable states\<close>

lemma rep_new_server:
  "rep {} ((new_server epfd objs tr)\<lparr>read_fd := r, write_fd := w\<rparr>)
     \<lparr>sp_regs = Map.empty, sp_ready = [], sp_tmp = [], sp_trace = tr\<rparr>"
  by (simp add: rep_def ready_inv_def new_server_def regs_def fun_eq_iff)

lemma alarm_inv_new_server:
  "alarm_inv {} ((new_server epfd (\<lambda>_. EpollAlarm) tr)\<lparr>read_fd := r, write_fd := w\<rparr>)"
  by (simp add: alarm_inv_def new_server_def live_def EpollAlarm_def)

lemma EpollServer_eq:
  assumes "EpollServer env epfd fds objs tr = Inr s"
  obtains r w where "exec_op env (OpRegisterFD r wake_cb EPOLLIN)
    ((new_server epfd objs tr)\<lparr>read_fd := r, write_fd := w\<rparr>) = Inr s"
  using assms that by (auto simp: EpollServer_def guard_def split: if_splits option.splits)

context server_contract
begin

lemma reachable_good:
  assumes start: "J Map.empty []" and os: "wait_bounded env" and s: "reachable env s"
  shows "good {} {} [] s"
  using s
proof (induction rule: reachable.induct)
  case (construct epfd fds s)
  then obtain r w where op: "exec_op env (OpRegisterFD r wake_cb EPOLLIN)
    ((new_server epfd (\<lambda>_. EpollAlarm) [])\<lparr>read_fd := r, write_fd := w\<rparr>) = Inr s"
    by (rule EpollServer_eq)
  have "good {} {} [] ((new_server epfd (\<lambda>_. EpollAlarm) [])\<lparr>read_fd := r, write_fd := w\<rparr>)"
    by (rule good_rep [OF rep_new_server alarm_inv_new_server]) (simp_all add: start)
  from good_exec_op [OF this, of "OpRegisterFD r wake_cb EPOLLIN"] op show ?case by simp
next
  case (step s st s')
  have "good {} {} [] (set_timeout_in_us t s)" for t
    using step.IH fd_part_seq [of "set_timeout_in_us t s" s] ready_inv_fd_part [of "set_timeout_in_us t s" s]
    by (simp add: good_def server_inv_def alarm_inv_def live_def set_timeout_in_us_def fd_part_def)
  moreover have "good {} {} [] s'" if "st = Call op" for op
    using good_exec_op [OF step.IH, of op] step.hyps that by simp
  moreover have "good {} {} [] s'" if "st = Pass n" for n
    using good_pass [OF step.IH os, of n] step.hyps that by simp
  ultimately show ?case
    using step.hyps by (cases st) auto
qed

end

section \<open>What the trace says\<close>

text \<open>The callback each descriptor is registered with, from the calls of \<open>OnRegistration\<close> and
  \<open>OnUnregistration\<close> (the trace has the newest call first).\<close>

fun registered :: "obs list \<Rightarrow> fd \<rightharpoonup> cb" where
  "registered [] = Map.empty"
| "registered (CallOnRegistration c f em # tr) = (registered tr)(f \<mapsto> c)"
| "registered (CallOnUnregistration c f replaced # tr) = (registered tr)(f := None)"
| "registered (x # tr) = registered tr"

text \<open>Every call of a callback happens between its \<open>OnRegistration\<close> and its \<open>OnUnregistration\<close>.\<close>

fun calls_ok :: "obs list \<Rightarrow> bool" where
  "calls_ok [] \<longleftrightarrow> True"
| "calls_ok (CallOnRegistration c f em # tr) \<longleftrightarrow> registered tr f = None \<and> calls_ok tr"
| "calls_ok (CallOnUnregistration c f replaced # tr) \<longleftrightarrow> registered tr f = Some c \<and> calls_ok tr"
| "calls_ok (CallOnModification c f em # tr) \<longleftrightarrow> registered tr f = Some c \<and> calls_ok tr"
| "calls_ok (CallOnEvent c f em # tr) \<longleftrightarrow> registered tr f = Some c \<and> calls_ok tr"
| "calls_ok (x # tr) \<longleftrightarrow> calls_ok tr"

text \<open>The interest list of the kernel, from the \<open>epoll_ctl\<close> calls that returned zero.\<close>

fun interest :: "obs list \<Rightarrow> fd \<rightharpoonup> mask" where
  "interest [] = Map.empty"
| "interest (SysCtl c r # tr) =
     (if r = 0
      then (case c of
              CtlAdd f m \<Rightarrow> (interest tr)(f \<mapsto> m)
            | CtlMod f m \<Rightarrow> (interest tr)(f \<mapsto> m)
            | CtlDel f \<Rightarrow> (interest tr)(f := None))
      else interest tr)"
| "interest (x # tr) = interest tr"

definition calls_law :: "(fd \<rightharpoonup> cb \<times> mask) \<Rightarrow> obs list \<Rightarrow> bool" where
  "calls_law r tr \<longleftrightarrow> calls_ok tr \<and> registered tr = map_option fst \<circ> r"

definition interest_law :: "(fd \<rightharpoonup> cb \<times> mask) \<Rightarrow> obs list \<Rightarrow> bool" where
  "interest_law r tr \<longleftrightarrow> interest tr = map_option (kernel_mask \<circ> snd) \<circ> r"

lemma quiet_trace:
  assumes "quiet x"
  shows "registered (x # tr) = registered tr" "calls_ok (x # tr) = calls_ok tr"
    "interest (x # tr) = interest tr"
  using assms by (cases x; simp)+

lemmas spec_defs = spec_register_def spec_unregister_def spec_modify_def spec_ctl_def
  spec_nonblocking_def spec_ready_def spec_push_def spec_drop_def

lemma calls_law_spec:
  "calls_law (sp_regs a) (sp_trace a) \<Longrightarrow>
   res_inv (\<lambda>a'. calls_law (sp_regs a') (sp_trace a')) (spec_op env op a)"
  by (cases op) (auto simp: calls_law_def spec_defs Let_def guard_def fun_eq_iff split: option.splits)

lemma interest_law_spec:
  "interest_law (sp_regs a) (sp_trace a) \<Longrightarrow>
   res_inv (\<lambda>a'. interest_law (sp_regs a') (sp_trace a')) (spec_op env op a)"
  by (cases op) (auto simp: interest_law_def spec_defs Let_def guard_def fun_eq_iff split: option.splits)

interpretation safety: server_contract env "\<lambda>_ _. True" for env
proof unfold_locales
  show "res_inv (\<lambda>a'. True) (spec_op env op a)" for env op a
    by (cases "spec_op env op a") simp_all
qed simp_all

interpretation calls: server_contract env calls_law for env
proof unfold_locales
  show "calls_law r (CallOnEvent c f m # tr)" if "calls_law r tr" "r f = Some (c, em)" for r tr f c em m
    using that by (simp add: calls_law_def)
  show "calls_law r (x # tr)" if "calls_law r tr" "quiet x" for r tr x
    using that by (simp add: calls_law_def quiet_trace)
qed (rule calls_law_spec)

interpretation kernel: server_contract env interest_law for env
proof unfold_locales
  show "interest_law r (CallOnEvent c f m # tr)" if "interest_law r tr" "r f = Some (c, em)" for r tr f c em m
    using that by (simp add: interest_law_def)
  show "interest_law r (x # tr)" if "interest_law r tr" "quiet x" for r tr x
    using that by (simp add: interest_law_def quiet_trace)
qed (rule interest_law_spec)

section \<open>A concrete run\<close>

text \<open>A system for concrete runs: every system call succeeds, the time is the number of observations,
  the first \<open>epoll_wait\<close> reports descriptor 7 readable; callback 1 unregisters the descriptor it is
  called for.\<close>

definition demo_env :: env where
  "demo_env =
     \<lparr>ndebug = False, sys_ctl = \<lambda>_ _. 0, sys_getfl = \<lambda>_ _. 0, sys_setfl = \<lambda>_ _ _. 0,
      sys_wait = \<lambda>tr n _. Inr (take n (if length tr < 9 then [(EPOLLIN, 7)] else [])),
      sys_now = \<lambda>tr. int (length tr), sys_write = \<lambda>_. 1,
      on_event = \<lambda>c f m s. ([OpUnregisterFD f], 0), on_alarm = \<lambda>ac s. ([], 0)\<rparr>"

definition demo_run :: "epoll_server res" where
  "demo_run =
     bindr (EpollServer demo_env 3 (Some (4, 5)) (\<lambda>_. EpollAlarm) [])
       (fold_res (run_step demo_env) [Call (OpRegisterFD 7 1 EPOLLIN), Pass 0])"

lemma reachable_run:
  "reachable env s \<Longrightarrow> fold_res (run_step env) sts s = Inr s' \<Longrightarrow> reachable env s'"
  by (induction sts arbitrary: s) (auto simp: bindr_eq_Inr intro: reachable.step)

lemma demo_bounded: "wait_bounded demo_env"
  by (auto simp: wait_bounded_def demo_env_def)

lemma demo_trace:
  "mapr (\<lambda>s. (obs_trace s, map fst (cb_map s), IsFDReady 4 s)) demo_run = Inr
     ([CallOnUnregistration 1 7 False, SysCtl (CtlDel 7) 0, CallOnEvent 1 7 EPOLLIN, SysNow 9, SysWait 0,
       CallOnRegistration 1 7 EPOLLIN, SysSetFl 7 O_NONBLOCK 0, SysGetFl 7 0, SysCtl (CtlAdd 7 (kernel_mask EPOLLIN)) 0,
       CallOnRegistration 0 4 EPOLLIN, SysSetFl 4 O_NONBLOCK 0, SysGetFl 4 0, SysCtl (CtlAdd 4 (kernel_mask EPOLLIN)) 0],
      [4], False)"
  by code_simp

lemma demo_reachable: "\<exists>s. demo_run = Inr s \<and> reachable demo_env s \<and> map fst (cb_map s) = [4]"
proof -
  obtain s where s: "demo_run = Inr s" "map fst (cb_map s) = [4]"
    using demo_trace by (auto simp: mapr_eq_Inr)
  then obtain s0 where "EpollServer demo_env 3 (Some (4, 5)) (\<lambda>_. EpollAlarm) [] = Inr s0"
    "fold_res (run_step demo_env) [Call (OpRegisterFD 7 1 EPOLLIN), Pass 0] s0 = Inr s"
    unfolding demo_run_def bindr_eq_Inr by (elim exE conjE)
  then have "reachable demo_env s" by (intro reachable_run [OF reachable.construct])
  then show ?thesis using s by (intro exI conjI)
qed

section \<open>Correctness\<close>

lemma reachable_inv:
  assumes "wait_bounded env" "reachable env s"
  shows "server_inv {} {} s \<and> tmp_seq s = []"
  using safety.reachable_good [OF _ assms] by (auto simp: safety.good_def dest: list_emb_Nil2)



text \<open>C10: A callback is only ever called between its \<open>OnRegistration\<close> and its \<open>OnUnregistration\<close> for that
  descriptor: in every reachable state the trace of calls respects this, for \<open>OnEvent\<close>,
  \<open>OnModification\<close> and \<open>OnUnregistration\<close> alike, no descriptor has two registrations at a time, and
  the registrations the callbacks have been told about are those of the server's map. After
  \<open>UnregisterFD\<close> returns, even inside \<open>OnEvent\<close>, the callback is not called again.\<close>

theorem callbacks_when_registered:
  assumes "wait_bounded env" "reachable env s"
  shows "calls_ok (obs_trace s) \<and> registered (obs_trace s) f = map_option fst (regs s f)"
proof -
  have "calls_law Map.empty []" by (simp add: calls_law_def)
  from calls.reachable_good [OF this assms] show ?thesis
    by (simp add: calls.good_def calls_law_def)
qed

theorem callbacks_when_registered_witness:
  "\<exists>s. demo_run = Inr s \<and> calls_ok (obs_trace s) \<and> registered (obs_trace s) 7 = map_option fst (regs s 7)"
  using demo_reachable callbacks_when_registered [OF demo_bounded] by blast

text \<open>C11: the interest list of the kernel is in step with the server's map: a descriptor is in it
  exactly when it is registered, with the registered mask plus \<open>EPOLLERR\<close> and \<open>EPOLLHUP\<close>.\<close>

theorem kernel_in_step:
  assumes "wait_bounded env" "reachable env s"
  shows "interest (obs_trace s) f = map_option (\<lambda>(c, em). em OR EPOLLERR OR EPOLLHUP) (regs s f)"
proof -
  have "interest_law Map.empty []" by (simp add: interest_law_def)
  from kernel.reachable_good [OF this assms] show ?thesis
    by (cases "regs s f") (auto simp: kernel.good_def interest_law_def kernel_mask_def)
qed

theorem kernel_in_step_witness:
  "\<exists>s. demo_run = Inr s \<and>
    interest (obs_trace s) 4 = map_option (\<lambda>(c, em). em OR EPOLLERR OR EPOLLHUP) (regs s 4)"
  using demo_reachable kernel_in_step [OF demo_bounded] by blast

text \<open>The documented behaviour of \<open>epoll_ctl\<close> and \<open>fcntl\<close> on the descriptors \<open>P\<close>, which stay open and
  can be polled: adding one that is absent and changing or removing one that is present succeed.\<close>

definition kernel_ok :: "env \<Rightarrow> (fd \<Rightarrow> bool) \<Rightarrow> bool" where
  "kernel_ok env P \<longleftrightarrow>
     (\<forall>tr f m. P f \<and> interest tr f = None \<longrightarrow> sys_ctl env tr (CtlAdd f m) = 0) \<and>
     (\<forall>tr f m. interest tr f \<noteq> None \<longrightarrow> sys_ctl env tr (CtlMod f m) = 0 \<and> sys_ctl env tr (CtlDel f) = 0) \<and>
     (\<forall>tr f m. P f \<longrightarrow> sys_getfl env tr f \<noteq> -1 \<and> sys_setfl env tr f m \<noteq> -1)"

fun op_registers :: "server_op \<Rightarrow> fd option" where
  "op_registers (OpRegisterFD f c em) = Some f"
| "op_registers _ = None"

lemma spec_op_no_fatal:
  assumes "interest_law (sp_regs a) (sp_trace a)" "kernel_ok env P" "\<And>f. op_registers op = Some f \<Longrightarrow> P f"
  shows "res_ok (\<lambda>_. True) (spec_op env op a)"
proof -
  have i: "interest (sp_trace a) f = map_option (kernel_mask \<circ> snd) (sp_regs a f)" for f
    using assms(1) by (simp add: interest_law_def)
  show ?thesis
    using assms(2,3) i
    by (cases op) (auto simp: kernel_ok_def spec_defs Let_def guard_def split: option.splits)
qed



section \<open>The ready list callbacks\<close>

text \<open>The descriptors whose \<open>OnEvent\<close> was called, newest first.\<close>

fun event_fds :: "obs list \<Rightarrow> fd list" where
  "event_fds [] = []"
| "event_fds (CallOnEvent c f m # tr) = f # event_fds tr"
| "event_fds (x # tr) = event_fds tr"

interpretation evs: ops_contract env "\<lambda>_ tr. event_fds tr = E" for env E
proof unfold_locales
  show "res_inv (\<lambda>a'. event_fds (sp_trace a') = E) (spec_op env op a)" if "event_fds (sp_trace a) = E" for a op env
    using that by (cases op) (auto simp: spec_defs Let_def guard_def split: option.splits)
  show "event_fds (x # tr) = E" if "event_fds tr = E" "quiet x" for tr x
    using that by (cases x) simp_all
qed

lemma evs_OnEvent:
  assumes s: "evs.good E U K T s"
  shows "res_only pass_faults (\<lambda>(s', m). evs.good (f # E) U K T s') (OnEvent env c f ev s)"
proof -
  let ?s = "observe (CallOnEvent c f ev) s"
  have "alarm_inv K ?s" using s alarm_inv_part [of ?s s K] by (simp add: evs.good_def server_inv_def)
  then have s1: "evs.good (f # E) U K T ?s"
    using s fd_part_seq [of ?s s] by (simp add: evs.good_def server_inv_def)
  let ?s2 = "?s\<lparr>pipe_bytes := drain_pipe (pipe_bytes ?s)\<rparr>"
  have "evs.good (f # E) U K T ?s2"
    using s1 alarm_inv_part [of ?s2 ?s K] by (intro evs.good_quiet [OF s1]) (auto simp: evs.good_def server_inv_def)
  then show ?thesis
    using evs.good_run_ops [OF s1]
    by (auto simp: OnEvent_def Let_def ReadPipeCallback_OnEvent_def dcheck_def guard_def
        pass_faults_def split: prod.splits)
qed

lemma evs_ready_loop:
  "evs.good E {} K T s \<Longrightarrow> length T \<le> n \<Longrightarrow>
   res_only pass_faults (\<lambda>s'. \<exists>ys. subseq ys T \<and> evs.good (rev ys @ E) {} K [] s') (ready_loop n env s)"
proof (induction n arbitrary: E T s)
  case 0
  then show ?case
    by (cases "tmp_list s") (auto simp: ready_loop.simps dest: evs.good_tmp_None)
next
  case (Suc n)
  show ?case
  proof (cases "tmp_list s")
    case None
    then have "evs.good (rev [] @ E) {} K [] s" using evs.good_tmp(1) [OF Suc(2)] by simp
    then show ?thesis using None by (auto simp: ready_loop.simps intro!: exI [of _ "[]"])
  next
    case (Some f)
    from evs.good_tmp(2) [OF Suc(2) Some] obtain T' where
      T': "tmp_seq s = f # T'" "evs.good E {} K (f # T') s" "length T' < length T" by blast
    have sub: "subseq (f # T') T" using Suc(2) T'(1) by (simp add: evs.good_def)
    have "res_only pass_faults (evs.good (f # E) {} K T') (CallReadyCallback env f s)"
      by (rule evs.good_round [OF T'(2,1), where Q = "evs.good (f # E) {f} K T'"])
        (erule evs_OnEvent, erule evs.good_finish)
    then have "res_only pass_faults (\<lambda>s'. \<exists>ys. subseq ys T \<and> evs.good (rev ys @ E) {} K [] s')
      (bindr (CallReadyCallback env f s) (ready_loop n env))"
    proof (rule res_only_bindr)
      fix s1
      assume "evs.good (f # E) {} K T' s1"
      moreover have "length T' \<le> n" using Suc(3) T'(3) by simp
      ultimately have "res_only pass_faults
        (\<lambda>s'. \<exists>ys. subseq ys T' \<and> evs.good (rev ys @ f # E) {} K [] s') (ready_loop n env s1)"
        by (rule Suc(1))
      then show "res_only pass_faults
        (\<lambda>s'. \<exists>ys. subseq ys T \<and> evs.good (rev ys @ E) {} K [] s') (ready_loop n env s1)"
      proof (rule res_only_mono)
        fix s'
        assume "\<exists>ys. subseq ys T' \<and> evs.good (rev ys @ f # E) {} K [] s'"
        then obtain ys where ys: "subseq ys T'" "evs.good (rev (f # ys) @ E) {} K [] s'" by auto
        have "subseq (f # ys) (f # T')" using ys(1) by simp
        then have "subseq (f # ys) T" using sub by (rule subseq_order.trans)
        then show "\<exists>ys. subseq ys T \<and> evs.good (rev ys @ E) {} K [] s'" using ys(2) by blast
      qed simp
    qed
    then show ?thesis using Some by (subst ready_loop.simps) simp
  qed
qed

lemma subseq_distinct: "subseq ys xs \<Longrightarrow> distinct xs \<Longrightarrow> distinct ys"
  by (metis subseq_conv_nths distinct_nthsI)


definition demo_queue :: "epoll_server res" where
  "demo_queue =
     bindr (EpollServer demo_env 3 (Some (4, 5)) (\<lambda>_. EpollAlarm) [])
       (fold_res (run_step demo_env)
         [Call (OpRegisterFD 7 1 EPOLLIN), Call (OpRegisterFD 8 1 EPOLLIN),
          Call (OpSetFDReady 7 EPOLLIN), Call (OpSetFDReady 8 EPOLLIN)])"

lemma demo_queue_reachable: "\<exists>s. demo_queue = Inr s \<and> reachable demo_env s \<and> ready_list s = Some 8"
proof -
  have "mapr ready_list demo_queue = Inr (Some 8)" by code_simp
  then obtain s where s: "demo_queue = Inr s" "ready_list s = Some 8" by (auto simp: mapr_eq_Inr)
  then have "reachable demo_env s"
    unfolding demo_queue_def bindr_eq_Inr by (elim exE conjE) (rule reachable_run [OF reachable.construct])
  then show ?thesis using s by (intro exI conjI)
qed


section \<open>Refinement\<close>



end
