(* ===== verification/Alarm_Loop.thy ===== *)
theory Alarm_Loop
  imports Epoll_Correct
begin

text \<open>
  The loop of \<open>CallAndReregisterAlarmEvents\<close> and the timeout of \<open>epoll_wait\<close>,
  \<open>raner/epoll_server.cc\<close>: when the loop ends, which alarms it calls and in which order, and the
  case in which it does not end.
\<close>

section \<open>The due alarms\<close>

definition due :: "int \<Rightarrow> int \<times> token \<times> alarm \<Rightarrow> bool" where
  "due now x \<longleftrightarrow> fst x \<le> now"

text \<open>What callbacks may do to the alarms: remove some, and add later ones with new nodes.\<close>

definition due_le :: "int \<Rightarrow> epoll_server \<Rightarrow> epoll_server \<Rightarrow> bool" where
  "due_le now s s' \<longleftrightarrow> skipped_alarms s' = skipped_alarms s \<and> recorded_now_in_us s' = recorded_now_in_us s \<and>
     subseq (filter (due now) (alarm_map s')) (filter (due now) (alarm_map s)) \<and>
     next_token s \<le> next_token s' \<and>
     (\<forall>x \<in> set (alarm_map s'). token_of x < next_token s \<longrightarrow> x \<in> set (alarm_map s))"

lemma due_le_refl [simp]: "due_le now s s"
  by (simp add: due_le_def)

lemma due_le_trans: "due_le now s s1 \<Longrightarrow> due_le now s1 s2 \<Longrightarrow> due_le now s s2"
  unfolding due_le_def by (intro conjI) (auto elim: subseq_order.trans)

lemma due_le_part: "alarm_part s' = alarm_part s \<Longrightarrow> due_le now s s'"
  by (simp add: due_le_def alarm_part_def)

fun registers_due :: "int \<Rightarrow> server_op \<Rightarrow> bool" where
  "registers_due now (OpRegisterAlarm t ac) \<longleftrightarrow> t \<le> now"
| "registers_due now _ \<longleftrightarrow> False"

lemma exec_op_due:
  assumes inv: "alarm_inv K s" and op: "\<not> registers_due now op"
  shows "res_inv (\<lambda>s'. due_le now s s' \<and> alarm_inv K s') (exec_op env op s)"
proof (cases "fd_op op \<or> op = OpWake")
  case True
  then have "keeps_alarms s (exec_op env op s)"
    by (cases op) (simp_all add: keeps_alarms_ops ModifyCallback_def StopRead_def StartRead_def
        StopWrite_def StartWrite_def)
  then show ?thesis
    by (rule res_inv_mono) (use inv alarm_inv_part [of _ s K] due_le_part in blast)
next
  case False
  then consider (reg) t ac where "op = OpRegisterAlarm t ac" "t > now" | (unreg) ac where "op = OpUnregisterIfRegistered ac"
    using op by (cases op) auto
  then show ?thesis
  proof cases
    case reg
    have "filter (due now) (multimap_insert t k ac (alarm_map s)) = filter (due now) (alarm_map s)" for k
      using reg(2) filter_multimap_insert [OF alarm_invD(1) [OF inv], of "due now"] by (simp add: due_def)
    then show ?thesis
      using RegisterAlarm_inv [OF inv, of env t ac] reg(1) by (auto simp: RegisterAlarm_eq [OF inv] due_le_def)
  next
    case unreg
    show ?thesis
    proof (cases "a_registered (alarm_objs s ac)")
      case True
      then obtain k where k: "a_token (alarm_objs s ac) = Some k" using alarm_inv_registered [OF inv True] by blast
      have "subseq (filter (due now) (filter P (alarm_map s))) (filter (due now) (alarm_map s))" for P
        by (rule subseq_filter [OF subseq_filter_left])
      then show ?thesis
        using UnregisterIfRegistered_inv [OF inv, of ac] unreg
        by (simp add: UnregisterIfRegistered_eq [OF inv True k] due_le_def EpollAlarm_OnUnregistration_def alarm_map_erase
            del: filter_filter)
    qed (use unreg inv in \<open>simp add: UnregisterIfRegistered_def\<close>)
  qed
qed

lemma run_ops_due:
  assumes "alarm_inv K s" "list_all (\<lambda>op. \<not> registers_due now op) ops"
  shows "res_inv (\<lambda>s'. due_le now s s' \<and> alarm_inv K s') (run_ops env ops s)"
  unfolding run_ops_def
proof (rule fold_res_inv)
  fix op s1
  assume op: "op \<in> set ops" and s1: "due_le now s s1 \<and> alarm_inv K s1"
  then have "\<not> registers_due now op" using assms(2) by (simp add: list_all_iff)
  from exec_op_due [OF _ this, of K s1 env] s1 show "res_inv (\<lambda>s'. due_le now s s' \<and> alarm_inv K s') (exec_op env op s1)"
    by (auto elim!: res_inv_mono intro: due_le_trans)
qed (use assms in simp)

section \<open>Termination\<close>

text \<open>The elements from the iterator on.\<close>

definition rest_from :: "token option \<Rightarrow> epoll_server \<Rightarrow> (int \<times> token \<times> alarm) list" where
  "rest_from i s = (case i of None \<Rightarrow> [] | Some k \<Rightarrow> dropWhile (\<lambda>x. token_of x \<noteq> k) (alarm_map s))"

text \<open>A due alarm that may be called counts twice: once for its call and once for a visit of its
  renewed registration.\<close>

definition weight :: "alarm set \<Rightarrow> int \<times> token \<times> alarm \<Rightarrow> nat" where
  "weight skip x = (if alarm_of x \<in> skip then 1 else 2)"

definition rounds :: "int \<Rightarrow> alarm set \<Rightarrow> (int \<times> token \<times> alarm) list \<Rightarrow> nat" where
  "rounds now skip m = sum_list (map (weight skip) (filter (due now) m))"

lemma rounds_simps [simp]:
  "rounds now skip [] = 0"
  "rounds now skip (x # m) = (if due now x then weight skip x else 0) + rounds now skip m"
  "rounds now skip (m @ m') = rounds now skip m + rounds now skip m'"
  by (simp_all add: rounds_def)

lemma sum_list_subseq: "subseq xs ys \<Longrightarrow> sum_list (map g xs) \<le> (sum_list (map g ys) :: nat)"
  by (induction rule: list_emb.induct) auto

lemma rounds_subseq:
  "subseq (filter (due now) m) (filter (due now) m') \<Longrightarrow> rounds now skip m \<le> rounds now skip m'"
  unfolding rounds_def by (rule sum_list_subseq)

lemma rounds_insert_skip: "rounds now (insert ac skip) m \<le> rounds now skip m"
  by (induction m) (auto simp: weight_def)

lemma rounds_length: "rounds now skip m \<le> 2 * length m"
  by (induction m) (auto simp: weight_def)

lemma rounds_multimap_insert:
  "rounds now skip (multimap_insert t k ac m) =
     rounds now skip m + (if t \<le> now then weight skip (t, k, ac) else 0)"
  by (induction t k ac m rule: multimap_insert.induct) (auto simp: due_def)

lemma rest_from_split:
  assumes "alarm_map s = m1 @ x # m2" "distinct (map token_of (alarm_map s))"
  shows "rest_from (Some (token_of x)) s = x # m2"
proof -
  have "token_of x \<notin> token_of ` set m1" using assms by auto
  then have "\<forall>y \<in> set m1. token_of y \<noteq> token_of x" by (metis imageI)
  then show ?thesis using assms(1) by (simp add: rest_from_def)
qed

lemma subseq_set: "subseq xs ys \<Longrightarrow> set xs \<subseteq> set ys"
  by (induction rule: list_emb.induct) auto

text \<open>The elements after one that both lists have.\<close>

lemma subseq_after:
  assumes "subseq (xs1 @ x # ys1) (xs @ x # ys)" "x \<notin> set xs" "x \<notin> set ys"
  shows "subseq ys1 ys"
  using assms
proof (induction xs arbitrary: xs1)
  case Nil
  then show ?case
    by (cases xs1) (auto dest!: subseq_set split: if_splits)
next
  case (Cons a xs)
  then show ?case
    using Cons.IH [of "[]"] Cons.IH [of "tl xs1"] Cons.IH [of xs1]
    by (cases xs1) (auto split: if_splits)
qed

lemma multimap_insert_append:
  "multimap_insert t k ac (a @ b) = multimap_insert t k ac a @ b \<or>
   multimap_insert t k ac (a @ b) = a @ multimap_insert t k ac b"
  by (induction t k ac a rule: multimap_insert.induct) auto

lemma rest_from_insert:
  assumes m: "alarm_map s' = multimap_insert t k ac (a @ b)"
    and d: "distinct (map token_of (multimap_insert t k ac (a @ b)))"
    and i: "i = (case b of [] \<Rightarrow> None | y # _ \<Rightarrow> Some (token_of y))"
  shows "rest_from i s' = b \<or> rest_from i s' = multimap_insert t k ac b"
proof (cases b)
  case Nil
  then show ?thesis using i by (simp add: rest_from_def)
next
  case (Cons y b')
  have d': "distinct (map token_of (alarm_map s'))" using d m by simp
  note split = rest_from_split [OF _ d', of _ y]
  show ?thesis
    using multimap_insert_append [of t k ac a b]
  proof
    assume "multimap_insert t k ac (a @ b) = multimap_insert t k ac a @ b"
    then show ?thesis using split [of "multimap_insert t k ac a" b'] m Cons i by simp
  next
    assume app: "multimap_insert t k ac (a @ b) = a @ multimap_insert t k ac b"
    show ?thesis
    proof (cases "fst y \<le> t")
      case True
      then have "multimap_insert t k ac b = y # multimap_insert t k ac b'" using Cons by (cases y) auto
      then show ?thesis using split [of a "multimap_insert t k ac b'"] m Cons i app by simp
    next
      case False
      then have "multimap_insert t k ac b = (t, k, ac) # y # b'" using Cons by (cases y) auto
      then show ?thesis using split [of "a @ [(t, k, ac)]" b'] m Cons i app by simp
    qed
  qed
qed

lemma filter_token_id: "k \<notin> token_of ` set m \<Longrightarrow> filter (\<lambda>x. token_of x \<noteq> k) m = m"
  by (induction m) auto

lemma rest_from_succ:
  assumes "alarm_map s = m1 @ x # m2" "distinct (map token_of (alarm_map s))"
  shows "rest_from (alarm_succ (token_of x) s) s = m2"
    "rest_from (alarm_succ (token_of x) s) (alarm_erase (token_of x) s) = m2"
proof -
  have "alarm_map s = (m1 @ [x]) @ y # m2'" if "m2 = y # m2'" for y m2' using assms(1) that by simp
  from rest_from_split [OF this assms(2)]
  show "rest_from (alarm_succ (token_of x) s) s = m2"
    unfolding alarm_succ_split [OF assms] by (cases m2) (auto simp: rest_from_def)
  have e: "alarm_map (alarm_erase (token_of x) s) = m1 @ m2"
    using assms by (simp add: alarm_map_erase filter_token_id)
  then have "distinct (map token_of (alarm_map (alarm_erase (token_of x) s)))" using assms by simp
  from rest_from_split [OF _ this] e
  show "rest_from (alarm_succ (token_of x) s) (alarm_erase (token_of x) s) = m2"
    unfolding alarm_succ_split [OF assms] by (cases m2) (auto simp: rest_from_def)
qed

text \<open>Callbacks of alarms that register no alarm for a time that has come.\<close>

definition tame :: "env \<Rightarrow> bool" where
  "tame env \<longleftrightarrow>
     (\<forall>ac s. list_all (\<lambda>op. \<not> registers_due (recorded_now_in_us s) op) (fst (on_alarm env ac s)))"

abbreviation "idle \<equiv> safety.good {} {} []"

lemma server_inv_idle:
  assumes "server_inv {} {} s" "tmp_list s = None"
  shows "idle s"
proof -
  have inv: "ready_inv s (ready_seq s) (tmp_seq s) {}" using assms(1) by (simp add: server_inv_def)
  have "tmp_seq s = []" using ready_inv_heads(2) [OF inv] assms(2) by (simp split: list.splits)
  then show ?thesis using assms(1) by (simp add: safety.good_def)
qed

lemma good_alarm_inv: "safety.good U K T s \<Longrightarrow> alarm_inv K s"
  by (simp add: safety.good_def server_inv_def)

lemma OnAlarm_due:
  assumes s: "idle s" and k: "(t, k, ac) \<in> set (alarm_map s)" and tame: "tame env"
    and now: "recorded_now_in_us s = now"
  shows "res_only pass_faults (\<lambda>(s1, t). safety.good {} {k} [] s1 \<and> due_le now s s1)
    (OnAlarm env ac (s\<lparr>all_alarms := all_alarms s - {ac}\<rparr>))"
proof -
  let ?s1 = "EpollAlarm_OnAlarm ac (s\<lparr>all_alarms := all_alarms s - {ac}\<rparr>)"
  have "alarm_inv {k} ?s1" using alarm_inv_fire [OF good_alarm_inv [OF s] k] .
  moreover have "list_all (\<lambda>op. \<not> registers_due now op) (fst (on_alarm env ac ?s1))"
    using tame [unfolded tame_def, rule_format, of ?s1 ac] now by (simp add: EpollAlarm_OnAlarm_def)
  ultimately have "res_inv (\<lambda>s'. due_le now ?s1 s' \<and> alarm_inv {k} s') (run_ops env (fst (on_alarm env ac ?s1)) ?s1)"
    by (rule run_ops_due)
  moreover have "due_le now ?s1 = due_le now s"
    by (simp add: due_le_def EpollAlarm_OnAlarm_def fun_eq_iff)
  ultimately have "res_inv (\<lambda>(s1, t). due_le now s s1) (OnAlarm env ac (s\<lparr>all_alarms := all_alarms s - {ac}\<rparr>))"
    by (auto simp: OnAlarm_def Let_def case_prod_unfold elim!: res_inv_mono)
  from res_only_conj_inv [OF safety.good_OnAlarm [OF s k] this] show ?thesis
    by (rule res_only_mono) auto
qed

text \<open>After \<open>OnAlarm\<close> of the alarm at \<open>k\<close>, at least its two rounds have been used up.\<close>

lemma due_le_rest:
  assumes s: "alarm_inv {} s" and m: "alarm_map s = m1 @ (t, k, ac) # m2" and t: "t \<le> now"
    and s1: "alarm_inv {k} s1" "due_le now s s1"
  obtains m1' m2' where "alarm_map s1 = m1' @ (t, k, ac) # m2'" "rounds now skip m2' \<le> rounds now skip m2"
proof -
  obtain m1' t' ac' m2' where m': "alarm_map s1 = m1' @ (t', k, ac') # m2'"
    using alarm_invD(8) [OF s1(1)] by (auto intro: alarm_split)
  have "k < next_token s" using alarm_invD(3) [OF s, of "(t, k, ac)"] m by simp
  then have old: "(t', k, ac') \<in> set (alarm_map s)" using s1(2) m' by (simp add: due_le_def)
  have "(t, k, ac) \<in> set (live {} s)" "(t', k, ac') \<in> set (live {} s)" using m old by (simp_all add: live_def)
  from live_remove(1) [OF s this] have same: "t' = t" "ac' = ac" by simp_all
  have "(t, k, ac) \<notin> set m1" "(t, k, ac) \<notin> set m2" using alarm_invD(2) [OF s] m by force+
  moreover have "subseq (filter (due now) m1' @ (t, k, ac) # filter (due now) m2')
    (filter (due now) m1 @ (t, k, ac) # filter (due now) m2)"
    using s1(2) m m' same t by (simp add: due_le_def due_def)
  ultimately have "subseq (filter (due now) m2') (filter (due now) m2)"
    by (auto elim!: subseq_after)
  then show ?thesis using that m' same rounds_subseq by blast
qed

lemma alarm_rest_fuel:
  assumes s1: "safety.good {} {k} [] s1" and m': "alarm_map s1 = m1' @ (t, k, ac) # m2'"
    and r: "rounds now (skipped_alarms s1) m2' + 1 < n" and now: "recorded_now_in_us s1 = now"
    and IH: "\<And>i s. idle s \<Longrightarrow> valid_iterator i s \<Longrightarrow> recorded_now_in_us s = now \<Longrightarrow>
      rounds now (skipped_alarms s) (rest_from i s) < n \<Longrightarrow> res_only pass_faults idle (alarm_loop n env now i s)"
  shows "res_only pass_faults idle (alarm_rest n env now k ac (s1, new_t))"
proof -
  note inv = good_alarm_inv [OF s1]
  note d = alarm_invD(2) [OF inv]
  note find = alarm_find_split [OF m' d]
  let ?i = "alarm_succ k s1"
  let ?s2 = "\<lambda>al. (alarm_erase k s1)\<lparr>skipped_alarms := al\<rparr>"
  have good2: "idle (alarm_erase k s1)" "idle (?s2 al)" for al
    using safety.good_erase [OF s1] safety.good_skipped by simp_all
  have val: "valid_iterator ?i (alarm_erase k s1)" "valid_iterator ?i (?s2 al)" for al
    using valid_iterator_succ(2) [of k s1] m' d by (auto simp: valid_iterator_def split: option.splits)
  have e: "alarm_map (alarm_erase k s1) = m1' @ m2'"
    using m' d by (simp add: alarm_map_erase filter_token_id)
  have i: "?i = (case m2' of [] \<Rightarrow> None | y # _ \<Rightarrow> Some (token_of y))"
    using alarm_succ_split [OF m' d] by simp
  have none: "res_only pass_faults idle (alarm_loop n env now ?i (alarm_erase k s1))"
    using IH [OF good2(1) val(1)] rest_from_succ(2) [OF m' d] r now by simp
  have reg: "res_only pass_faults idle (bindr (RegisterAlarm env new_t (Some ac) s2) (alarm_loop n env now ?i))"
    if s2: "s2 = alarm_erase k s1 \<and> new_t > now \<or> s2 = ?s2 (insert ac (skipped_alarms s1))" for s2
  proof -
    have g: "idle s2" "valid_iterator ?i s2" and m2: "alarm_map s2 = m1' @ m2'" "recorded_now_in_us s2 = now"
      using s2 good2 val e now by auto
    note inv2 = good_alarm_inv [OF g(1)]
    have "res_inv (\<lambda>s3. recorded_now_in_us s3 = now \<and> rounds now (skipped_alarms s3) (rest_from ?i s3) < n)
      (RegisterAlarm env new_t (Some ac) s2)"
    proof (cases "ac \<in> all_alarms s2")
      case False
      then obtain s3 where s3: "RegisterAlarm env new_t (Some ac) s2 = Inr s3" "skipped_alarms s3 = skipped_alarms s2"
        "alarm_map s3 = multimap_insert new_t (next_token s2) ac (m1' @ m2')" "alarm_inv {} s3"
        "recorded_now_in_us s3 = now"
        using RegisterAlarm_inv [OF inv2, of env new_t ac] m2 by (auto simp: RegisterAlarm_eq [OF inv2])
      have "rest_from ?i s3 = m2' \<or> rest_from ?i s3 = multimap_insert new_t (next_token s2) ac m2'"
        using rest_from_insert [OF s3(3) _ i] alarm_invD(2) [OF s3(4)] s3(3) by simp
      moreover have "rounds now (skipped_alarms s2) m2' \<le> rounds now (skipped_alarms s1) m2'"
        using s2 rounds_insert_skip by auto
      moreover have "new_t \<le> now \<Longrightarrow> weight (skipped_alarms s2) (new_t, next_token s2, ac) = 1"
        using s2 by (auto simp: weight_def)
      ultimately show ?thesis using r s3(1,2,5) by (auto simp: rounds_multimap_insert)
    qed (simp add: RegisterAlarm_eq [OF inv2])
    from res_only_conj_inv [OF safety.good_RegisterAlarm [OF g(1)]
        res_inv_conj [OF safety.valid_iterator_RegisterAlarm [OF inv2 g(2)] this]]
    show ?thesis by (rule res_only_bindr) (elim conjE, rule IH)
  qed
  show ?thesis
    using none reg by (auto simp: alarm_rest_def find)
qed

lemma alarm_loop_fuel:
  assumes tame: "tame env"
  shows "idle s \<Longrightarrow> valid_iterator i s \<Longrightarrow> recorded_now_in_us s = now \<Longrightarrow> rounds now (skipped_alarms s) (rest_from i s) < n \<Longrightarrow>
    res_only pass_faults idle (alarm_loop n env now i s)"
proof (induction n arbitrary: i s)
  case (Suc n)
  show ?case
  proof (cases i)
    case (Some k)
    note inv = good_alarm_inv [OF Suc(2)]
    note d = alarm_invD(2) [OF inv]
    have k: "k \<in> token_of ` set (alarm_map s)" using Suc(3) Some by (simp add: valid_iterator_def)
    then obtain m1 t ac m2 where m: "alarm_map s = m1 @ (t, k, ac) # m2" by (rule alarm_split)
    note find = alarm_find_split [OF m d]
    have mem: "(t, k, ac) \<in> set (alarm_map s)" using m by simp
    have rest: "rest_from (Some k) s = (t, k, ac) # m2" "rest_from (alarm_succ k s) s = m2"
      using rest_from_split [OF m d] rest_from_succ(1) [OF m d] by simp_all
    have skip: "res_only pass_faults idle (alarm_loop n env now (alarm_succ k s) s)"
      if "t \<le> now" "ac \<in> skipped_alarms s"
      by (rule Suc(1) [OF Suc(2) valid_iterator_succ(1) [OF k d] Suc(4)])
        (use Suc(5) Some rest that in \<open>simp add: due_def weight_def\<close>)
    have fire: "res_only pass_faults idle
      (bindr (OnAlarm env ac (s\<lparr>all_alarms := all_alarms s - {ac}\<rparr>)) (alarm_rest n env now k ac))"
      if t: "t \<le> now" "ac \<notin> skipped_alarms s"
    proof (rule res_only_bindr [OF OnAlarm_due [OF Suc(2) mem tame Suc(4)]])
      fix r :: "epoll_server \<times> int"
      assume "case r of (s1, t) \<Rightarrow> safety.good {} {k} [] s1 \<and> due_le now s s1"
      then obtain s1 new_t where r: "r = (s1, new_t)" and s1: "safety.good {} {k} [] s1" "due_le now s s1"
        by (cases r) auto
      from due_le_rest [OF inv m t(1) good_alarm_inv [OF s1(1)] s1(2), of "skipped_alarms s1"]
      obtain m1' m2' where m': "alarm_map s1 = m1' @ (t, k, ac) # m2'"
        "rounds now (skipped_alarms s1) m2' \<le> rounds now (skipped_alarms s1) m2" by blast
      have "rounds now (skipped_alarms s1) m2' + 1 < n"
        using m'(2) Suc(5) Some rest t s1(2) by (simp add: due_def weight_def due_le_def)
      moreover have "recorded_now_in_us s1 = now" using s1(2) Suc(4) by (simp add: due_le_def)
      moreover note Suc(1)
      ultimately have "res_only pass_faults idle (alarm_rest n env now k ac (s1, new_t))"
        by (rule alarm_rest_fuel [OF s1(1) m'(1)])
      then show "res_only pass_faults idle (alarm_rest n env now k ac r)" unfolding r .
    qed
    show ?thesis
      using skip fire Suc(2) by (simp add: Some alarm_loop_Suc [OF find])
  qed (use Suc in simp)
qed simp

lemma CallAndReregisterAlarmEvents_fuel:
  assumes idle: "idle s" and tame: "tame env" and n: "2 * length (alarm_map s) < n"
  shows "res_only pass_faults idle (CallAndReregisterAlarmEvents n env s)"
proof -
  have "rest_from (alarm_first s) s = alarm_map s"
    by (cases "alarm_map s") (auto simp: rest_from_def alarm_first_def tokens_eq)
  then have "rounds (recorded_now_in_us s) (skipped_alarms s) (rest_from (alarm_first s) s) < n"
    using rounds_length [of "recorded_now_in_us s" "skipped_alarms s" "alarm_map s"] n by simp
  from alarm_loop_fuel [OF tame idle valid_iterator_first refl this]
  have "res_only pass_faults idle
    (bindr (alarm_loop n env (recorded_now_in_us s) (alarm_first s) s) (\<lambda>s1. Inr (s1\<lparr>skipped_alarms := {}\<rparr>)))"
    by (rule res_only_bindr) (simp add: safety.good_skipped)
  then show ?thesis
    by (simp add: CallAndReregisterAlarmEvents_def dcheck_def guard_def pass_faults_def)
qed

text \<open>C15: A pass ends. If the callbacks of alarms register no alarm for a time that has already come, a
  pass is over after finitely many rounds of its loops, whatever else the callbacks do: some bound on
  the rounds of the alarm loop (twice the number of alarms plus one is enough) is never reached, even
  with alarms that ask to be called again at once by returning a time that has come.\<close>

theorem pass_terminates:
  assumes "wait_bounded env" "reachable env s" "tame env"
  shows "\<exists>n0. \<forall>n \<ge> n0. WaitForEventsAndExecuteCallbacks n env s \<noteq> Inl OutOfFuel"
proof -
  have idle: "idle s" using safety.reachable_good [OF _ assms(1,2)] by simp
  let ?s0 = "s\<lparr>in_wait := True\<rparr>"
  let ?s1 = "snd (NowInUsec env ?s0)"
  have idle0: "idle ?s0" using idle by (simp add: safety.good_in_wait)
  have idle1: "idle ?s1"
    using alarm_inv_part [of ?s1 ?s0 "{}"] idle0
    by (intro safety.good_quiet [OF idle0]) (auto simp: NowInUsec_def Let_def safety.good_def server_inv_def)
  have wait: "res_only pass_faults idle (WaitForEventsAndCallHandleEvents env t s')" if "idle s'" for t s'
    using safety.good_WaitForEvents [OF that assms(1)] .
  have full: "\<exists>n0. \<forall>n \<ge> n0. bindr (WaitForEventsAndCallHandleEvents env t ?s1) (\<lambda>s2.
     bindr (CallAndReregisterAlarmEvents n env s2) (\<lambda>s3. Inr (s3\<lparr>recorded_now_in_us := 0\<rparr>))) \<noteq> Inl OutOfFuel" for t
  proof (cases "WaitForEventsAndCallHandleEvents env t ?s1")
    case (Inl e)
    then show ?thesis using wait [OF idle1, of t] by (auto simp: pass_faults_def)
  next
    case (Inr s2)
    then have "idle s2" using wait [OF idle1, of t] by simp
    then have "res_only pass_faults idle (CallAndReregisterAlarmEvents n env s2)"
      if "Suc (2 * length (alarm_map s2)) \<le> n" for n
      using CallAndReregisterAlarmEvents_fuel [OF _ assms(3)] that by simp
    then have "CallAndReregisterAlarmEvents n env s2 \<noteq> Inl OutOfFuel"
      if "Suc (2 * length (alarm_map s2)) \<le> n" for n
      using that by (fastforce simp: pass_faults_def)
    then show ?thesis using Inr by (auto simp: bindr_eq_Inl)
  qed
  have short: "bindr (WaitForEventsAndCallHandleEvents env t ?s0) (\<lambda>s1. Inr (s1\<lparr>recorded_now_in_us := 0\<rparr>)) \<noteq> Inl OutOfFuel" for t
    using wait [OF idle0, of t] by (auto simp: bindr_eq_Inl pass_faults_def)
  show ?thesis
  proof (cases "in_wait s \<or> alarm_map s = []")
    case True
    then show ?thesis
      using short by (auto simp: WaitForEventsAndExecuteCallbacks_def mapr_eq_Inl)
  next
    case False
    then obtain t x m where m: "alarm_map s = (t, x) # m" by (cases "alarm_map s") auto
    let ?now = "fst (NowInUsec env ?s0)"
    let ?t = "if t - ?now < timeout_in_us ?s1 \<or> timeout_in_us ?s1 < 0 then max (t - ?now) 0 else timeout_in_us ?s1"
    obtain n0 where "\<forall>n \<ge> n0. bindr (WaitForEventsAndCallHandleEvents env ?t ?s1) (\<lambda>s2.
      bindr (CallAndReregisterAlarmEvents n env s2) (\<lambda>s3. Inr (s3\<lparr>recorded_now_in_us := 0\<rparr>))) \<noteq> Inl OutOfFuel"
      using full by blast
    then show ?thesis
      using False m by (auto simp: WaitForEventsAndExecuteCallbacks_def mapr_eq_Inl case_prod_unfold guard_def Let_def
          intro!: exI [of _ n0])
  qed
qed

theorem pass_terminates_witness:
  "\<exists>s. demo_queue = Inr s \<and> (\<exists>n0. \<forall>n \<ge> n0. WaitForEventsAndExecuteCallbacks n demo_env s \<noteq> Inl OutOfFuel)"
proof -
  have "tame demo_env" by (simp add: tame_def demo_env_def)
  then show ?thesis using demo_queue_reachable pass_terminates [OF demo_bounded] by blast
qed

section \<open>Order\<close>

text \<open>The alarms called so far, newest first.\<close>

fun fired :: "obs list \<Rightarrow> alarm list" where
  "fired [] = []"
| "fired (CallAlarmOnAlarm ac # tr) = ac # fired tr"
| "fired (x # tr) = fired tr"

text \<open>One-shot alarms: callbacks that make calls on descriptors only and return zero.\<close>

definition one_shot :: "env \<Rightarrow> bool" where
  "one_shot env \<longleftrightarrow> (\<forall>ac s. snd (on_alarm env ac s) = 0 \<and> list_all fd_op (fst (on_alarm env ac s)))"

lemma spec_op_fired: "res_inv (\<lambda>a'. fired (sp_trace a') = fired (sp_trace a)) (spec_op env op a)"
  by (cases op) (auto simp: spec_defs Let_def guard_def split: option.splits)

lemma run_fd_ops_fired:
  assumes "rep U s a" "list_all fd_op ops"
  shows "res_inv (\<lambda>s'. fired (obs_trace s') = fired (obs_trace s) \<and> alarm_part s' = alarm_part s) (run_ops env ops s)"
proof -
  have "res_inv (\<lambda>s'. (\<exists>a. rep U s' a) \<and> fired (obs_trace s') = fired (obs_trace s) \<and> alarm_part s' = alarm_part s)
    (run_ops env ops s)"
    unfolding run_ops_def
  proof (rule fold_res_inv)
    fix op s1
    assume op: "op \<in> set ops"
      and s1: "(\<exists>a. rep U s1 a) \<and> fired (obs_trace s1) = fired (obs_trace s) \<and> alarm_part s1 = alarm_part s"
    then obtain a1 where a1: "rep U s1 a1" by blast
    have "fd_op op" using op assms(2) by (simp add: list_all_iff)
    then have "keeps_alarms s1 (exec_op env op s1)"
      by (cases op) (simp_all add: keeps_alarms_ops ModifyCallback_def StopRead_def StartRead_def
          StopWrite_def StartWrite_def)
    moreover have "sim U (exec_op env op s1) (spec_op env op a1)"
      using exec_op_sim [OF \<open>fd_op op\<close> a1] .
    ultimately show "res_inv (\<lambda>s'. (\<exists>a. rep U s' a) \<and> fired (obs_trace s') = fired (obs_trace s) \<and>
      alarm_part s' = alarm_part s) (exec_op env op s1)"
      using s1 spec_op_fired [of a1 env op] rep_seq [OF a1]
      by (cases "exec_op env op s1"; cases "spec_op env op a1") (auto dest: rep_seq)
  qed (use assms in auto)
  then show ?thesis by (rule res_inv_mono) blast
qed

lemma OnAlarm_one_shot:
  assumes s: "idle s" and k: "(t, k, ac) \<in> set (alarm_map s)" and one: "one_shot env"
  shows "res_only pass_faults (\<lambda>(s1, t). t = 0 \<and> safety.good {} {k} [] s1 \<and> alarm_map s1 = alarm_map s \<and>
      skipped_alarms s1 = skipped_alarms s \<and> fired (obs_trace s1) = ac # fired (obs_trace s))
    (OnAlarm env ac (s\<lparr>all_alarms := all_alarms s - {ac}\<rparr>))"
proof -
  let ?s1 = "EpollAlarm_OnAlarm ac (s\<lparr>all_alarms := all_alarms s - {ac}\<rparr>)"
  have "fd_part ?s1 = fd_part s" by (simp add: EpollAlarm_OnAlarm_def)
  then have "rep {} ?s1 (abs_server ?s1)"
    using s ready_inv_fd_part [of ?s1 s] fd_part_seq [of ?s1 s]
    by (simp add: rep_abs_server safety.good_def server_inv_def)
  from run_fd_ops_fired [OF this, of "fst (on_alarm env ac ?s1)" env] one
  have "res_inv (\<lambda>(s1, t). t = 0 \<and> alarm_map s1 = alarm_map s \<and> skipped_alarms s1 = skipped_alarms s \<and>
      fired (obs_trace s1) = ac # fired (obs_trace s))
    (OnAlarm env ac (s\<lparr>all_alarms := all_alarms s - {ac}\<rparr>))"
    by (auto simp: OnAlarm_def Let_def case_prod_unfold one_shot_def alarm_part_def EpollAlarm_OnAlarm_def
        elim!: res_inv_mono)
  from res_only_conj_inv [OF safety.good_OnAlarm [OF s k] this] show ?thesis
    by (rule res_only_mono) auto
qed

lemma alarm_loop_one_shot:
  assumes one: "one_shot env"
  shows "idle s \<Longrightarrow> skipped_alarms s = {} \<Longrightarrow> alarm_map s = m \<Longrightarrow> length m < n \<Longrightarrow>
    res_only pass_faults (\<lambda>s'. alarm_map s' = filter (\<lambda>x. now < fst x) m \<and>
        fired (obs_trace s') = rev (map alarm_of (filter (\<lambda>x. fst x \<le> now) m)) @ fired (obs_trace s))
      (alarm_loop n env now (alarm_first s) s)"
proof (induction m arbitrary: s n)
  case Nil
  then show ?case by (simp add: alarm_first_def tokens_eq)
next
  case (Cons x m)
  obtain t k ac n' where x: "x = (t, k, ac)" and n: "n = Suc n'" using Cons(5) by (cases x; cases n) auto
  note inv = good_alarm_inv [OF Cons(2)]
  have m: "alarm_map s = [] @ (t, k, ac) # m" using Cons(4) x by simp
  note find = alarm_find_split [OF m alarm_invD(2) [OF inv]]
  have i: "alarm_first s = Some k" using m by (simp add: alarm_first_def tokens_eq)
  show ?case
  proof (cases "t > now")
    case True
    have "\<forall>y \<in> set m. t \<le> fst y" using alarm_invD(1) [OF inv] m by simp
    then have "filter (\<lambda>x. now < fst x) (x # m) = x # m" "filter (\<lambda>x. fst x \<le> now) (x # m) = []"
      using True x by (auto simp: filter_id_conv filter_empty_conv)
    then show ?thesis
      using True Cons(4) by (simp add: i n alarm_loop_Suc [OF find] del: filter.simps)
  next
    case False
    have k: "(t, k, ac) \<in> set (alarm_map s)" using m by simp
    have "res_only pass_faults (\<lambda>s'. alarm_map s' = filter (\<lambda>x. now < fst x) m \<and>
        fired (obs_trace s') = rev (map alarm_of (filter (\<lambda>x. fst x \<le> now) m)) @ ac # fired (obs_trace s))
      (bindr (OnAlarm env ac (s\<lparr>all_alarms := all_alarms s - {ac}\<rparr>)) (alarm_rest n' env now k ac))"
    proof (rule res_only_bindr [OF OnAlarm_one_shot [OF Cons(2) k one]])
      fix r :: "epoll_server \<times> int"
      assume "case r of (s1, t) \<Rightarrow> t = 0 \<and> safety.good {} {k} [] s1 \<and> alarm_map s1 = alarm_map s \<and>
        skipped_alarms s1 = skipped_alarms s \<and> fired (obs_trace s1) = ac # fired (obs_trace s)"
      then obtain s1 where r: "r = (s1, 0)" and s1: "safety.good {} {k} [] s1" "alarm_map s1 = [] @ (t, k, ac) # m"
        "skipped_alarms s1 = {}" "fired (obs_trace s1) = ac # fired (obs_trace s)"
        using m Cons(3) by (cases r) auto
      note d1 = alarm_invD(2) [OF good_alarm_inv [OF s1(1)]]
      have e: "alarm_map (alarm_erase k s1) = m" using s1(2) d1 by (simp add: alarm_map_erase filter_token_id)
      have "alarm_succ k s1 = alarm_first (alarm_erase k s1)"
        using alarm_succ_split [OF s1(2) d1] e by (simp add: alarm_first_def tokens_eq split: list.split)
      then show "res_only pass_faults (\<lambda>s'. alarm_map s' = filter (\<lambda>x. now < fst x) m \<and>
        fired (obs_trace s') = rev (map alarm_of (filter (\<lambda>x. fst x \<le> now) m)) @ ac # fired (obs_trace s))
        (alarm_rest n' env now k ac r)"
        using Cons(1) [OF safety.good_erase [OF s1(1)] _ e, of n'] s1(3,4) Cons(5) n
        by (simp add: r alarm_rest_def alarm_find_split [OF s1(2) d1])
    qed
    then show ?thesis
      using False Cons(3) x by (simp add: i n alarm_loop_Suc [OF find])
  qed
qed


text \<open>A server with alarms at the times 5, 5 and 20, run at time 10.\<close>

definition demo_alarms :: "epoll_server res" where
  "demo_alarms =
     mapr (\<lambda>s. s\<lparr>recorded_now_in_us := 10\<rparr>)
       (bindr (EpollServer demo_env 3 (Some (4, 5)) (\<lambda>_. EpollAlarm) [])
         (fold_res (run_step demo_env)
           [Call (OpRegisterAlarm 5 1), Call (OpRegisterAlarm 20 2), Call (OpRegisterAlarm 5 3)]))"

lemma demo_alarms_ok:
  "\<exists>s. demo_alarms = Inr s \<and> server_inv {} {} s \<and> tmp_list s = None \<and> skipped_alarms s = {} \<and>
     alarm_map s = [(5, 0, 1), (5, 2, 3), (20, 1, 2)] \<and> recorded_now_in_us s = 10"
proof -
  have "mapr (\<lambda>s. (alarm_map s, skipped_alarms s, tmp_list s, recorded_now_in_us s)) demo_alarms =
    Inr ([(5, 0, 1), (5, 2, 3), (20, 1, 2)], {}, None, 10)"
    by code_simp
  then obtain s where s: "demo_alarms = Inr s" "alarm_map s = [(5, 0, 1), (5, 2, 3), (20, 1, 2)]"
    "skipped_alarms s = {}" "tmp_list s = None" "recorded_now_in_us s = 10"
    by (auto simp: mapr_eq_Inr)
  then obtain s0 s1 where run: "EpollServer demo_env 3 (Some (4, 5)) (\<lambda>_. EpollAlarm) [] = Inr s0"
    "fold_res (run_step demo_env) [Call (OpRegisterAlarm 5 1), Call (OpRegisterAlarm 20 2),
      Call (OpRegisterAlarm 5 3)] s0 = Inr s1" "s = s1\<lparr>recorded_now_in_us := 10\<rparr>"
    unfolding demo_alarms_def mapr_eq_Inr bindr_eq_Inr by (elim exE conjE)
  have "idle s1"
    using safety.reachable_good [OF _ demo_bounded reachable_run [OF reachable.construct [OF run(1)] run(2)]] by simp
  then have "idle s" using run(3) by (simp add: safety.good_recorded)
  then show ?thesis using s by (intro exI [of _ s] conjI) (simp_all add: safety.good_def)
qed


section \<open>Divergence\<close>

text \<open>The set of skipped alarms does not prevent an endless loop. It holds the alarms that ask to be
  called again through the result of \<open>OnAlarm\<close>, not those whose callback calls \<open>RegisterAlarm\<close> itself,
  as every \<open>EpollTimer\<close> that is set again from its own callback does. If such a callback registers its
  alarm for the time the pass has recorded, the loop calls it again and again: no number of rounds is
  enough, although the time of the pass is fixed.\<close>

theorem alarm_loop_diverges:
  assumes "alarm_inv {} s" "alarm_map s = [(t, k, ac)]" "t \<le> now" "ac \<notin> skipped_alarms s"
    "\<And>s. on_alarm env ac s = ([OpRegisterAlarm now ac], 0)"
  shows "alarm_loop n env now (Some k) s = Inl OutOfFuel"
  using assms(1-4)
proof (induction n arbitrary: s t k)
  case (Suc n)
  have m: "alarm_map s = [] @ (t, k, ac) # []" using Suc(3) by simp
  note find = alarm_find_split [OF m alarm_invD(2) [OF Suc(2)]]
  let ?s1 = "EpollAlarm_OnAlarm ac (s\<lparr>all_alarms := all_alarms s - {ac}\<rparr>)"
  have inv1: "alarm_inv {k} ?s1" by (rule alarm_inv_fire [OF Suc(2), of t]) (simp add: Suc(3))
  have f1: "ac \<notin> all_alarms ?s1" "alarm_map ?s1 = [(t, k, ac)]" "next_token ?s1 = next_token s"
    "skipped_alarms ?s1 = skipped_alarms s" using Suc(3) by (simp_all add: EpollAlarm_OnAlarm_def)
  obtain s2 where s2: "RegisterAlarm env now (Some ac) ?s1 = Inr s2" "alarm_inv {k} s2"
    "alarm_map s2 = [(t, k, ac), (now, next_token s, ac)]" "skipped_alarms s2 = skipped_alarms s"
    using RegisterAlarm_inv [OF inv1, of env now ac] f1 Suc(4) by (auto simp: RegisterAlarm_eq [OF inv1])
  have "OnAlarm env ac (s\<lparr>all_alarms := all_alarms s - {ac}\<rparr>) = Inr (s2, 0)"
    using assms(5) s2(1) by (simp add: OnAlarm_def Let_def run_ops_def)
  moreover have m2: "alarm_map s2 = [] @ (t, k, ac) # [(now, next_token s, ac)]" using s2(3) by simp
  note d2 = alarm_invD(2) [OF s2(2)]
  have "alarm_succ k s2 = Some (next_token s)" using alarm_succ_split [OF m2 d2] by simp
  moreover have "alarm_loop n env now (Some (next_token s)) (alarm_erase k s2) = Inl OutOfFuel"
    by (rule Suc(1) [OF alarm_inv_fired [OF s2(2)], of now])
      (use s2(3,4) d2 Suc(5) in \<open>simp_all add: alarm_map_erase\<close>)
  ultimately show ?case
    using Suc(4,5) by (simp add: alarm_loop_Suc [OF find] alarm_rest_def alarm_find_split [OF m2 d2])
qed simp

definition busy_env :: env where
  "busy_env = demo_env\<lparr>on_alarm := \<lambda>ac s. ([OpRegisterAlarm 10 ac], 0)\<rparr>"

theorem alarm_loop_diverges_witness:
  "\<exists>s. RegisterAlarm busy_env 5 (Some 1) (new_server 3 (\<lambda>_. EpollAlarm) []) = Inr s \<and>
    alarm_loop 1000000 busy_env 10 (alarm_first s) s = Inl OutOfFuel"
proof -
  have inv0: "alarm_inv {} (new_server 3 (\<lambda>_. EpollAlarm) [])"
    by (simp add: alarm_inv_def new_server_def live_def EpollAlarm_def)
  have "mapr (\<lambda>s. (alarm_map s, skipped_alarms s)) (RegisterAlarm busy_env 5 (Some 1) (new_server 3 (\<lambda>_. EpollAlarm) [])) =
    Inr ([(5, 0, 1)], {})" by code_simp
  then obtain s where s: "RegisterAlarm busy_env 5 (Some 1) (new_server 3 (\<lambda>_. EpollAlarm) []) = Inr s"
    "alarm_inv {} s" "alarm_map s = [(5, 0, 1)]" "skipped_alarms s = {}"
    using RegisterAlarm_inv [OF inv0, of busy_env 5 1] by (auto simp: mapr_eq_Inr)
  have "alarm_loop 1000000 busy_env 10 (Some 0) s = Inl OutOfFuel"
    by (rule alarm_loop_diverges [OF s(2,3)]) (simp_all add: s(4) busy_env_def)
  then show ?thesis using s by (auto simp: alarm_first_def tokens_eq)
qed

section \<open>The timeout of \<open>epoll_wait\<close>\<close>



end
