(* ===== verification/Epoll_Timer.thy ===== *)
theory Epoll_Timer
  imports Alarm_Loop "HOL-Library.Signed_Division"
begin

text \<open>
  \<open>raner::Time\<close> (\<open>raner/time.h\<close>, \<open>raner/time.cc\<close>), a number of microseconds since the epoch, and
  \<open>raner::EpollTimer\<close> (\<open>raner/epoll_timer.h\<close>, \<open>raner/epoll_timer.cc\<close>), an alarm with a deadline. What the
  timer needs of the server is the locale \<open>alarm_service\<close>.
\<close>

section \<open>Time\<close>

type_synonym time = int

definition kMicrosecondsPerSecond :: int where
  "kMicrosecondsPerSecond = 1000 * 1000"

definition UnixEpoch :: time where
  "UnixEpoch = 0"

definition FromTimeT :: "int \<Rightarrow> time res" where
  "FromTimeT tt =
     guard SignedOverflow (fits_int64 (tt * kMicrosecondsPerSecond)) (Inr (tt * kMicrosecondsPerSecond))"

definition ToTimeT :: "time \<Rightarrow> int" where
  "ToTimeT t = t sdiv kMicrosecondsPerSecond"

definition ToMilliSeconds :: "time \<Rightarrow> int" where
  "ToMilliSeconds t = t sdiv kMicrosecondsPerSecond"

definition ToSeconds :: "time \<Rightarrow> int" where
  "ToSeconds t = ToMilliSeconds t sdiv 1000"

definition time_add :: "time \<Rightarrow> int \<Rightarrow> time res" where
  "time_add t d = guard SignedOverflow (fits_int64 (t + d)) (Inr (t + d))"

definition time_sub :: "time \<Rightarrow> int \<Rightarrow> time res" where
  "time_sub t d = guard SignedOverflow (fits_int64 (t - d)) (Inr (t - d))"

definition time_diff :: "time \<Rightarrow> time \<Rightarrow> int res" where
  "time_diff t u = guard SignedOverflow (fits_int64 (t - u)) (Inr (t - u))"

definition IsInitialized :: "time \<Rightarrow> bool" where
  "IsInitialized t \<longleftrightarrow> t \<noteq> 0"

definition time_less :: "time \<Rightarrow> time \<Rightarrow> bool" where
  "time_less t u \<longleftrightarrow> t < u"

definition time_greater :: "time \<Rightarrow> time \<Rightarrow> bool" where
  "time_greater t u \<longleftrightarrow> time_less u t"

definition time_greater_eq :: "time \<Rightarrow> time \<Rightarrow> bool" where
  "time_greater_eq t u \<longleftrightarrow> \<not> time_less t u"

definition time_less_eq :: "time \<Rightarrow> time \<Rightarrow> bool" where
  "time_less_eq t u \<longleftrightarrow> \<not> time_less u t"

text \<open>\<open>%d\<close> and \<open>%06d\<close> of \<open>snprintf\<close>.\<close>

definition show_int :: "int \<Rightarrow> string" where
  "show_int i = (if i < 0 then ''-'' else []) @ digits (nat (abs i))"

definition show_int0 :: "nat \<Rightarrow> int \<Rightarrow> string" where
  "show_int0 w i =
     (let sign = (if i < 0 then ''-'' else []); ds = digits (nat (abs i))
      in sign @ replicate (w - length sign - length ds) CHR ''0'' @ ds)"

definition Time_ToString :: "time \<Rightarrow> string" where
  "Time_ToString t =
     take 30 (show_int (t sdiv kMicrosecondsPerSecond) @ ''.'' @
       show_int0 6 (t smod kMicrosecondsPerSecond))"

definition durationSeconds :: "int \<Rightarrow> int" where
  "durationSeconds d = d sdiv kMicrosecondsPerSecond"

section \<open>Timers\<close>

text \<open>A timer is its alarm object \<open>ac\<close> (\<open>epoll_timer_impl_\<close>), its deadline and its callback.\<close>

record epoll_timer =
  epoll_timer_impl :: alarm
  timer_cb :: "nat option"
  deadline :: time

definition EpollTimer :: "alarm \<Rightarrow> epoll_timer" where
  "EpollTimer ac = \<lparr>epoll_timer_impl = ac, timer_cb = None, deadline = UnixEpoch\<rparr>"

definition SetTimerCallback :: "nat option \<Rightarrow> epoll_timer \<Rightarrow> epoll_timer" where
  "SetTimerCallback c tm = tm\<lparr>timer_cb := c\<rparr>"

definition IsSet :: "epoll_timer \<Rightarrow> bool" where
  "IsSet tm \<longleftrightarrow> IsInitialized (deadline tm)"

definition setImpl :: "env \<Rightarrow> epoll_timer \<Rightarrow> epoll_server \<Rightarrow> epoll_server res" where
  "setImpl env tm s =
     dcheck env (IsInitialized (deadline tm))
       (bindr (time_diff (deadline tm) UnixEpoch) (\<lambda>t. RegisterAlarm env t (Some (epoll_timer_impl tm)) s))"

definition cancelImpl :: "env \<Rightarrow> epoll_timer \<Rightarrow> epoll_server \<Rightarrow> epoll_server res" where
  "cancelImpl env tm s =
     dcheck env (\<not> IsInitialized (deadline tm)) (UnregisterIfRegistered (epoll_timer_impl tm) s)"

definition updateImpl :: "env \<Rightarrow> epoll_timer \<Rightarrow> epoll_server \<Rightarrow> (epoll_timer \<times> epoll_server) res" where
  "updateImpl env tm s =
     (let new_deadline = deadline tm; tm1 = tm\<lparr>deadline := UnixEpoch\<rparr>
      in bindr (cancelImpl env tm1 s) (\<lambda>s1.
         let tm2 = tm1\<lparr>deadline := new_deadline\<rparr> in mapr (Pair tm2) (setImpl env tm2 s1)))"

definition Timer_Set ::
  "env \<Rightarrow> time \<Rightarrow> epoll_timer \<Rightarrow> epoll_server \<Rightarrow> (epoll_timer \<times> epoll_server) res" where
  "Timer_Set env new_deadline tm s =
     dcheck env (\<not> IsSet tm) (dcheck env (IsInitialized new_deadline)
       (let tm1 = tm\<lparr>deadline := new_deadline\<rparr> in mapr (Pair tm1) (setImpl env tm1 s)))"

definition Timer_Cancel :: "env \<Rightarrow> epoll_timer \<Rightarrow> epoll_server \<Rightarrow> (epoll_timer \<times> epoll_server) res" where
  "Timer_Cancel env tm s =
     (if \<not> IsSet tm then Inr (tm, s)
      else let tm1 = tm\<lparr>deadline := UnixEpoch\<rparr> in mapr (Pair tm1) (cancelImpl env tm1 s))"

definition Timer_Update ::
  "env \<Rightarrow> time \<Rightarrow> epoll_timer \<Rightarrow> epoll_server \<Rightarrow> (epoll_timer \<times> epoll_server) res" where
  "Timer_Update env new_deadline tm s =
     (if \<not> IsInitialized new_deadline then Timer_Cancel env tm s
      else let was_set = IsSet tm; tm1 = tm\<lparr>deadline := new_deadline\<rparr>
           in if was_set then updateImpl env tm1 s else mapr (Pair tm1) (setImpl env tm1 s))"

text \<open>\<open>fire\<close> returns the callback it calls.\<close>

definition Timer_fire :: "epoll_timer \<Rightarrow> epoll_timer \<times> nat option" where
  "Timer_fire tm = (if \<not> IsSet tm then (tm, None) else (tm\<lparr>deadline := UnixEpoch\<rparr>, timer_cb tm))"

definition EpollTimerImpl_OnAlarm ::
  "epoll_timer \<Rightarrow> epoll_server \<Rightarrow> (epoll_timer \<times> epoll_server) \<times> nat option \<times> int" where
  "EpollTimerImpl_OnAlarm tm s =
     (let s1 = EpollAlarm_OnAlarm (epoll_timer_impl tm) s; (tm1, called) = Timer_fire tm
      in ((tm1, s1), called, 0))"

section \<open>The alarm service\<close>

text \<open>The time an alarm is registered for.\<close>

definition pending :: "epoll_server \<Rightarrow> alarm \<rightharpoonup> int" where
  "pending s ac = map_of (map (\<lambda>(t, k, ac). (ac, t)) (alarm_map s)) ac"

locale alarm_service =
  fixes inv :: "'s \<Rightarrow> bool" and pend :: "'s \<Rightarrow> 'a \<rightharpoonup> int"
    and register :: "int \<Rightarrow> 'a \<Rightarrow> 's \<Rightarrow> 's res" and unregister :: "'a \<Rightarrow> 's \<Rightarrow> 's res"
  assumes register_law: "inv s \<Longrightarrow> pend s ac = None \<Longrightarrow>
      res_ok (\<lambda>s'. inv s' \<and> pend s' = (pend s)(ac \<mapsto> t)) (register t ac s)"
    and register_twice: "inv s \<Longrightarrow> pend s ac \<noteq> None \<Longrightarrow> register t ac s = Inl LogFatal"
    and unregister_law: "inv s \<Longrightarrow> res_ok (\<lambda>s'. inv s' \<and> pend s' = (pend s)(ac := None)) (unregister ac s)"
begin

lemma reschedule:
  assumes "inv s"
  shows "res_ok (\<lambda>s'. inv s' \<and> pend s' = (pend s)(ac \<mapsto> t)) (bindr (unregister ac s) (register t ac))"
proof (rule res_ok_bindr [OF unregister_law [OF assms]])
  fix s1
  assume s1: "inv s1 \<and> pend s1 = (pend s)(ac := None)"
  then have "res_ok (\<lambda>s'. inv s' \<and> pend s' = (pend s1)(ac \<mapsto> t)) (register t ac s1)"
    by (intro register_law) simp_all
  then show "res_ok (\<lambda>s'. inv s' \<and> pend s' = (pend s)(ac \<mapsto> t)) (register t ac s1)"
    using s1 by simp
qed

end

lemma live_none [simp]: "live {} s = alarm_map s"
  by (simp add: live_def)

lemma pending_iff:
  assumes "alarm_inv {} s"
  shows "pending s ac = Some t \<longleftrightarrow> (\<exists>k. (t, k, ac) \<in> set (alarm_map s))"
proof -
  have "map fst (map (\<lambda>(t, k, ac). (ac, t)) (alarm_map s)) = map alarm_of (alarm_map s)"
    by (auto simp: alarm_of_def)
  then have "distinct (map fst (map (\<lambda>(t, k, ac). (ac, t)) (alarm_map s)))"
    using alarm_invD(4) [OF assms] by (simp del: map_map)
  then show ?thesis
    unfolding pending_def by (force simp del: map_map simp: image_iff)
qed

lemma pending_None:
  assumes "alarm_inv {} s"
  shows "pending s ac = None \<longleftrightarrow> ac \<notin> all_alarms s"
  using alarm_invD(5) [OF assms] by (force simp: pending_def map_of_eq_None_iff alarm_of_def image_iff)

lemma map_eqI_Some: "(\<And>x y. f x = Some y \<longleftrightarrow> g x = Some y) \<Longrightarrow> f = g"
  by (metis ext not_Some_eq)

lemma pending_register:
  assumes inv: "alarm_inv {} s" and inv': "alarm_inv {} s'" and new: "pending s ac = None"
    and map: "set (alarm_map s') = insert (t, k, ac) (set (alarm_map s))"
  shows "pending s' = (pending s)(ac \<mapsto> t)"
proof (rule map_eqI_Some)
  fix x u
  show "pending s' x = Some u \<longleftrightarrow> ((pending s)(ac \<mapsto> t)) x = Some u"
    using new pending_iff [OF inv, of ac] by (auto simp: pending_iff [OF inv'] pending_iff [OF inv] map)
qed

lemma pending_unregister:
  assumes inv: "alarm_inv {} s" and inv': "alarm_inv {} s'"
    and map: "set (alarm_map s') = {x \<in> set (alarm_map s). alarm_of x \<noteq> ac}"
  shows "pending s' = (pending s)(ac := None)"
proof (rule map_eqI_Some)
  fix x u
  show "pending s' x = Some u \<longleftrightarrow> ((pending s)(ac := None)) x = Some u"
    by (auto simp: pending_iff [OF inv'] pending_iff [OF inv] map)
qed

lemma RegisterAlarm_pending:
  assumes inv: "alarm_inv {} s" and new: "pending s ac = None"
  shows "res_ok (\<lambda>s'. alarm_inv {} s' \<and> pending s' = (pending s)(ac \<mapsto> t)) (RegisterAlarm env t (Some ac) s)"
proof -
  have ac: "ac \<notin> all_alarms s" using new pending_None [OF inv] by simp
  obtain s' where s': "RegisterAlarm env t (Some ac) s = Inr s'"
    "alarm_map s' = multimap_insert t (next_token s) ac (alarm_map s)"
    using ac by (simp add: RegisterAlarm_eq [OF inv])
  moreover from RegisterAlarm_inv [OF inv] have inv': "alarm_inv {} s'"
    using s'(1) by (metis res_only_simps(2))
  moreover have "pending s' = (pending s)(ac \<mapsto> t)"
    by (rule pending_register [OF inv inv' new]) (simp add: s'(2))
  ultimately show ?thesis by simp
qed

lemma UnregisterIfRegistered_pending:
  assumes inv: "alarm_inv {} s"
  shows "res_ok (\<lambda>s'. alarm_inv {} s' \<and> pending s' = (pending s)(ac := None)) (UnregisterIfRegistered ac s)"
proof (cases "a_registered (alarm_objs s ac)")
  case True
  from alarm_inv_registered [OF inv True] obtain t k where
    k: "(t, k, ac) \<in> set (alarm_map s)" "a_token (alarm_objs s ac) = Some k" by blast
  obtain s' where s': "UnregisterIfRegistered ac s = Inr s'" "alarm_inv {} s'"
    using UnregisterIfRegistered_inv [OF inv, of ac] by (rule res_ok_E)
  have "alarm_map s' = filter (\<lambda>x. token_of x \<noteq> k) (alarm_map s)"
    using s'(1) unfolding UnregisterIfRegistered_eq [OF inv True k(2)]
    by (auto simp: EpollAlarm_OnUnregistration_def alarm_map_erase)
  with live_remove_set [OF inv, of t k ac] k(1) have
    "set (alarm_map s') = {x \<in> set (alarm_map s). alarm_of x \<noteq> ac}" by simp
  from pending_unregister [OF inv s'(2) this] show ?thesis using s' by simp
next
  case False
  then have "pending s ac = None" using alarm_invD(6) [OF inv] pending_None [OF inv] by simp
  then show ?thesis using inv False by (auto simp: UnregisterIfRegistered_def)
qed

interpretation alarms: alarm_service "alarm_inv {}" pending
  "\<lambda>t ac. RegisterAlarm env t (Some ac)" UnregisterIfRegistered for env
proof unfold_locales
  show "RegisterAlarm env t (Some ac) s = Inl LogFatal" if "alarm_inv {} s" "pending s ac \<noteq> None" for s ac t
    using that by (simp add: RegisterAlarm_eq pending_None)
qed (simp_all add: RegisterAlarm_pending UnregisterIfRegistered_pending)

section \<open>Timers are in step with the server\<close>

text \<open>A timer is set exactly when its alarm is pending, and then for its deadline.\<close>

definition timer_inv :: "epoll_timer \<Rightarrow> epoll_server \<Rightarrow> bool" where
  "timer_inv tm s \<longleftrightarrow> alarm_inv {} s \<and> fits_int64 (deadline tm) \<and>
     pending s (epoll_timer_impl tm) = (if IsSet tm then Some (deadline tm) else None)"

definition timer_after ::
  "time \<Rightarrow> epoll_timer \<Rightarrow> epoll_server \<Rightarrow> epoll_timer \<times> epoll_server \<Rightarrow> bool" where
  "timer_after d tm s r \<longleftrightarrow> timer_inv (fst r) (snd r) \<and> fst r = tm\<lparr>deadline := d\<rparr> \<and>
     (\<forall>ac. ac \<noteq> epoll_timer_impl tm \<longrightarrow> pending (snd r) ac = pending s ac)"

lemma time_diff_epoch [simp]: "fits_int64 t \<Longrightarrow> time_diff t UnixEpoch = Inr t"
  by (simp add: time_diff_def UnixEpoch_def)

lemma IsInitialized_simps [simp]: "\<not> IsInitialized UnixEpoch" "fits_int64 UnixEpoch"
  by (simp_all add: IsInitialized_def UnixEpoch_def fits_int64_def)

lemma dcheck_True [simp]: "P \<Longrightarrow> dcheck env P k = k"
  by (simp add: dcheck_def)

lemma setImpl_after:
  assumes "alarm_inv {} s" "pending s (epoll_timer_impl tm) = None" "fits_int64 d" "IsInitialized d"
  shows "res_ok (timer_after d tm s) (mapr (Pair (tm\<lparr>deadline := d\<rparr>)) (setImpl env (tm\<lparr>deadline := d\<rparr>) s))"
  using alarms.register_law [OF assms(1,2), where env = env and t = d] assms(3,4)
  by (auto simp: setImpl_def timer_after_def timer_inv_def IsSet_def elim!: res_ok_E)

lemma cancelImpl_after:
  assumes "alarm_inv {} s"
  shows "res_ok (timer_after UnixEpoch tm s)
    (mapr (Pair (tm\<lparr>deadline := UnixEpoch\<rparr>)) (cancelImpl env (tm\<lparr>deadline := UnixEpoch\<rparr>) s))"
  using alarms.unregister_law [OF assms, of "epoll_timer_impl tm"]
  by (auto simp: cancelImpl_def timer_after_def timer_inv_def IsSet_def elim!: res_ok_E)

lemma updateImpl_after:
  assumes "alarm_inv {} s" "fits_int64 d" "IsInitialized d"
  shows "res_ok (timer_after d tm s) (updateImpl env (tm\<lparr>deadline := d\<rparr>) s)"
proof -
  have "updateImpl env (tm\<lparr>deadline := d\<rparr>) s = mapr (Pair (tm\<lparr>deadline := d\<rparr>))
    (bindr (UnregisterIfRegistered (epoll_timer_impl tm) s) (RegisterAlarm env d (Some (epoll_timer_impl tm))))"
    using assms(2,3)
    by (cases "UnregisterIfRegistered (epoll_timer_impl tm) s")
      (simp_all add: updateImpl_def cancelImpl_def setImpl_def Let_def)
  then show ?thesis
    using alarms.reschedule [OF assms(1), where ac = "epoll_timer_impl tm" and env = env and t = d] assms(2,3)
    by (auto simp: timer_after_def timer_inv_def IsSet_def elim!: res_ok_E)
qed

text \<open>C31: \<open>Set\<close> (of a timer that is not set), \<open>Cancel\<close> and \<open>Update\<close> (of any timer) never fault, in debug
  builds either, and leave the timer registered with the server exactly for its new deadline, or not at
  all; the alarms of other timers are not touched.\<close>

theorem timer_operations:
  assumes "timer_inv tm s" "fits_int64 d"
  shows "(\<not> IsSet tm \<longrightarrow> IsInitialized d \<longrightarrow> res_ok (timer_after d tm s) (Timer_Set env d tm s)) \<and>
    res_ok (timer_after UnixEpoch tm s) (Timer_Cancel env tm s) \<and>
    res_ok (timer_after d tm s) (Timer_Update env d tm s)"
proof (intro conjI impI)
  have inv: "alarm_inv {} s" using assms(1) by (simp add: timer_inv_def)
  have unset: "pending s (epoll_timer_impl tm) = None" if "\<not> IsSet tm"
    using assms(1) that by (simp add: timer_inv_def)
  show "res_ok (timer_after d tm s) (Timer_Set env d tm s)" if "\<not> IsSet tm" "IsInitialized d"
    using that setImpl_after [OF inv unset assms(2)] by (simp add: Timer_Set_def Let_def)
  show cancel: "res_ok (timer_after UnixEpoch tm s) (Timer_Cancel env tm s)"
  proof (cases "IsSet tm")
    case False
    then have "deadline tm = UnixEpoch" by (simp add: IsSet_def IsInitialized_def UnixEpoch_def)
    then have "tm\<lparr>deadline := UnixEpoch\<rparr> = tm" by simp
    then show ?thesis using False assms(1) by (simp add: Timer_Cancel_def timer_after_def)
  qed (simp add: Timer_Cancel_def Let_def cancelImpl_after [OF inv])
  show "res_ok (timer_after d tm s) (Timer_Update env d tm s)"
  proof (cases "IsInitialized d")
    case True
    then show ?thesis
      using setImpl_after [OF inv unset assms(2)] updateImpl_after [OF inv assms(2)]
      by (simp add: Timer_Update_def Let_def)
  next
    case False
    then have "d = UnixEpoch" by (simp add: IsInitialized_def UnixEpoch_def)
    then show ?thesis using cancel by (simp add: Timer_Update_def)
  qed
qed

lemma EpollTimer_unset: "\<not> IsSet (EpollTimer ac)"
  by (simp add: EpollTimer_def IsSet_def)

lemma timer_inv_new: "timer_inv (EpollTimer ac) (new_server epfd (\<lambda>_. EpollAlarm) tr)"
  by (simp add: timer_inv_def EpollTimer_def IsSet_def pending_def new_server_def alarm_inv_def EpollAlarm_def)

theorem timer_operations_witness:
  "let s = new_server 3 (\<lambda>_. EpollAlarm) [] in
   timer_inv (EpollTimer 7) s \<and> fits_int64 250 \<and>
   res_ok (timer_after 250 (EpollTimer 7) s) (Timer_Set demo_env 250 (EpollTimer 7) s)"
  using timer_operations [OF timer_inv_new, of 250 7 3 "[]" demo_env]
  by (simp add: timer_inv_new EpollTimer_unset fits_int64_def IsInitialized_def)

section \<open>Conversions of times\<close>

lemma length_digits: "n < 10 ^ k \<Longrightarrow> 0 < k \<Longrightarrow> length (digits n) \<le> k"
proof (induction n arbitrary: k rule: digits.induct)
  case (1 n)
  show ?case
  proof (cases "n < 10")
    case False
    then obtain j where k: "k = Suc j" "0 < j"
      using 1(2,3) by (cases k; cases "k - 1") auto
    then have "n div 10 < 10 ^ j" using 1(2) by (simp add: less_mult_imp_div_less mult.commute)
    from 1(1) [OF False this k(2)] show ?thesis
      using False k by (subst digits.simps) simp
  qed (use 1(3) in \<open>subst digits.simps, simp\<close>)
qed

fun value_of :: "nat \<Rightarrow> string \<Rightarrow> nat" where
  "value_of acc [] = acc"
| "value_of acc (c # cs) = value_of (10 * acc + (of_char c - 48)) cs"

lemma value_of_append: "value_of acc (xs @ ys) = value_of (value_of acc xs) ys"
  by (induction xs arbitrary: acc) auto

lemma of_char_digit: "d < 10 \<Longrightarrow> of_char (char_of (48 + d) :: char) = 48 + (d :: nat)"
  by simp

lemma value_of_digits: "value_of 0 (digits n) = n"
proof (induction n rule: digits.induct)
  case (1 n)
  show ?case
    using 1 by (subst digits.simps) (simp add: value_of_append of_char_digit)
qed

lemma value_of_zeros: "value_of 0 (replicate k CHR ''0'') = 0"
  by (induction k) auto

lemma digits_no_dot: "CHR ''.'' \<notin> set (digits n)"
proof (induction n rule: digits.induct)
  case (1 n)
  have dot: "CHR ''.'' \<noteq> char_of (48 + d)" if "d < 10" for d :: nat
  proof
    assume "CHR ''.'' = char_of (48 + d)"
    then have "of_char (char_of (48 + d) :: char) = (of_char CHR ''.'' :: nat)" by (rule arg_cong [OF sym])
    then show False unfolding of_char_digit [OF that] by simp
  qed
  from dot [of n] dot [of "n mod 10"] show ?case
    using 1 by (subst digits.simps) simp
qed

text \<open>A reader for the printed form: seconds, a dot, microseconds.\<close>

definition read_time :: "string \<Rightarrow> int" where
  "read_time cs =
     int (value_of 0 (takeWhile (\<lambda>c. c \<noteq> CHR ''.'') cs)) * kMicrosecondsPerSecond +
     int (value_of 0 (tl (dropWhile (\<lambda>c. c \<noteq> CHR ''.'') cs)))"

lemma sdiv_nonneg: "0 \<le> (a :: int) \<Longrightarrow> 0 < b \<Longrightarrow> a sdiv b = a div b"
  by (simp add: signed_divide_int_def sgn_if zero_less_mult_iff)

lemma smod_nonneg: "0 \<le> (a :: int) \<Longrightarrow> 0 < b \<Longrightarrow> a smod b = a mod b"
  by (cases "a = 0") (simp_all add: signed_modulo_int_def)


lemma print_seconds: "0 \<le> i \<Longrightarrow> show_int i = digits (nat i)"
  by (simp add: show_int_def)

lemma print_micros:
  assumes "0 \<le> i" "i < 1000000"
  shows "value_of 0 (show_int0 6 i) = nat i" "length (show_int0 6 i) = 6"
  using assms length_digits [of "nat i" 6] unfolding show_int0_def Let_def
  by (simp_all add: value_of_append value_of_zeros value_of_digits)

lemma Time_ToString_nonneg:
  assumes "0 \<le> t" "fits_int64 t"
  shows "Time_ToString t = digits (nat (t div 1000000)) @ ''.'' @ show_int0 6 (t mod 1000000)"
proof -
  have "nat (t div 1000000) < 10 ^ 13" using assms by (simp add: fits_int64_def)
  then have "length (digits (nat (t div 1000000))) \<le> 13" by (rule length_digits) simp
  moreover have "length (show_int0 6 (t mod 1000000)) = 6" by (rule print_micros) simp_all
  ultimately show ?thesis
    using assms by (simp add: Time_ToString_def kMicrosecondsPerSecond_def sdiv_nonneg smod_nonneg print_seconds)
qed

text \<open>A time that is not before the epoch is printed without truncation, and what is printed
  (seconds, a dot, six digits of microseconds) determines it.\<close>

theorem Time_ToString_roundtrip:
  assumes "0 \<le> t" "fits_int64 t"
  shows "read_time (Time_ToString t) = t"
proof -
  let ?a = "digits (nat (t div 1000000))" and ?b = "show_int0 6 (t mod 1000000)"
  have dot: "\<forall>c \<in> set ?a. c \<noteq> CHR ''.''" using digits_no_dot by blast
  then have "takeWhile (\<lambda>c. c \<noteq> CHR ''.'') (?a @ ''.'' @ ?b) = ?a"
    "dropWhile (\<lambda>c. c \<noteq> CHR ''.'') (?a @ ''.'' @ ?b) = ''.'' @ ?b"
    by (simp_all add: takeWhile_append dropWhile_append)
  moreover have "0 \<le> t div 1000000" using assms(1) by simp
  ultimately show ?thesis
    using print_micros(1) [of "t mod 1000000"] unfolding Time_ToString_nonneg [OF assms] read_time_def
    by (simp add: value_of_digits kMicrosecondsPerSecond_def)
qed

theorem Time_ToString_roundtrip_witness:
  "(0::int) \<le> 1514764800000042 \<and> fits_int64 1514764800000042 \<and>
   read_time (Time_ToString 1514764800000042) = 1514764800000042"
  using Time_ToString_roundtrip [of 1514764800000042] by (simp add: fits_int64_def)

text \<open>\<open>ToMilliSeconds\<close> returns seconds, and \<open>ToSeconds\<close> a thousandth of them: a time of \<open>tt\<close>
  seconds after the epoch has \<open>tt\<close> as its milliseconds. Only \<open>ToTimeT\<close> inverts \<open>FromTimeT\<close>.\<close>

theorem Time_units:
  assumes "FromTimeT tt = Inr t"
  shows "ToTimeT t = tt \<and> ToMilliSeconds t = tt \<and> ToSeconds t = tt sdiv 1000"
  using assms
  by (auto simp: FromTimeT_def ToTimeT_def ToMilliSeconds_def ToSeconds_def res_simps kMicrosecondsPerSecond_def
      signed_divide_int_def abs_mult sgn_mult sgn_mult_abs)

theorem Time_units_witness:
  "FromTimeT 90 = Inr 90000000 \<and> ToTimeT 90000000 = 90 \<and> ToMilliSeconds 90000000 = 90 \<and> ToSeconds 90000000 = 0"
proof -
  have "FromTimeT 90 = Inr 90000000"
    by (simp add: FromTimeT_def fits_int64_def kMicrosecondsPerSecond_def)
  moreover from Time_units [OF this] have "ToTimeT 90000000 = 90 \<and> ToMilliSeconds 90000000 = 90 \<and>
    ToSeconds 90000000 = 90 sdiv 1000" .
  ultimately show ?thesis by (simp add: signed_divide_int_def)
qed

end
