(* ===== verification/Event_Loop.thy ===== *)
theory Event_Loop
  imports Epoll_Timer
begin

text \<open>
  \<open>raner::EventLoop\<close> (\<open>raner/event_loop.h\<close>, \<open>raner/event_loop.cc\<close>): a server, a queue of functors other
  threads add to, and the loop that serves both.

  The operations are functions on \<open>event_loop\<close>. The interleaving of the loop's thread with other threads is
  the step relation \<open>loop_step\<close>: the loop's thread is split where another thread can act between two of its
  accesses to shared data, and another thread's \<open>QueueInLoop\<close> and \<open>Quit\<close> into the write and the wake-up.
\<close>

section \<open>The loop\<close>

text \<open>\<open>'f\<close> is the type of the functors, the \<open>std::function<void()>\<close> in the queue.\<close>

record 'f event_loop =
  looping :: bool
  quit :: bool
  calling_pending_functors :: bool
  iteration :: int
  loop_server :: epoll_server
  pending_functors :: "'f list"

definition kPollTimeMs :: int where
  "kPollTimeMs = 10000"

text \<open>\<open>other\<close>: \<open>t_loopInThisThread\<close> is set.\<close>

definition EventLoop ::
  "env \<Rightarrow> bool \<Rightarrow> fd \<Rightarrow> (fd \<times> fd) option \<Rightarrow> (alarm \<Rightarrow> epoll_alarm) \<Rightarrow> obs list \<Rightarrow> 'f event_loop res" where
  "EventLoop env other epfd fds objs tr =
     bindr (EpollServer env epfd fds objs tr) (\<lambda>s.
     guard LogFatal (\<not> other)
       (Inr \<lparr>looping = False, quit = False, calling_pending_functors = False, iteration = 0,
             loop_server = set_timeout_in_us kPollTimeMs s, pending_functors = []\<rparr>))"

definition AssertInLoopThread :: "bool \<Rightarrow> 'a res \<Rightarrow> 'a res" where
  "AssertInLoopThread in_loop k = guard LogFatal in_loop k"

definition on_server :: "(epoll_server \<Rightarrow> epoll_server res) \<Rightarrow> 'f event_loop \<Rightarrow> 'f event_loop res" where
  "on_server f L = mapr (\<lambda>s. L\<lparr>loop_server := s\<rparr>) (f (loop_server L))"

definition Quit :: "env \<Rightarrow> bool \<Rightarrow> 'f event_loop \<Rightarrow> 'f event_loop res" where
  "Quit env in_loop L =
     (let L1 = L\<lparr>quit := True\<rparr> in if \<not> in_loop then on_server (Wake env) L1 else Inr L1)"

definition push_functor :: "'f \<Rightarrow> 'f event_loop \<Rightarrow> 'f event_loop" where
  "push_functor f L = L\<lparr>pending_functors := pending_functors L @ [f]\<rparr>"

definition QueueInLoop :: "env \<Rightarrow> bool \<Rightarrow> 'f \<Rightarrow> 'f event_loop \<Rightarrow> 'f event_loop res" where
  "QueueInLoop env in_loop f L =
     (let L1 = push_functor f L
      in if \<not> in_loop \<or> calling_pending_functors L1 then on_server (Wake env) L1 else Inr L1)"

definition QueueSize :: "'f event_loop \<Rightarrow> nat" where
  "QueueSize L = length (pending_functors L)"

text \<open>What a functor does is a parameter: the calls it makes on its loop.\<close>

datatype 'f loop_op =
    LQueueInLoop 'f
  | LQuit
  | LServer server_op

type_synonym 'f functor_body = "'f \<Rightarrow> 'f event_loop \<Rightarrow> 'f loop_op list"

fun loop_call :: "env \<Rightarrow> 'f loop_op \<Rightarrow> 'f event_loop \<Rightarrow> 'f event_loop res" where
  "loop_call env (LQueueInLoop f) L = QueueInLoop env True f L"
| "loop_call env LQuit L = Quit env True L"
| "loop_call env (LServer op) L = on_server (exec_op env op) L"

definition call_functor :: "env \<Rightarrow> 'f functor_body \<Rightarrow> 'f \<Rightarrow> 'f event_loop \<Rightarrow> 'f event_loop res" where
  "call_functor env body f L = fold_res (loop_call env) (body f L) L"

definition RunInLoop :: "env \<Rightarrow> 'f functor_body \<Rightarrow> bool \<Rightarrow> 'f \<Rightarrow> 'f event_loop \<Rightarrow> 'f event_loop res" where
  "RunInLoop env body in_loop f L =
     (if in_loop then call_functor env body f L else QueueInLoop env in_loop f L)"

text \<open>\<open>doPendingFunctors\<close>: the flag and the swap, then the calls.\<close>

definition swap_pending :: "'f event_loop \<Rightarrow> 'f list \<times> 'f event_loop" where
  "swap_pending L = (pending_functors L, L\<lparr>calling_pending_functors := True, pending_functors := []\<rparr>)"

definition doPendingFunctors :: "env \<Rightarrow> 'f functor_body \<Rightarrow> 'f event_loop \<Rightarrow> 'f event_loop res" where
  "doPendingFunctors env body L =
     (case swap_pending L of (functors, L1) \<Rightarrow>
      mapr (\<lambda>L2. L2\<lparr>calling_pending_functors := False\<rparr>) (fold_res (call_functor env body) functors L1))"

definition loop_pass :: "nat \<Rightarrow> env \<Rightarrow> 'f event_loop \<Rightarrow> 'f event_loop res" where
  "loop_pass n env L =
     bindr (on_server (WaitForEventsAndExecuteCallbacks n env) L) (\<lambda>L1.
     guard SignedOverflow (fits_int64 (iteration L1 + 1)) (Inr (L1\<lparr>iteration := iteration L1 + 1\<rparr>)))"

definition start_loop :: "'f event_loop \<Rightarrow> 'f event_loop" where
  "start_loop L = L\<lparr>looping := True, quit := False\<rparr>"

text \<open>The loop itself, for at most \<open>m\<close> iterations; \<open>n\<close> bounds the alarm loop of a pass.\<close>

fun loop_iterate :: "nat \<Rightarrow> nat \<Rightarrow> env \<Rightarrow> 'f functor_body \<Rightarrow> 'f event_loop \<Rightarrow> 'f event_loop res" where
  "loop_iterate 0 n env body L = (if quit L then Inr (L\<lparr>looping := False\<rparr>) else Inl OutOfFuel)"
| "loop_iterate (Suc m) n env body L =
     (if quit L then Inr (L\<lparr>looping := False\<rparr>)
      else bindr (loop_pass n env L) (\<lambda>L1.
           bindr (doPendingFunctors env body L1) (loop_iterate m n env body)))"

definition Loop :: "nat \<Rightarrow> nat \<Rightarrow> env \<Rightarrow> 'f functor_body \<Rightarrow> bool \<Rightarrow> 'f event_loop \<Rightarrow> 'f event_loop res" where
  "Loop m n env body in_loop L =
     guard AssertFailed (\<not> looping L) (AssertInLoopThread in_loop (loop_iterate m n env body (start_loop L)))"

definition CreateTimer :: "alarm \<Rightarrow> nat option \<Rightarrow> epoll_timer" where
  "CreateTimer ac c = SetTimerCallback c (EpollTimer ac)"

section \<open>Interleavings\<close>

text \<open>Where the loop's thread is: outside \<open>Loop\<close>; at the test of \<open>quit_\<close>; before a pass; between the pass
  and the swap, with the calls on the loop that the pass's callbacks make; with the functors it still has to
  call. The other threads are represented by the number of them that still have to write to the wake pipe;
  \<open>early\<close>, \<open>queued\<close>, \<open>executed\<close> and \<open>late_passes\<close> only record what happened.\<close>

datatype 'f loop_pc = Outside | Test | BeforeWait | AfterPass | Calling "'f list"

record 'f loop_state =
  lp :: "'f event_loop"
  pc :: "'f loop_pc"
  wakers :: nat
  early :: bool
  queued :: "'f list"
  executed :: "'f list"
  late_passes :: nat

definition initial_state :: "'f event_loop \<Rightarrow> 'f loop_state" where
  "initial_state L =
     \<lparr>lp = L, pc = Outside, wakers = 0, early = False, queued = [], executed = [], late_passes = 0\<rparr>"

fun op_queues :: "'f loop_op \<Rightarrow> 'f list" where
  "op_queues (LQueueInLoop f) = [f]"
| "op_queues _ = []"

fun batch :: "'f loop_pc \<Rightarrow> 'f list" where
  "batch (Calling fs) = fs"
| "batch _ = []"

text \<open>The loop's thread makes calls on the loop outside \<open>Loop\<close>, in callbacks and in functors.\<close>

fun may_call :: "'f loop_pc \<Rightarrow> 'f loop_op \<Rightarrow> bool" where
  "may_call Outside op = True"
| "may_call AfterPass (LServer op) = False"
| "may_call AfterPass op = True"
| "may_call (Calling fs) op = True"
| "may_call _ op = False"

inductive loop_step :: "env \<Rightarrow> 'f loop_state \<Rightarrow> 'f loop_state \<Rightarrow> bool" for env where
  enter: "pc st = Outside \<Longrightarrow> \<not> looping (lp st) \<Longrightarrow>
    loop_step env st (st\<lparr>pc := Test, lp := start_loop (lp st), late_passes := 0\<rparr>)"
| leave: "pc st = Test \<Longrightarrow> quit (lp st) \<Longrightarrow>
    loop_step env st (st\<lparr>pc := Outside, lp := (lp st)\<lparr>looping := False\<rparr>\<rparr>)"
| test: "pc st = Test \<Longrightarrow> \<not> quit (lp st) \<Longrightarrow> loop_step env st (st\<lparr>pc := BeforeWait\<rparr>)"
| pass: "pc st = BeforeWait \<Longrightarrow> loop_pass n env (lp st) = Inr L \<Longrightarrow>
    loop_step env st (st\<lparr>pc := AfterPass, lp := L,
      late_passes := late_passes st + (if quit (lp st) then 1 else 0)\<rparr>)"
| swap: "pc st = AfterPass \<Longrightarrow> swap_pending (lp st) = (fs, L) \<Longrightarrow>
    loop_step env st (st\<lparr>pc := Calling fs, lp := L, early := False\<rparr>)"
| call: "pc st = Calling (f # fs) \<Longrightarrow>
    loop_step env st (st\<lparr>pc := Calling fs, executed := executed st @ [f]\<rparr>)"
| finish: "pc st = Calling [] \<Longrightarrow>
    loop_step env st (st\<lparr>pc := Test, lp := (lp st)\<lparr>calling_pending_functors := False\<rparr>\<rparr>)"
| own: "may_call (pc st) op \<Longrightarrow> loop_call env op (lp st) = Inr L \<Longrightarrow>
    loop_step env st (st\<lparr>lp := L, queued := queued st @ op_queues op,
      early := (early st \<or> pc st = Outside \<and> op_queues op \<noteq> [])\<rparr>)"
| push: "loop_step env st (st\<lparr>lp := push_functor f (lp st), queued := queued st @ [f], wakers := wakers st + 1\<rparr>)"
| set_quit: "loop_step env st (st\<lparr>lp := (lp st)\<lparr>quit := True\<rparr>, wakers := wakers st + 1\<rparr>)"
| wake: "0 < wakers st \<Longrightarrow> on_server (Wake env) (lp st) = Inr L \<Longrightarrow>
    loop_step env st (st\<lparr>lp := L, wakers := wakers st - 1\<rparr>)"

inductive loop_reachable :: "env \<Rightarrow> 'f loop_state \<Rightarrow> bool" for env where
  construct: "EventLoop env False epfd fds (\<lambda>_. EpollAlarm) [] = Inr L \<Longrightarrow> loop_reachable env (initial_state L)"
| step: "loop_reachable env st \<Longrightarrow> loop_step env st st' \<Longrightarrow> loop_reachable env st'"

section \<open>Functors\<close>

lemma on_server_Inr:
  "on_server f L = Inr L' \<longleftrightarrow> (\<exists>s. f (loop_server L) = Inr s \<and> L' = L\<lparr>loop_server := s\<rparr>)"
  by (auto simp: on_server_def res_simps)

lemma loop_pass_Inr:
  assumes "loop_pass n env L = Inr L'"
  obtains s where "WaitForEventsAndExecuteCallbacks n env (loop_server L) = Inr s"
    "L' = L\<lparr>loop_server := s, iteration := iteration L + 1\<rparr>"
  using assms by (auto simp: loop_pass_def on_server_Inr res_simps)

lemma loop_call_fields:
  assumes "loop_call env op L = Inr L'"
  shows "looping L' = looping L" "calling_pending_functors L' = calling_pending_functors L"
    "pending_functors L' = pending_functors L @ op_queues op" "quit L' = (quit L \<or> op = LQuit)"
  using assms
  by (cases op; auto simp: QueueInLoop_def Quit_def push_functor_def on_server_Inr Let_def split: if_splits)+

definition fifo_inv :: "'f loop_state \<Rightarrow> bool" where
  "fifo_inv st \<longleftrightarrow> queued st = executed st @ batch (pc st) @ pending_functors (lp st) \<and>
     (calling_pending_functors (lp st) \<longleftrightarrow> (\<exists>fs. pc st = Calling fs)) \<and>
     (looping (lp st) \<longleftrightarrow> pc st \<noteq> Outside)"

lemma fifo_inv_step:
  assumes "loop_step env st st'" "fifo_inv st"
  shows "fifo_inv st'"
  using assms
proof cases
  case (own op L)
  with loop_call_fields [OF own(3)] show ?thesis using assms(2) by (auto simp: fifo_inv_def)
next
  case (wake L)
  then show ?thesis using assms(2) by (auto simp: fifo_inv_def on_server_Inr)
qed (auto simp: fifo_inv_def start_loop_def swap_pending_def push_functor_def elim!: loop_pass_Inr)

lemma EventLoop_fields:
  assumes "EventLoop env other epfd fds objs tr = Inr L"
  obtains s where "EpollServer env epfd fds objs tr = Inr s"
    "L = \<lparr>looping = False, quit = False, calling_pending_functors = False, iteration = 0,
          loop_server = set_timeout_in_us kPollTimeMs s, pending_functors = []\<rparr>"
  using assms by (auto simp: EventLoop_def res_simps)

text \<open>C8: whatever other threads queue and whenever they do it, and whatever callbacks and functors queue
  themselves, the functors called by the loop are exactly the functors queued, each once and in the order in
  which they entered the queue; what is not called yet is still to be called in the current batch or waits in
  the queue.\<close>

theorem functors_fifo:
  assumes "loop_reachable env st"
  shows "queued st = executed st @ batch (pc st) @ pending_functors (lp st)"
proof -
  have "fifo_inv st"
    using assms
  proof induction
    case (construct epfd fds L)
    then show ?case by (auto simp: fifo_inv_def initial_state_def elim!: EventLoop_fields)
  qed (rule fifo_inv_step)
  then show ?thesis by (simp add: fifo_inv_def)
qed

text \<open>A loop in a concrete environment, with a functor that another thread has just queued.\<close>

definition demo_loop :: "nat event_loop" where
  "demo_loop = projr (EventLoop demo_env False 3 (Some (4, 5)) (\<lambda>_. EpollAlarm) [])"

lemma demo_loop_ok: "EventLoop demo_env False 3 (Some (4, 5)) (\<lambda>_. EpollAlarm) [] = Inr demo_loop"
proof -
  have "isl (EventLoop demo_env False 3 (Some (4, 5)) (\<lambda>_. EpollAlarm) [] :: nat event_loop res) = False"
    by code_simp
  then show ?thesis by (simp add: demo_loop_def)
qed

definition demo_waiting :: "nat loop_state" where
  "demo_waiting = (initial_state demo_loop)\<lparr>pc := BeforeWait, lp := push_functor 7 (start_loop demo_loop),
     queued := [7], wakers := 1\<rparr>"

lemma demo_loop_fields: "\<not> looping demo_loop \<and> pending_functors demo_loop = []"
proof (rule EventLoop_fields [OF demo_loop_ok])
  fix s
  assume eq: "demo_loop = \<lparr>looping = False, quit = False, calling_pending_functors = False, iteration = 0,
    loop_server = set_timeout_in_us kPollTimeMs s, pending_functors = []\<rparr>"
  show ?thesis unfolding eq by simp
qed

lemma demo_waiting_reachable: "loop_reachable demo_env demo_waiting"
proof -
  let ?s0 = "initial_state demo_loop"
  let ?s1 = "?s0\<lparr>pc := Test, lp := start_loop (lp ?s0), late_passes := 0\<rparr>"
  let ?s2 = "?s1\<lparr>pc := BeforeWait\<rparr>"
  have "loop_reachable demo_env ?s0" by (rule loop_reachable.construct [OF demo_loop_ok])
  from loop_reachable.step [OF this loop_step.enter] have "loop_reachable demo_env ?s1"
    by (simp add: initial_state_def demo_loop_fields)
  from loop_reachable.step [OF this loop_step.test] have "loop_reachable demo_env ?s2"
    by (simp add: start_loop_def)
  from loop_reachable.step [OF this loop_step.push [where f = 7]] show ?thesis
    by (simp add: demo_waiting_def initial_state_def)
qed

theorem functors_fifo_witness:
  "loop_reachable demo_env demo_waiting \<and>
   queued demo_waiting = executed demo_waiting @ batch (pc demo_waiting) @ pending_functors (lp demo_waiting) \<and>
   queued demo_waiting = [7]"
proof (intro conjI demo_waiting_reachable functors_fifo [OF demo_waiting_reachable])
  show "queued demo_waiting = [7]" by (simp add: demo_waiting_def)
qed

section \<open>Wake-ups\<close>

lemma Wake_pipe:
  assumes "\<forall>tr. sys_write env tr = 1" "Wake env s = Inr s'"
  shows "pipe_bytes s' = pipe_bytes s + 1"
  using assms by (auto simp: Wake_def Let_def dcheck_def guard_def observe_def split: if_splits)

lemma RegisterAlarm_pipe: "pipe_frame.keeps s (RegisterAlarm env t acopt s)"
  by (simp add: RegisterAlarm_def EpollAlarm_OnRegistration_def modify_alarm_def guard_def dcheck_def Let_def
      observe_def split: option.split)

lemma UnregisterIfRegistered_pipe: "pipe_frame.keeps s (UnregisterIfRegistered ac s)"
  by (auto simp: UnregisterIfRegistered_def UnregisterAlarm_def EpollAlarm_OnUnregistration_def
      modify_alarm_def guard_def alarm_find_def alarm_erase_def Let_def observe_def split: option.split)

lemma exec_op_pipe:
  assumes "\<forall>tr. sys_write env tr = 1"
  shows "res_inv (\<lambda>s'. pipe_bytes s \<le> pipe_bytes s') (exec_op env op s)"
proof (cases "op = OpWake")
  case True
  then show ?thesis using Wake_pipe [OF assms, of s] by (cases "Wake env s") auto
next
  case False
  have "pipe_frame.keeps s (exec_op env op s)"
    using False by (cases op) (simp_all add: pipe_frame.keeps_ops RegisterAlarm_pipe UnregisterIfRegistered_pipe
        ModifyCallback_def StopRead_def StartRead_def StopWrite_def StartWrite_def)
  then show ?thesis by (rule res_inv_mono) simp
qed

definition announced :: "'f loop_state \<Rightarrow> bool" where
  "announced st \<longleftrightarrow> 0 < wakers st \<or> 0 < pipe_bytes (loop_server (lp st))"

definition wake_inv :: "'f loop_state \<Rightarrow> bool" where
  "wake_inv st \<longleftrightarrow> fifo_inv st \<and>
     (pc st \<noteq> AfterPass \<longrightarrow> pending_functors (lp st) \<noteq> [] \<longrightarrow> early st \<or> announced st) \<and>
     (pc st = BeforeWait \<longrightarrow> quit (lp st) \<longrightarrow> announced st)"

lemma loop_call_pipe:
  assumes "\<forall>tr. sys_write env tr = 1" "loop_call env op L = Inr L'"
  shows "pipe_bytes (loop_server L) \<le> pipe_bytes (loop_server L')"
    and "calling_pending_functors L \<Longrightarrow> op_queues op \<noteq> [] \<Longrightarrow> 0 < pipe_bytes (loop_server L')"
proof -
  have exec: "pipe_bytes s \<le> pipe_bytes s'" if "exec_op env sop s = Inr s'" for sop s s'
    using exec_op_pipe [OF assms(1), of s sop] that by simp
  show "pipe_bytes (loop_server L) \<le> pipe_bytes (loop_server L')"
    using assms(2) by (cases op) (auto simp: QueueInLoop_def Quit_def push_functor_def on_server_Inr Let_def
        dest!: Wake_pipe [OF assms(1)] exec split: if_splits)
  show "0 < pipe_bytes (loop_server L')" if "calling_pending_functors L" "op_queues op \<noteq> []"
    using assms(2) that by (cases op) (auto simp: QueueInLoop_def push_functor_def on_server_Inr Let_def
        dest!: Wake_pipe [OF assms(1)])
qed

lemma wake_inv_step:
  assumes wr: "\<forall>tr. sys_write env tr = 1" and step: "loop_step env st st'" and inv: "wake_inv st"
  shows "wake_inv st'"
proof -
  have fifo: "fifo_inv st'" using fifo_inv_step [OF step] inv by (simp add: wake_inv_def)
  from step show ?thesis
  proof cases
    case (own op L)
    from loop_call_fields [OF own(3)] loop_call_pipe [OF wr own(3)] show ?thesis
      using inv fifo own by (cases "pc st") (auto simp: wake_inv_def fifo_inv_def announced_def)
  next
    case (wake L)
    then obtain s where s: "Wake env (loop_server (lp st)) = Inr s" "L = (lp st)\<lparr>loop_server := s\<rparr>"
      by (auto simp: on_server_Inr)
    from Wake_pipe [OF wr s(1)] show ?thesis
      using inv fifo wake s by (auto simp: wake_inv_def announced_def)
  qed (use inv fifo in \<open>auto simp: wake_inv_def announced_def start_loop_def swap_pending_def push_functor_def\<close>)
qed


lemma demo_write: "\<forall>tr. sys_write demo_env tr = 1"
  by (simp add: demo_env_def)


section \<open>Quitting\<close>

definition quit_inv :: "'f loop_state \<Rightarrow> bool" where
  "quit_inv st \<longleftrightarrow> late_passes st \<le> 1 \<and> (0 < late_passes st \<longrightarrow> quit (lp st) \<and> pc st \<noteq> BeforeWait)"

lemma quit_inv_step:
  assumes "loop_step env st st'" "quit_inv st"
  shows "quit_inv st'"
  using assms
proof cases
  case (own op L)
  with loop_call_fields [OF own(3)] show ?thesis using assms(2) by (auto simp: quit_inv_def)
next
  case (wake L)
  then show ?thesis using assms(2) by (auto simp: quit_inv_def on_server_Inr)
qed (auto simp: quit_inv_def start_loop_def swap_pending_def push_functor_def elim!: loop_pass_Inr)

text \<open>C27: after \<open>Quit\<close>, from whichever thread, the running loop begins at most one more pass, and the
  flag stays set until the loop has ended.\<close>

theorem quit_bounded:
  assumes "loop_reachable env st"
  shows "late_passes st \<le> 1 \<and> (0 < late_passes st \<longrightarrow> quit (lp st))"
proof -
  have "quit_inv st"
    using assms
  proof induction
    case (construct epfd fds L)
    then show ?case by (simp add: quit_inv_def initial_state_def)
  qed (rule quit_inv_step)
  then show ?thesis by (simp add: quit_inv_def)
qed

theorem quit_bounded_witness:
  "loop_reachable demo_env (demo_waiting\<lparr>lp := (lp demo_waiting)\<lparr>quit := True\<rparr>, wakers := 2\<rparr>) \<and>
   late_passes (demo_waiting\<lparr>lp := (lp demo_waiting)\<lparr>quit := True\<rparr>, wakers := 2\<rparr>) \<le> 1"
proof -
  have st: "loop_reachable demo_env (demo_waiting\<lparr>lp := (lp demo_waiting)\<lparr>quit := True\<rparr>, wakers := 2\<rparr>)"
    using loop_reachable.step [OF demo_waiting_reachable loop_step.set_quit]
    by (simp add: demo_waiting_def numeral_2_eq_2)
  from quit_bounded [OF st] st show ?thesis by (intro conjI) simp_all
qed

section \<open>The sequential loop\<close>

text \<open>A loop that runs without interference is a run of the interleaved system.\<close>

abbreviation steps :: "env \<Rightarrow> 'f loop_state \<Rightarrow> 'f loop_state \<Rightarrow> bool" where
  "steps env \<equiv> (loop_step env)\<^sup>*\<^sup>*"

lemma own_steps:
  assumes "fold_res (loop_call env) ops (lp st) = Inr L" "pc st = Calling fs"
  shows "\<exists>qs. steps env st (st\<lparr>lp := L, queued := queued st @ qs\<rparr>)"
  using assms
proof (induction ops arbitrary: st)
  case (Cons op ops)
  then obtain L1 where L1: "loop_call env op (lp st) = Inr L1" "fold_res (loop_call env) ops L1 = Inr L"
    by (auto simp: res_simps)
  let ?st = "st\<lparr>lp := L1, queued := queued st @ op_queues op\<rparr>"
  have "loop_step env st ?st"
    using loop_step.own [of st op env L1] L1(1) Cons.prems(2) by simp
  moreover from Cons.IH [of ?st] L1(2) Cons.prems(2) obtain qs where
    "steps env ?st (?st\<lparr>lp := L, queued := queued ?st @ qs\<rparr>)" by auto
  ultimately have "steps env st (?st\<lparr>lp := L, queued := queued ?st @ qs\<rparr>)"
    by (rule converse_rtranclp_into_rtranclp)
  then show ?case by (intro exI [of _ "op_queues op @ qs"]) simp
qed (auto intro: exI [of _ "[]"])

lemma calling_steps:
  assumes "fold_res (call_functor env body) fs (lp st) = Inr L" "pc st = Calling fs"
  shows "\<exists>qs. steps env st (st\<lparr>lp := L, pc := Calling [], queued := queued st @ qs, executed := executed st @ fs\<rparr>)"
  using assms
proof (induction fs arbitrary: st)
  case (Cons f fs)
  then obtain L1 where "call_functor env body f (lp st) = Inr L1"
    and L1: "fold_res (call_functor env body) fs L1 = Inr L"
    by (auto simp: res_simps)
  then have f: "fold_res (loop_call env) (body f (lp st)) (lp st) = Inr L1"
    by (simp add: call_functor_def)
  let ?st = "st\<lparr>pc := Calling fs, executed := executed st @ [f]\<rparr>"
  have "loop_step env st ?st" using Cons.prems(2) by (rule loop_step.call)
  moreover from own_steps [of env "body f (lp st)" ?st L1 fs] f obtain qs where
    "steps env ?st (?st\<lparr>lp := L1, queued := queued ?st @ qs\<rparr>)" by auto
  moreover from Cons.IH [of "?st\<lparr>lp := L1, queued := queued ?st @ qs\<rparr>"] L1 obtain qs' where
    "steps env (?st\<lparr>lp := L1, queued := queued ?st @ qs\<rparr>)
      (?st\<lparr>lp := L, pc := Calling [], queued := queued st @ qs @ qs', executed := executed st @ f # fs\<rparr>)" by auto
  ultimately have "steps env st (?st\<lparr>lp := L, pc := Calling [], queued := queued st @ qs @ qs',
      executed := executed st @ f # fs\<rparr>)"
    by (meson converse_rtranclp_into_rtranclp rtranclp_trans)
  then show ?case by (intro exI [of _ "qs @ qs'"]) simp
next
  case (Nil st)
  then have "st\<lparr>lp := L, pc := Calling [], queued := queued st @ [], executed := executed st @ []\<rparr> = st"
    by (cases st) simp
  then show ?case by (metis rtranclp.rtrancl_refl)
qed

lemma doPendingFunctors_steps:
  assumes "doPendingFunctors env body (lp st) = Inr L" "pc st = AfterPass"
  shows "\<exists>st'. steps env st st' \<and> lp st' = L \<and> pc st' = Test"
proof -
  obtain fs L1 L2 where L: "swap_pending (lp st) = (fs, L1)" "fold_res (call_functor env body) fs L1 = Inr L2"
    "L = L2\<lparr>calling_pending_functors := False\<rparr>"
    using assms(1) by (auto simp: doPendingFunctors_def res_simps split: prod.splits)
  let ?st1 = "st\<lparr>pc := Calling fs, lp := L1, early := False\<rparr>"
  have "loop_step env st ?st1" using assms(2) L(1) by (rule loop_step.swap)
  moreover from calling_steps [of env body fs ?st1 L2] L(2) obtain qs where
    "steps env ?st1 (?st1\<lparr>lp := L2, pc := Calling [], queued := queued st @ qs, executed := executed st @ fs\<rparr>)"
    (is "steps env _ ?st2") by auto
  moreover have "loop_step env ?st2 (?st2\<lparr>pc := Test, lp := (lp ?st2)\<lparr>calling_pending_functors := False\<rparr>\<rparr>)"
    (is "loop_step env _ ?st3") by (rule loop_step.finish) simp
  ultimately have "steps env st ?st3"
    by (meson converse_rtranclp_into_rtranclp rtranclp.rtrancl_into_rtrancl)
  then show ?thesis using L(3) by (intro exI [of _ ?st3]) simp
qed

lemma loop_iterate_steps:
  assumes "loop_iterate m n env body (lp st) = Inr L" "pc st = Test"
  shows "\<exists>st'. steps env st st' \<and> lp st' = L \<and> pc st' = Outside"
  using assms
proof (induction m arbitrary: st)
  case (Suc m)
  show ?case
  proof (cases "quit (lp st)")
    case True
    from loop_step.leave [OF Suc.prems(2) True] have
      "steps env st (st\<lparr>pc := Outside, lp := (lp st)\<lparr>looping := False\<rparr>\<rparr>)" by blast
    then show ?thesis using Suc.prems True by auto
  next
    case False
    with Suc.prems obtain L1 L2 where L: "loop_pass n env (lp st) = Inr L1"
      "doPendingFunctors env body L1 = Inr L2" "loop_iterate m n env body L2 = Inr L"
      by (auto simp: res_simps)
    let ?st1 = "st\<lparr>pc := BeforeWait\<rparr>"
    let ?st2 = "?st1\<lparr>pc := AfterPass, lp := L1, late_passes := late_passes st\<rparr>"
    have "loop_step env st ?st1" using Suc.prems(2) False by (rule loop_step.test)
    moreover have "loop_step env ?st1 ?st2"
      using loop_step.pass [of ?st1 n env L1] L(1) False by simp
    moreover from doPendingFunctors_steps [of env body ?st2 L2] L(2) obtain st3 where
      st3: "steps env ?st2 st3" "lp st3 = L2" "pc st3 = Test" by auto
    moreover from Suc.IH [of st3] st3 L(3) obtain st4 where
      st4: "steps env st3 st4" "lp st4 = L" "pc st4 = Outside" by auto
    ultimately have "steps env st st4" by (meson converse_rtranclp_into_rtranclp rtranclp_trans)
    then show ?thesis using st4(2,3) by blast
  qed
qed (auto split: if_splits intro!: exI [of _ "st\<lparr>pc := Outside, lp := (lp st)\<lparr>looping := False\<rparr>\<rparr>" for st]
    loop_step.leave)


text \<open>A loop whose only functor calls \<open>Quit\<close> ends after one iteration.\<close>

definition demo_quit :: "nat event_loop res" where
  "demo_quit = Loop 1 0 demo_env (\<lambda>_ _. [LQuit]) True (push_functor 7 demo_loop)"


section \<open>The server of the loop\<close>

lemma loop_call_server:
  assumes "loop_call env op L = Inr L'"
  shows "loop_server L' = loop_server L \<or> (\<exists>sop. exec_op env sop (loop_server L) = Inr (loop_server L'))"
  using assms
  by (cases op) (auto simp: QueueInLoop_def Quit_def push_functor_def on_server_Inr Let_def
      intro: exI [of _ OpWake] split: if_splits)

lemma loop_server_reachable:
  assumes "loop_reachable env st"
  shows "reachable env (loop_server (lp st))"
  using assms
proof induction
  case (construct epfd fds L)
  then obtain s where s: "EpollServer env epfd fds (\<lambda>_. EpollAlarm) [] = Inr s"
    "loop_server L = set_timeout_in_us kPollTimeMs s" by (auto elim!: EventLoop_fields)
  have "reachable env (set_timeout_in_us kPollTimeMs s)"
    by (rule reachable.step [OF reachable.construct [OF s(1)], of "SetTimeout kPollTimeMs"]) simp
  then show ?case by (simp add: initial_state_def s(2))
next
  case (step st st')
  have op: "reachable env s" if "exec_op env sop (loop_server (lp st)) = Inr s" for sop s
    by (rule reachable.step [OF step.IH, of "Call sop"]) (simp add: that)
  from step.hyps(2) show ?case
  proof cases
    case (own op' L)
    with loop_call_server [OF own(3)] op step.IH show ?thesis by auto
  next
    case (wake L)
    then show ?thesis using op [of OpWake] by (auto simp: on_server_Inr)
  next
    case (pass n L)
    then obtain s where "WaitForEventsAndExecuteCallbacks n env (loop_server (lp st)) = Inr s" "loop_server L = s"
      by (auto elim!: loop_pass_Inr)
    then show ?thesis using reachable.step [OF step.IH, of "Pass n"] pass by simp
  qed (use step.IH in \<open>auto simp: start_loop_def swap_pending_def push_functor_def\<close>)
qed

end
