(* ===== verification/Loop_Threads.thy ===== *)
theory Loop_Threads
  imports Event_Loop
begin

text \<open>
  \<open>raner::EventLoopThread\<close> (\<open>raner/event_loop_thread.h\<close>, \<open>raner/event_loop_thread.cc\<close>) as a step relation
  between the thread that owns the object and the thread it starts, and \<open>raner::EventLoopThreadPool\<close>
  (\<open>raner/event_loop_thread_pool.h\<close>, \<open>raner/event_loop_thread_pool.cc\<close>).
\<close>

section \<open>A thread with a loop\<close>

text \<open>The owner: before \<open>StartLoop\<close>; waiting on the condition variable; after the wait, before \<open>loop_\<close> is read
  again for the result; with the result; in the destructor before \<open>QueueInLoop\<close> and before \<open>join\<close>; after it.
  \<open>Terminated\<close>: the destructor of a joinable \<open>std::thread\<close> called \<open>std::terminate\<close>; \<open>Dangling\<close>: the
  destructor used a loop that no longer exists.\<close>

datatype owner_pc =
  Fresh | Waiting | Returning | Started bool | DtorQueue | DtorJoin | Destroyed | Terminated | Dangling

text \<open>The started thread, by the statement of \<open>run\<close> it is at.\<close>

datatype run_pc = NoThread | Construct | InitCallback | Publish | Looping | Clear | Unwind | Finished

record loop_thread =
  owner :: owner_pc
  runner :: run_pc
  loop_set :: bool        \<comment> \<open>\<open>loop_ != NULL\<close>\<close>
  exiting :: bool
  loop_alive :: bool      \<comment> \<open>the local variable \<open>loop\<close> of \<open>run\<close> exists\<close>
  quit_queued :: bool     \<comment> \<open>the destructor's functor is in the loop's queue\<close>
  self_quit :: bool       \<comment> \<open>a callback or functor called \<open>Quit\<close> on the loop\<close>

definition EventLoopThread :: loop_thread where
  "EventLoopThread = \<lparr>owner = Fresh, runner = NoThread, loop_set = False, exiting = False,
     loop_alive = False, quit_queued = False, self_quit = False\<rparr>"

inductive StartLoop_step :: "loop_thread \<Rightarrow> loop_thread \<Rightarrow> bool" where
  create: "owner t = Fresh \<Longrightarrow> StartLoop_step t (t\<lparr>owner := Waiting, runner := Construct\<rparr>)"
| wait: "owner t = Waiting \<Longrightarrow> loop_set t \<Longrightarrow> StartLoop_step t (t\<lparr>owner := Returning\<rparr>)"
| return: "owner t = Returning \<Longrightarrow> StartLoop_step t (t\<lparr>owner := Started (loop_set t)\<rparr>)"

inductive run_thread_step :: "loop_thread \<Rightarrow> loop_thread \<Rightarrow> bool" where
  construct: "runner t = Construct \<Longrightarrow> run_thread_step t (t\<lparr>runner := InitCallback, loop_alive := True\<rparr>)"
| callback: "runner t = InitCallback \<Longrightarrow> run_thread_step t (t\<lparr>runner := Publish\<rparr>)"
| publish: "runner t = Publish \<Longrightarrow> run_thread_step t (t\<lparr>runner := Looping, loop_set := True\<rparr>)"
| quits: "runner t = Looping \<Longrightarrow> \<not> self_quit t \<Longrightarrow> run_thread_step t (t\<lparr>self_quit := True\<rparr>)"
| looped: "runner t = Looping \<Longrightarrow> quit_queued t \<or> self_quit t \<Longrightarrow> run_thread_step t (t\<lparr>runner := Clear\<rparr>)"
| clear: "runner t = Clear \<Longrightarrow> run_thread_step t (t\<lparr>runner := Unwind, loop_set := False\<rparr>)"
| unwind: "runner t = Unwind \<Longrightarrow> run_thread_step t (t\<lparr>runner := Finished, loop_alive := False\<rparr>)"

inductive destroy_step :: "loop_thread \<Rightarrow> loop_thread \<Rightarrow> bool" where
  unstarted: "owner t = Fresh \<Longrightarrow> destroy_step t (t\<lparr>exiting := True, owner := Destroyed\<rparr>)"
| loop_gone: "owner t = Started b \<Longrightarrow> \<not> loop_set t \<Longrightarrow>
    destroy_step t (t\<lparr>exiting := True, owner := Terminated\<rparr>)"
| loop_there: "owner t = Started b \<Longrightarrow> loop_set t \<Longrightarrow>
    destroy_step t (t\<lparr>exiting := True, owner := DtorQueue\<rparr>)"
| queue_quit: "owner t = DtorQueue \<Longrightarrow> loop_alive t \<Longrightarrow>
    destroy_step t (t\<lparr>quit_queued := True, owner := DtorJoin\<rparr>)"
| queue_dangling: "owner t = DtorQueue \<Longrightarrow> \<not> loop_alive t \<Longrightarrow> destroy_step t (t\<lparr>owner := Dangling\<rparr>)"
| join: "owner t = DtorJoin \<Longrightarrow> runner t = Finished \<Longrightarrow> destroy_step t (t\<lparr>owner := Destroyed\<rparr>)"

definition thread_step :: "loop_thread \<Rightarrow> loop_thread \<Rightarrow> bool" where
  "thread_step t t' \<longleftrightarrow> StartLoop_step t t' \<or> run_thread_step t t' \<or> destroy_step t t'"

inductive thread_reachable :: "loop_thread \<Rightarrow> bool" where
  init: "thread_reachable EventLoopThread"
| step: "thread_reachable t \<Longrightarrow> thread_step t t' \<Longrightarrow> thread_reachable t'"

inductive_cases StartLoop_stepE: "StartLoop_step t t'"
inductive_cases run_thread_stepE: "run_thread_step t t'"
inductive_cases destroy_stepE: "destroy_step t t'"

definition thread_inv :: "loop_thread \<Rightarrow> bool" where
  "thread_inv t \<longleftrightarrow>
     (runner t = NoThread \<longrightarrow> owner t \<in> {Fresh, Destroyed}) \<and>
     (owner t = Fresh \<longrightarrow> runner t = NoThread) \<and>
     (quit_queued t \<longrightarrow> owner t \<in> {DtorJoin, Destroyed}) \<and>
     (loop_set t \<longleftrightarrow> runner t \<in> {Looping, Clear}) \<and>
     (loop_alive t \<longleftrightarrow> runner t \<in> {InitCallback, Publish, Looping, Clear, Unwind}) \<and>
     (owner t = DtorJoin \<longrightarrow> quit_queued t) \<and>
     (owner t = Destroyed \<longrightarrow> runner t \<in> {NoThread, Finished}) \<and>
     (\<not> self_quit t \<longrightarrow>
        (owner t \<notin> {Fresh, Waiting, DtorJoin, Destroyed} \<longrightarrow> runner t = Looping) \<and>
        (runner t \<in> {Clear, Unwind, Finished} \<longrightarrow> quit_queued t) \<and>
        owner t \<notin> {Started False, Terminated, Dangling})"

lemma thread_inv_step:
  assumes "thread_step t t'" "thread_inv t"
  shows "thread_inv t'"
  using assms unfolding thread_step_def
  by (elim disjE StartLoop_stepE run_thread_stepE destroy_stepE) (auto simp: thread_inv_def)

lemma thread_reachable_inv: "thread_reachable t \<Longrightarrow> thread_inv t"
proof (induction rule: thread_reachable.induct)
  case init
  show ?case by (simp add: thread_inv_def EventLoopThread_def)
qed (rule thread_inv_step)


lemma thread_reachable_steps: "thread_step\<^sup>*\<^sup>* t t' \<Longrightarrow> thread_reachable t \<Longrightarrow> thread_reachable t'"
  by (induction rule: rtranclp_induct) (auto intro: thread_reachable.step)

text \<open>A started object: the loop is published and the owner has it.\<close>

definition demo_started :: loop_thread where
  "demo_started = EventLoopThread\<lparr>owner := Started True, runner := Looping, loop_set := True, loop_alive := True\<rparr>"

lemmas thread_intros = StartLoop_step.intros run_thread_step.intros destroy_step.intros

lemma step_owner: "StartLoop_step t t' \<Longrightarrow> thread_step t t'"
  and step_runner: "run_thread_step t t' \<Longrightarrow> thread_step t t'"
  and step_destroy: "destroy_step t t' \<Longrightarrow> thread_step t t'"
  by (simp_all add: thread_step_def)

lemma demo_waiting_published:
  "thread_reachable (EventLoopThread\<lparr>owner := Waiting, runner := Looping, loop_set := True, loop_alive := True\<rparr>)"
proof -
  let ?t1 = "EventLoopThread\<lparr>owner := Waiting, runner := Construct\<rparr>"
  let ?t2 = "?t1\<lparr>runner := InitCallback, loop_alive := True\<rparr>"
  let ?t3 = "?t2\<lparr>runner := Publish\<rparr>"
  have "thread_reachable ?t1"
    by (rule thread_reachable.step [OF thread_reachable.init step_owner [OF StartLoop_step.create]])
      (simp add: EventLoopThread_def)
  from thread_reachable.step [OF this step_runner [OF run_thread_step.construct]] have "thread_reachable ?t2" by simp
  from thread_reachable.step [OF this step_runner [OF run_thread_step.callback]] have "thread_reachable ?t3" by simp
  from thread_reachable.step [OF this step_runner [OF run_thread_step.publish]] show ?thesis
    by (simp add: EventLoopThread_def)
qed

lemma demo_started_reachable: "thread_reachable demo_started"
proof -
  let ?t = "EventLoopThread\<lparr>owner := Waiting, runner := Looping, loop_set := True, loop_alive := True\<rparr>"
  have "thread_reachable (?t\<lparr>owner := Returning\<rparr>)"
    using thread_reachable.step [OF demo_waiting_published step_owner [OF StartLoop_step.wait]] by simp
  from thread_reachable.step [OF this step_owner [OF StartLoop_step.return]] show ?thesis
    by (simp add: demo_started_def EventLoopThread_def)
qed


fun owner_rank :: "owner_pc \<Rightarrow> nat" where
  "owner_rank Fresh = 12"
| "owner_rank Waiting = 5"
| "owner_rank Returning = 4"
| "owner_rank (Started b) = 3"
| "owner_rank DtorQueue = 2"
| "owner_rank DtorJoin = 1"
| "owner_rank _ = 0"

fun run_rank :: "run_pc \<Rightarrow> nat" where
  "run_rank NoThread = 7"
| "run_rank Construct = 6"
| "run_rank InitCallback = 5"
| "run_rank Publish = 4"
| "run_rank Looping = 3"
| "run_rank Clear = 2"
| "run_rank Unwind = 1"
| "run_rank Finished = 0"

definition thread_rank :: "loop_thread \<Rightarrow> nat" where
  "thread_rank t = owner_rank (owner t) + run_rank (runner t) + (if self_quit t then 0 else 1)"

lemma thread_step_rank: "thread_step t t' \<Longrightarrow> thread_rank t' < thread_rank t"
  unfolding thread_step_def thread_rank_def
  by (elim disjE StartLoop_stepE run_thread_stepE destroy_stepE) auto

text \<open>The steps of a thread that leave \<open>self_quit\<close> alone.\<close>

definition quiet_step :: "loop_thread \<Rightarrow> loop_thread \<Rightarrow> bool" where
  "quiet_step t t' \<longleftrightarrow> thread_step t t' \<and> self_quit t' = self_quit t"

lemma quiet_stepI:
  "StartLoop_step t t' \<Longrightarrow> self_quit t' = self_quit t \<Longrightarrow> \<exists>t'. quiet_step t t'"
  "run_thread_step t t' \<Longrightarrow> self_quit t' = self_quit t \<Longrightarrow> \<exists>t'. quiet_step t t'"
  "destroy_step t t' \<Longrightarrow> self_quit t' = self_quit t \<Longrightarrow> \<exists>t'. quiet_step t t'"
  by (auto simp: quiet_step_def thread_step_def)

lemma runner_moves: "runner t \<notin> {NoThread, Looping, Finished} \<Longrightarrow> \<exists>t'. quiet_step t t'"
  by (cases "runner t") (auto intro: quiet_stepI(2) [OF run_thread_step.construct]
      quiet_stepI(2) [OF run_thread_step.callback] quiet_stepI(2) [OF run_thread_step.publish]
      quiet_stepI(2) [OF run_thread_step.clear] quiet_stepI(2) [OF run_thread_step.unwind])

lemma owner_moves:
  assumes "thread_inv t" "\<not> self_quit t" "runner t \<in> {NoThread, Looping, Finished}" "owner t \<noteq> Destroyed"
  shows "\<exists>t'. quiet_step t t'"
proof -
  have safe: "owner t \<noteq> Terminated" "owner t \<noteq> Dangling" using assms(1,2) by (simp_all add: thread_inv_def)
  show ?thesis
  proof (cases "owner t")
    case Fresh
    then show ?thesis by (auto intro: quiet_stepI(1) [OF StartLoop_step.create])
  next
    case Waiting
    then have "loop_set t" using assms by (auto simp: thread_inv_def)
    then show ?thesis using Waiting by (auto intro: quiet_stepI(1) [OF StartLoop_step.wait])
  next
    case Returning
    then show ?thesis by (auto intro: quiet_stepI(1) [OF StartLoop_step.return])
  next
    case (Started b)
    then have "loop_set t" using assms by (auto simp: thread_inv_def)
    then show ?thesis using Started by (auto intro: quiet_stepI(3) [OF destroy_step.loop_there])
  next
    case DtorQueue
    then have "loop_alive t" using assms by (auto simp: thread_inv_def)
    then show ?thesis using DtorQueue by (auto intro: quiet_stepI(3) [OF destroy_step.queue_quit])
  next
    case DtorJoin
    then have quit: "quit_queued t" using assms by (simp add: thread_inv_def)
    show ?thesis
    proof (cases "runner t = Finished")
      case True
      from quiet_stepI(3) [OF destroy_step.join [OF DtorJoin this]] show ?thesis by simp
    next
      case False
      then have "runner t = Looping"
        using assms(1,3) DtorJoin by (cases "runner t") (simp_all add: thread_inv_def)
      from quiet_stepI(2) [OF run_thread_step.looped [OF this]] quit show ?thesis by simp
    qed
  qed (use assms(4) safe in simp_all)
qed


definition demo_joined :: loop_thread where
  "demo_joined = demo_started\<lparr>exiting := True, quit_queued := True, loop_set := False, runner := Finished,
     loop_alive := False, owner := Destroyed\<rparr>"

lemma demo_joined_reachable: "thread_reachable demo_joined"
proof -
  let ?t1 = "demo_started\<lparr>exiting := True, owner := DtorQueue\<rparr>"
  let ?t2 = "?t1\<lparr>quit_queued := True, owner := DtorJoin\<rparr>"
  let ?t3 = "?t2\<lparr>runner := Clear\<rparr>"
  let ?t4 = "?t3\<lparr>runner := Unwind, loop_set := False\<rparr>"
  let ?t5 = "?t4\<lparr>runner := Finished, loop_alive := False\<rparr>"
  have st: "runner demo_started = Looping" "owner demo_started = Started True" "loop_set demo_started"
    "loop_alive demo_started" by (simp_all add: demo_started_def)
  have "thread_reachable ?t1"
    by (rule thread_reachable.step [OF demo_started_reachable step_destroy [OF destroy_step.loop_there]])
      (use st in simp_all)
  from thread_reachable.step [OF this step_destroy [OF destroy_step.queue_quit]] st have "thread_reachable ?t2" by simp
  from thread_reachable.step [OF this step_runner [OF run_thread_step.looped]] st have "thread_reachable ?t3" by simp
  from thread_reachable.step [OF this step_runner [OF run_thread_step.clear]] have "thread_reachable ?t4" by simp
  from thread_reachable.step [OF this step_runner [OF run_thread_step.unwind]] have "thread_reachable ?t5" by simp
  from thread_reachable.step [OF this step_destroy [OF destroy_step.join]] show ?thesis
    by (simp add: demo_joined_def demo_started_def EventLoopThread_def)
qed


lemma loop_ends:
  assumes t: "thread_reachable t" "runner t = Looping" "\<not> self_quit t"
  shows "thread_reachable (t\<lparr>self_quit := True, loop_set := False, runner := Finished, loop_alive := False\<rparr>)"
proof -
  let ?t1 = "t\<lparr>self_quit := True\<rparr>"
  let ?t2 = "?t1\<lparr>runner := Clear\<rparr>"
  let ?t3 = "?t2\<lparr>runner := Unwind, loop_set := False\<rparr>"
  have "thread_reachable ?t1"
    by (rule thread_reachable.step [OF t(1) step_runner [OF run_thread_step.quits [OF t(2,3)]]])
  from thread_reachable.step [OF this step_runner [OF run_thread_step.looped]] t(2) have "thread_reachable ?t2" by simp
  from thread_reachable.step [OF this step_runner [OF run_thread_step.clear]] have "thread_reachable ?t3" by simp
  from thread_reachable.step [OF this step_runner [OF run_thread_step.unwind]] show ?thesis by simp
qed

text \<open>A loop that quits by itself breaks the object: there are interleavings in which \<open>StartLoop\<close> waits
  forever, in which it returns a null pointer, in which the destructor uses the loop after its end, and in which
  it destroys a thread that is still joinable, which ends the process.\<close>

theorem thread_self_quit:
  "(\<exists>t. thread_reachable t \<and> owner t = Waiting \<and> (\<nexists>t'. thread_step t t')) \<and>
   (\<exists>t. thread_reachable t \<and> owner t = Started False) \<and>
   (\<exists>t. thread_reachable t \<and> owner t = Dangling) \<and>
   (\<exists>t. thread_reachable t \<and> owner t = Terminated)"
proof -
  let ?w = "EventLoopThread\<lparr>owner := Waiting, runner := Looping, loop_set := True, loop_alive := True\<rparr>"
  let ?gone = "\<lambda>t. t\<lparr>self_quit := True, loop_set := False, runner := Finished, loop_alive := False\<rparr>"
  have init: "runner ?w = Looping" "\<not> self_quit ?w" by (simp_all add: EventLoopThread_def)
  have w: "thread_reachable (?gone ?w)" by (rule loop_ends [OF demo_waiting_published init])
  have "\<nexists>t'. thread_step (?gone ?w) t'"
    unfolding thread_step_def by (auto elim: StartLoop_stepE run_thread_stepE destroy_stepE)
  moreover have ret: "thread_reachable (?w\<lparr>owner := Returning\<rparr>)"
    by (rule thread_reachable.step [OF demo_waiting_published step_owner [OF StartLoop_step.wait]]) simp_all
  have "thread_reachable (?gone (?w\<lparr>owner := Returning\<rparr>))" by (rule loop_ends [OF ret]) (use init in simp_all)
  from thread_reachable.step [OF this step_owner [OF StartLoop_step.return]]
  have "\<exists>t. thread_reachable t \<and> owner t = Started False" by force
  moreover have st: "runner demo_started = Looping" "\<not> self_quit demo_started" "owner demo_started = Started True"
    "loop_set demo_started" by (simp_all add: demo_started_def EventLoopThread_def)
  have q: "thread_reachable (demo_started\<lparr>exiting := True, owner := DtorQueue\<rparr>)"
    by (rule thread_reachable.step [OF demo_started_reachable step_destroy [OF destroy_step.loop_there]])
      (use st in simp_all)
  have "thread_reachable (?gone (demo_started\<lparr>exiting := True, owner := DtorQueue\<rparr>))"
    by (rule loop_ends [OF q]) (use st in simp_all)
  from thread_reachable.step [OF this step_destroy [OF destroy_step.queue_dangling]]
  have "\<exists>t. thread_reachable t \<and> owner t = Dangling" by force
  moreover have "thread_reachable (?gone demo_started)" by (rule loop_ends [OF demo_started_reachable st(1,2)])
  from thread_reachable.step [OF this step_destroy [OF destroy_step.loop_gone [of _ True]]]
  have "\<exists>t. thread_reachable t \<and> owner t = Terminated" using st(3) by force
  ultimately show ?thesis using w by force
qed

section \<open>The pool\<close>

type_synonym loop_id = nat

record loop_pool =
  base_loop :: loop_id
  started :: bool
  num_threads :: int
  next_index :: nat
  loops :: "loop_id list"

definition EventLoopThreadPool :: "loop_id \<Rightarrow> loop_pool" where
  "EventLoopThreadPool base = \<lparr>base_loop = base, started = False, num_threads = 0, next_index = 0, loops = []\<rparr>"

definition SetThreadNum :: "int \<Rightarrow> loop_pool \<Rightarrow> loop_pool" where
  "SetThreadNum n p = p\<lparr>num_threads := n\<rparr>"

text \<open>\<open>start_thread i\<close> is the loop that \<open>StartLoop\<close> of the \<open>i\<close>-th thread returns. The second result is the loop
  for which \<open>Start\<close> itself calls the initialisation callback.\<close>

definition Pool_Start ::
  "bool \<Rightarrow> (nat \<Rightarrow> loop_id) \<Rightarrow> bool \<Rightarrow> loop_pool \<Rightarrow> (loop_pool \<times> loop_id option) res" where
  "Pool_Start in_loop start_thread has_cb p =
     guard AssertFailed (\<not> started p) (AssertInLoopThread in_loop
       (Inr (p\<lparr>started := True, loops := loops p @ map start_thread [0..<nat (num_threads p)]\<rparr>,
             if num_threads p = 0 \<and> has_cb then Some (base_loop p) else None)))"

definition GetNextLoop :: "bool \<Rightarrow> loop_pool \<Rightarrow> (loop_id \<times> loop_pool) res" where
  "GetNextLoop in_loop p =
     AssertInLoopThread in_loop (guard AssertFailed (started p)
       (if loops p = [] then Inr (base_loop p, p)
        else guard InvalidAccess (next_index p < length (loops p))
          (let loop = loops p ! next_index p; n = next_index p + 1
           in Inr (loop, p\<lparr>next_index := (if length (loops p) \<le> n then 0 else n)\<rparr>))))"

definition GetLoopForHash :: "bool \<Rightarrow> nat \<Rightarrow> loop_pool \<Rightarrow> loop_id res" where
  "GetLoopForHash in_loop hashCode p =
     AssertInLoopThread in_loop
       (Inr (if loops p = [] then base_loop p else loops p ! (hashCode mod length (loops p))))"

definition GetAllLoops :: "bool \<Rightarrow> loop_pool \<Rightarrow> loop_id list res" where
  "GetAllLoops in_loop p =
     AssertInLoopThread in_loop (guard AssertFailed (started p)
       (Inr (if loops p = [] then [base_loop p] else loops p)))"

text \<open>The loops that successive calls of \<open>GetNextLoop\<close> return.\<close>

fun next_loops :: "nat \<Rightarrow> loop_pool \<Rightarrow> loop_id list res" where
  "next_loops 0 p = Inr []"
| "next_loops (Suc k) p = bindr (GetNextLoop True p) (\<lambda>(l, p'). mapr (Cons l) (next_loops k p'))"

definition all_loops :: "loop_pool \<Rightarrow> loop_id list" where
  "all_loops p = (if loops p = [] then [base_loop p] else loops p)"

definition pool_inv :: "loop_pool \<Rightarrow> bool" where
  "pool_inv p \<longleftrightarrow> started p \<and> next_index p < length (all_loops p)"

lemma GetNextLoop_eq:
  assumes "pool_inv p"
  shows "\<exists>p'. GetNextLoop True p = Inr (all_loops p ! next_index p, p') \<and> pool_inv p' \<and>
    all_loops p' = all_loops p \<and> next_index p' = Suc (next_index p) mod length (all_loops p)"
proof (cases "loops p = []")
  case True
  then show ?thesis
    using assms by (intro exI [of _ p]) (simp add: GetNextLoop_def AssertInLoopThread_def pool_inv_def all_loops_def)
next
  case False
  then have n: "next_index p < length (loops p)" "started p" "all_loops p = loops p"
    using assms by (simp_all add: pool_inv_def all_loops_def)
  have wrap: "(if length (loops p) \<le> Suc (next_index p) then 0 else Suc (next_index p)) =
    Suc (next_index p) mod length (loops p)"
    using n(1) by (simp add: le_Suc_eq)
  have "GetNextLoop True p =
    Inr (loops p ! next_index p, p\<lparr>next_index := Suc (next_index p) mod length (loops p)\<rparr>)"
    using False n by (simp add: GetNextLoop_def AssertInLoopThread_def Let_def flip: wrap)
  then show ?thesis
    using False n by (simp add: pool_inv_def all_loops_def)
qed

lemma next_loops_eq:
  assumes "pool_inv p"
  shows "next_loops k p =
    Inr (map (\<lambda>i. all_loops p ! ((next_index p + i) mod length (all_loops p))) [0..<k])"
  using assms
proof (induction k arbitrary: p)
  case (Suc k)
  from GetNextLoop_eq [OF Suc.prems] obtain p' where
    p': "GetNextLoop True p = Inr (all_loops p ! next_index p, p')" "pool_inv p'" "all_loops p' = all_loops p"
    "next_index p' = Suc (next_index p) mod length (all_loops p)" by blast
  have "[0..<Suc k] = 0 # map Suc [0..<k]" by (simp add: upt_conv_Cons map_Suc_upt del: upt_Suc)
  then show ?case
    using Suc.IH [OF p'(2)] p' Suc.prems by (simp add: pool_inv_def mod_add_left_eq del: upt_Suc)
qed simp

lemma Pool_Start_inv:
  "Pool_Start True start_thread has_cb (SetThreadNum n (EventLoopThreadPool base)) = Inr (p, c) \<Longrightarrow>
   pool_inv p \<and> all_loops p = (if 0 < n then map start_thread [0..<nat n] else [base])"
  by (auto simp: Pool_Start_def SetThreadNum_def EventLoopThreadPool_def AssertInLoopThread_def pool_inv_def
      all_loops_def)

text \<open>C30: A pool started with \<open>n\<close> threads hands out its loops in turn: the \<open>k\<close>-th call of \<open>GetNextLoop\<close>
  (from 0) returns loop \<open>k mod n\<close>, so each loop is chosen equally often; a pool without threads always returns
  its base loop. No call fails.\<close>

theorem pool_round_robin:
  assumes "Pool_Start True start_thread has_cb (SetThreadNum n (EventLoopThreadPool base)) = Inr (p, c)"
  shows "next_loops k p =
    Inr (if 0 < n then map (\<lambda>i. start_thread (i mod nat n)) [0..<k] else replicate k base)"
proof -
  from Pool_Start_inv [OF assms] have p: "pool_inv p"
    "all_loops p = (if 0 < n then map start_thread [0..<nat n] else [base])" by auto
  have "next_index p = 0" using assms
    by (auto simp: Pool_Start_def SetThreadNum_def EventLoopThreadPool_def AssertInLoopThread_def)
  then show ?thesis
    using next_loops_eq [OF p(1), of k] p(2) by (simp add: map_replicate_const)
qed

theorem pool_round_robin_witness:
  "\<exists>p c. Pool_Start True (\<lambda>i. 100 + i) False (SetThreadNum 3 (EventLoopThreadPool 9)) = Inr (p, c) \<and>
     next_loops 5 p = Inr [100, 101, 102, 100, 101]"
proof -
  obtain p c where p: "Pool_Start True (\<lambda>i. 100 + i) False (SetThreadNum 3 (EventLoopThreadPool 9)) = Inr (p, c)"
    by (simp add: Pool_Start_def SetThreadNum_def EventLoopThreadPool_def AssertInLoopThread_def)
  from pool_round_robin [OF p, of 5] have "next_loops 5 p = Inr [100, 101, 102, 100, 101]"
    by (simp add: upt_rec)
  with p show ?thesis by blast
qed

text \<open>\<open>GetLoopForHash\<close> returns a loop of the pool, the same for the same hash code, whether or not calls of
  \<open>GetNextLoop\<close> come in between.\<close>

theorem pool_hash_stable:
  assumes "pool_inv p" "GetNextLoop True p = Inr (l, p')"
  shows "GetLoopForHash True h p' = GetLoopForHash True h p \<and>
    (\<exists>l' ls. GetLoopForHash True h p = Inr l' \<and> GetAllLoops True p = Inr ls \<and> l' \<in> set ls)"
proof -
  have "loops p' = loops p \<and> base_loop p' = base_loop p"
    using assms(2) by (auto simp: GetNextLoop_def AssertInLoopThread_def Let_def res_simps split: if_splits)
  then show ?thesis
    using assms(1) by (auto simp: GetLoopForHash_def GetAllLoops_def AssertInLoopThread_def pool_inv_def)
qed

theorem pool_hash_stable_witness:
  "let p = \<lparr>base_loop = 9, started = True, num_threads = 2, next_index = 1, loops = [100, 101]\<rparr>;
       p' = p\<lparr>next_index := 0\<rparr>
   in pool_inv p \<and> GetNextLoop True p = Inr (101, p') \<and> GetLoopForHash True 7 p' = GetLoopForHash True 7 p"
proof -
  let ?p = "\<lparr>base_loop = 9, started = True, num_threads = 2, next_index = 1, loops = [100, 101]\<rparr>"
  have p: "pool_inv ?p" "GetNextLoop True ?p = Inr (101, ?p\<lparr>next_index := 0\<rparr>)"
    by (simp_all add: pool_inv_def all_loops_def GetNextLoop_def AssertInLoopThread_def)
  from pool_hash_stable [OF p, of 7] p show ?thesis by (simp only: Let_def)
qed

end
