(* ===== verification/Endian.thy ===== *)
theory Endian
  imports Raner_Prelude
begin

unbundle bit_operations_syntax

text \<open>
  Byte order conversion, \<open>raner/endian.h\<close>. The byte order of the host, a preprocessor
  macro in the source (\<open>RANER_IS_LITTLE_ENDIAN\<close> or \<open>RANER_IS_BIG_ENDIAN\<close>), is a parameter
  of the conversion functions, so that every statement is about both kinds of host.
  \<open>object_bytes\<close> and \<open>object_of\<close> are the object representation of an unsigned integer, as
  \<open>memcpy\<close> and a cast to \<open>const char*\<close> see it.
\<close>

section \<open>Object representation of integers\<close>

datatype byte_order = LittleEndian | BigEndian

definition bytes_le :: "nat \<Rightarrow> 'a::len word \<Rightarrow> bytes" where
  "bytes_le n w = map (\<lambda>i. ucast (drop_bit (8 * i) w)) [0..<n]"

fun word_of_le :: "bytes \<Rightarrow> 'a::len word" where
  "word_of_le [] = 0"
| "word_of_le (b # bs) = ucast b OR push_bit 8 (word_of_le bs)"

definition object_bytes :: "byte_order \<Rightarrow> nat \<Rightarrow> 'a::len word \<Rightarrow> bytes" where
  "object_bytes ord n w =
     (case ord of LittleEndian \<Rightarrow> bytes_le n w | BigEndian \<Rightarrow> rev (bytes_le n w))"

definition object_of :: "byte_order \<Rightarrow> bytes \<Rightarrow> 'a::len word" where
  "object_of ord bs = word_of_le (case ord of LittleEndian \<Rightarrow> bs | BigEndian \<Rightarrow> rev bs)"

text \<open>The bytes of an integer, most significant first: network byte order.\<close>

definition network_bytes :: "nat \<Rightarrow> 'a::len word \<Rightarrow> bytes" where
  "network_bytes n w = rev (bytes_le n w)"

section \<open>Byte swapping\<close>

text \<open>\<open>__builtin_bswap64\<close>, \<open>__builtin_bswap32\<close> and \<open>__builtin_bswap16\<close> reverse the bytes.\<close>

definition gbswap_64 :: "u64 \<Rightarrow> u64" where
  "gbswap_64 host_int = word_of_le (rev (bytes_le 8 host_int))"

definition gbswap_32 :: "u32 \<Rightarrow> u32" where
  "gbswap_32 host_int = word_of_le (rev (bytes_le 4 host_int))"

definition gbswap_16 :: "u16 \<Rightarrow> u16" where
  "gbswap_16 host_int = word_of_le (rev (bytes_le 2 host_int))"

text \<open>The shift-and-mask expressions of the branch for compilers without the intrinsics.\<close>

definition gbswap_64_shift :: "u64 \<Rightarrow> u64" where
  "gbswap_64_shift x =
     push_bit 56 (x AND 0xFF) OR
     push_bit 40 (x AND 0xFF00) OR
     push_bit 24 (x AND 0xFF0000) OR
     push_bit 8 (x AND 0xFF000000) OR
     drop_bit 8 (x AND 0xFF00000000) OR
     drop_bit 24 (x AND 0xFF0000000000) OR
     drop_bit 40 (x AND 0xFF000000000000) OR
     drop_bit 56 (x AND 0xFF00000000000000)"

definition gbswap_32_shift :: "u32 \<Rightarrow> u32" where
  "gbswap_32_shift x =
     push_bit 24 (x AND 0xFF) OR push_bit 8 (x AND 0xFF00) OR
     drop_bit 8 (x AND 0xFF0000) OR drop_bit 24 (x AND 0xFF000000)"

definition gbswap_16_shift :: "u16 \<Rightarrow> u16" where
  "gbswap_16_shift x = push_bit 8 (x AND 0xFF) OR drop_bit 8 (x AND 0xFF00)"

section \<open>Host and network order\<close>

definition ghtons :: "byte_order \<Rightarrow> u16 \<Rightarrow> u16" where
  "ghtons ord x = (case ord of LittleEndian \<Rightarrow> gbswap_16 x | BigEndian \<Rightarrow> x)"

definition ghtonl :: "byte_order \<Rightarrow> u32 \<Rightarrow> u32" where
  "ghtonl ord x = (case ord of LittleEndian \<Rightarrow> gbswap_32 x | BigEndian \<Rightarrow> x)"

definition ghtonll :: "byte_order \<Rightarrow> u64 \<Rightarrow> u64" where
  "ghtonll ord x = (case ord of LittleEndian \<Rightarrow> gbswap_64 x | BigEndian \<Rightarrow> x)"

definition gntohs :: "byte_order \<Rightarrow> u16 \<Rightarrow> u16" where
  "gntohs ord x = ghtons ord x"

definition gntohl :: "byte_order \<Rightarrow> u32 \<Rightarrow> u32" where
  "gntohl ord x = ghtonl ord x"

definition gntohll :: "byte_order \<Rightarrow> u64 \<Rightarrow> u64" where
  "gntohll ord x = ghtonll ord x"

section \<open>Lemmas\<close>

lemma length_bytes_le [simp]: "length (bytes_le n w) = n"
  by (simp add: bytes_le_def)

lemma length_object_bytes [simp]: "length (object_bytes ord n w) = n"
  by (simp add: object_bytes_def split: byte_order.splits)

lemma length_network_bytes [simp]: "length (network_bytes n w) = n"
  by (simp add: network_bytes_def)

lemma bit_bytes_le: "i < n \<Longrightarrow> bit (bytes_le n w ! i) j \<longleftrightarrow> j < 8 \<and> bit w (8 * i + j)"
  by (simp add: bytes_le_def bit_simps)

lemma bit_word_of_le:
  "bit (word_of_le bs :: 'a::len word) k \<longleftrightarrow>
     k < LENGTH('a) \<and> k div 8 < length bs \<and> bit (bs ! (k div 8)) (k mod 8)"
proof (induction bs arbitrary: k)
  case Nil
  then show ?case by simp
next
  case (Cons b bs)
  show ?case
  proof (cases "k < 8")
    case True
    then show ?thesis by (simp add: bit_simps)
  next
    case False
    then have "k div 8 = Suc ((k - 8) div 8)" and "(k - 8) mod 8 = k mod 8"
      by (auto simp: le_mod_geq le_div_geq)
    with False show ?thesis
      using bit_imp_le_length [of b k] by (auto simp: bit_simps Cons.IH)
  qed
qed

lemma word_of_le_bytes_le:
  fixes w :: "'a::len word"
  assumes "LENGTH('a) = 8 * n"
  shows "word_of_le (bytes_le n w) = w"
proof (rule bit_word_eqI)
  fix k assume "k < LENGTH('a)"
  with assms have "k div 8 < n" by (simp add: div_less_iff_less_mult)
  then show "bit (word_of_le (bytes_le n w) :: 'a word) k = bit w k"
    using assms \<open>k < LENGTH('a)\<close> by (simp add: bit_word_of_le bit_bytes_le)
qed

lemma bytes_le_word_of_le:
  assumes "LENGTH('a::len) = 8 * n" and "length bs = n"
  shows "bytes_le n (word_of_le bs :: 'a word) = bs"
proof (rule nth_equalityI)
  show "length (bytes_le n (word_of_le bs :: 'a word)) = length bs" using assms by simp
next
  fix i assume "i < length (bytes_le n (word_of_le bs :: 'a word))"
  then have i: "i < n" by simp
  show "bytes_le n (word_of_le bs :: 'a word) ! i = bs ! i"
  proof (rule bit_word_eqI)
    fix j assume "j < LENGTH(8)"
    then have "j < 8" by simp
    then have "(8 * i + j) div 8 = i" and "(8 * i + j) mod 8 = j" by auto
    with i \<open>j < 8\<close> assms show "bit (bytes_le n (word_of_le bs :: 'a word) ! i) j = bit (bs ! i) j"
      by (simp add: bit_bytes_le bit_word_of_le)
  qed
qed

lemma object_of_object_bytes:
  fixes w :: "'a::len word"
  assumes "LENGTH('a) = 8 * n"
  shows "object_of ord (object_bytes ord n w) = w"
  using assms by (simp add: object_of_def object_bytes_def word_of_le_bytes_le split: byte_order.split)

lemma object_bytes_object_of:
  assumes "LENGTH('a::len) = 8 * n" and "length bs = n"
  shows "object_bytes ord n (object_of ord bs :: 'a word) = bs"
  using assms by (simp add: object_of_def object_bytes_def bytes_le_word_of_le split: byte_order.split)

lemmas gbswap_defs [raner_defs] = gbswap_64_def gbswap_32_def gbswap_16_def
lemmas ghton_defs [raner_defs] = ghtons_def ghtonl_def ghtonll_def
lemmas gntoh_defs [raner_defs] = gntohs_def gntohl_def gntohll_def

lemma gbswap_involution [simp]:
  "gbswap_64 (gbswap_64 a) = a" "gbswap_32 (gbswap_32 b) = b" "gbswap_16 (gbswap_16 c) = c"
  by (simp_all add: gbswap_defs bytes_le_word_of_le word_of_le_bytes_le)

text \<open>On either host the object representation of a converted integer is its network bytes.\<close>

lemma object_bytes_ghton:
  "object_bytes ord 2 (ghtons ord a) = network_bytes 2 a"
  "object_bytes ord 4 (ghtonl ord b) = network_bytes 4 b"
  "object_bytes ord 8 (ghtonll ord c) = network_bytes 8 c"
  by (simp_all add: object_bytes_def network_bytes_def gbswap_defs ghton_defs bytes_le_word_of_le
      split: byte_order.split)

lemma gntoh_object_of:
  "length bs = 2 \<Longrightarrow> gntohs ord (object_of ord bs) = word_of_le (rev bs)"
  "length bs = 4 \<Longrightarrow> gntohl ord (object_of ord bs) = word_of_le (rev bs)"
  "length bs = 8 \<Longrightarrow> gntohll ord (object_of ord bs) = word_of_le (rev bs)"
  by (simp_all add: object_of_def gbswap_defs ghton_defs gntoh_defs bytes_le_word_of_le
      split: byte_order.split)

lemma word_of_network_bytes:
  "word_of_le (rev (network_bytes 2 a)) = (a :: u16)"
  "word_of_le (rev (network_bytes 4 b)) = (b :: u32)"
  "word_of_le (rev (network_bytes 8 c)) = (c :: u64)"
  by (simp_all add: network_bytes_def word_of_le_bytes_le)

text \<open>Byte \<open>q\<close> of a byte-reversed word of \<open>n\<close> bytes is byte \<open>n - 1 - q\<close> of the word.\<close>

lemma bit_reverse_bytes:
  fixes w :: "'a::len word"
  assumes "LENGTH('a) = 8 * n" and "q < n" and "r < 8"
  shows "bit (word_of_le (rev (bytes_le n w)) :: 'a word) (8 * q + r) = bit w (8 * (n - Suc q) + r)"
proof -
  have "(8 * q + r) div 8 = q" and "(8 * q + r) mod 8 = r" using assms(3) by auto
  then show ?thesis using assms by (simp add: bit_word_of_le rev_nth bit_bytes_le)
qed

lemma byte_bit_cases:
  assumes "k < 8 * n"
  obtains q r :: nat where "k = 8 * q + r" and "q < n" and "r < 8"
proof
  show "k = 8 * (k div 8) + k mod 8" by simp
  show "k div 8 < n" using assms by (simp add: div_less_iff_less_mult mult.commute)
  show "k mod 8 < 8" by simp
qed

lemma byte_masks:
  "(0xFF :: 'a::len word) = mask 8" "(0xFF00 :: 'a word) = push_bit 8 (mask 8)"
  "(0xFF0000 :: 'a word) = push_bit 16 (mask 8)" "(0xFF000000 :: 'a word) = push_bit 24 (mask 8)"
  "(0xFF00000000 :: 'a word) = push_bit 32 (mask 8)"
  "(0xFF0000000000 :: 'a word) = push_bit 40 (mask 8)"
  "(0xFF000000000000 :: 'a word) = push_bit 48 (mask 8)"
  "(0xFF00000000000000 :: 'a word) = push_bit 56 (mask 8)"
  by (simp_all add: mask_eq_exp_minus_1 push_bit_eq_mult)

text \<open>Byte \<open>b\<close> of a word, masked out and moved by \<open>a\<close> bytes up or down.\<close>

lemma bit_byte_up:
  fixes x :: "'a::len word"
  assumes "r < 8"
  shows "bit (push_bit (8 * a) (x AND push_bit (8 * b) (mask 8))) (8 * q + r) \<longleftrightarrow>
     q = a + b \<and> 8 * q + r < LENGTH('a) \<and> bit x (8 * b + r)"
  using assms by (cases "q = a + b") (auto simp: bit_simps)

lemma bit_byte_down:
  fixes x :: "'a::len word"
  assumes "r < 8"
  shows "bit (drop_bit (8 * a) (x AND push_bit (8 * b) (mask 8))) (8 * q + r) \<longleftrightarrow>
     q + a = b \<and> bit x (8 * b + r)"
  using assms bit_imp_le_length [of x "8 * b + r"]
  by (cases "q + a = b") (auto simp: bit_simps algebra_simps)

lemma gbswap_16_shift_eq: "gbswap_16_shift x = gbswap_16 x"
proof (rule bit_word_eqI)
  fix k assume "k < LENGTH(16)"
  then obtain q r where k: "k = 8 * q + r" "q < 2" "r < 8"
    by (auto intro: byte_bit_cases [of k 2])
  then have "q \<in> {0, 1}" by auto
  with k show "bit (gbswap_16_shift x) k = bit (gbswap_16 x) k"
    by (auto simp: gbswap_16_shift_def gbswap_16_def bit_reverse_bytes byte_masks bit_simps)
qed

lemma gbswap_32_shift_eq: "gbswap_32_shift x = gbswap_32 x"
proof (rule bit_word_eqI)
  fix k assume "k < LENGTH(32)"
  then obtain q r where k: "k = 8 * q + r" "q < 4" "r < 8"
    by (auto intro: byte_bit_cases [of k 4])
  note up = bit_byte_up [OF k(3), where x = x and q = q]
  note down = bit_byte_down [OF k(3), where x = x and q = q]
  have moved:
    "bit (push_bit 24 (x AND mask 8)) (8 * q + r) = (q = 3 \<and> bit x r)"
    "bit (push_bit 8 (x AND push_bit 8 (mask 8))) (8 * q + r) = (q = 2 \<and> bit x (8 + r))"
    "bit (drop_bit 8 (x AND push_bit 16 (mask 8))) (8 * q + r) = (q = 1 \<and> bit x (16 + r))"
    "bit (drop_bit 24 (x AND push_bit 24 (mask 8))) (8 * q + r) = (q = 0 \<and> bit x (24 + r))"
    using k(2,3) up [of 3 0] apply (simp; fail)
    using k(2,3) up [of 1 1] apply (simp add: numeral_2_eq_2; fail)
    using down [of 1 2] apply (simp; fail)
    using down [of 3 3] apply (simp; fail)
    done
  from k(2) have "q = 0 \<or> q = 1 \<or> q = 2 \<or> q = 3" by arith
  then have "bit (gbswap_32_shift x) k \<longleftrightarrow> bit x (8 * (3 - q) + r)"
    unfolding gbswap_32_shift_def byte_masks k(1) bit_or_iff moved by (elim disjE) simp_all
  also have "\<dots> \<longleftrightarrow> bit (gbswap_32 x) k"
    using k by (simp add: gbswap_32_def bit_reverse_bytes)
  finally show "bit (gbswap_32_shift x) k = bit (gbswap_32 x) k" .
qed

lemma gbswap_64_shift_eq: "gbswap_64_shift x = gbswap_64 x"
proof (rule bit_word_eqI)
  fix k assume "k < LENGTH(64)"
  then obtain q r where k: "k = 8 * q + r" "q < 8" "r < 8"
    by (auto intro: byte_bit_cases [of k 8])
  note up = bit_byte_up [OF k(3), where x = x and q = q]
  note down = bit_byte_down [OF k(3), where x = x and q = q]
  have moved:
    "bit (push_bit 56 (x AND mask 8)) (8 * q + r) = (q = 7 \<and> bit x r)"
    "bit (push_bit 40 (x AND push_bit 8 (mask 8))) (8 * q + r) = (q = 6 \<and> bit x (8 + r))"
    "bit (push_bit 24 (x AND push_bit 16 (mask 8))) (8 * q + r) = (q = 5 \<and> bit x (16 + r))"
    "bit (push_bit 8 (x AND push_bit 24 (mask 8))) (8 * q + r) = (q = 4 \<and> bit x (24 + r))"
    "bit (drop_bit 8 (x AND push_bit 32 (mask 8))) (8 * q + r) = (q = 3 \<and> bit x (32 + r))"
    "bit (drop_bit 24 (x AND push_bit 40 (mask 8))) (8 * q + r) = (q = 2 \<and> bit x (40 + r))"
    "bit (drop_bit 40 (x AND push_bit 48 (mask 8))) (8 * q + r) = (q = 1 \<and> bit x (48 + r))"
    "bit (drop_bit 56 (x AND push_bit 56 (mask 8))) (8 * q + r) = (q = 0 \<and> bit x (56 + r))"
    using k(2,3) up [of 7 0] apply (simp; fail)
    using k(2,3) up [of 5 1] apply (simp; fail)
    using k(2,3) up [of 3 2] apply (simp; fail)
    using k(2,3) up [of 1 3] apply (simp; fail)
    using down [of 1 4] apply (simp; fail)
    using down [of 3 5] apply (simp; fail)
    using down [of 5 6] apply (simp; fail)
    using down [of 7 7] apply (simp; fail)
    done
  from k(2) have "q = 0 \<or> q = 1 \<or> q = 2 \<or> q = 3 \<or> q = 4 \<or> q = 5 \<or> q = 6 \<or> q = 7" by arith
  then have "bit (gbswap_64_shift x) k \<longleftrightarrow> bit x (8 * (7 - q) + r)"
    unfolding gbswap_64_shift_def byte_masks k(1) bit_or_iff moved by (elim disjE) simp_all
  also have "\<dots> \<longleftrightarrow> bit (gbswap_64 x) k"
    using k by (simp add: gbswap_64_def bit_reverse_bytes)
  finally show "bit (gbswap_64_shift x) k = bit (gbswap_64 x) k" .
qed

section \<open>Properties\<close>

text \<open>Converting to network order and back is the identity, at 16, 32 and 64 bits and on
  hosts of either byte order.\<close>

theorem gntoh_ghton:
  "gntohs ord (ghtons ord a) = a \<and> gntohl ord (ghtonl ord b) = b \<and>
   gntohll ord (ghtonll ord c) = c"
  by (simp add: gntoh_defs ghton_defs split: byte_order.split)


end
