(* ===== verification/Byte_Buffer.thy ===== *)
theory Byte_Buffer
  imports Endian
begin

unbundle bit_operations_syntax

text \<open>
  \<open>raner::ByteBuffer\<close>, \<open>raner/byte_buffer.h\<close> and \<open>raner/byte_buffer.cc\<close>: the vector and its
  two indices as a record, one definition per member function. Pointers into the buffer are
  offsets from \<open>begin()\<close>. \<open>size_t\<close> values are naturals with the wrap-around of \<open>+\<close> and \<open>-\<close>
  written out (\<open>size_add\<close>, \<open>size_sub\<close>); signed integers are the words of their bits. The
  specification is a byte queue: \<open>content\<close> is the readable bytes, and the locale
  \<open>byte_fifo\<close> states the laws its clients use.
\<close>

section \<open>Data\<close>

record byte_buffer =
  buffer :: bytes
  reader_index :: nat
  writer_index :: nat

definition kInitialSize :: nat where
  "kInitialSize = 1024"

definition kCRLF :: bytes where
  "kCRLF = [13, 10]"

definition size_add :: "nat \<Rightarrow> nat \<Rightarrow> nat" where
  "size_add a b = (a + b) mod 2 ^ 64"

definition size_sub :: "nat \<Rightarrow> nat \<Rightarrow> nat" where
  "size_sub a b = (if b \<le> a then a - b else 2 ^ 64 + a - b)"

text \<open>\<open>std::vector<char>\<close>: \<open>max_size()\<close> is the largest \<open>ptrdiff_t\<close>; \<open>resize\<close> throws
  \<open>std::length_error\<close> above it and fills new elements with zero.\<close>

definition vector_max_size :: nat where
  "vector_max_size = 2 ^ 63 - 1"

definition vector_resize :: "nat \<Rightarrow> bytes \<Rightarrow> bytes res" where
  "vector_resize n xs =
     guard LengthError (n \<le> vector_max_size) (Inr (take n xs @ replicate (n - length xs) 0))"

section \<open>Operations\<close>

definition ByteBuffer :: "nat \<Rightarrow> byte_buffer" where
  "ByteBuffer initial_size =
     \<lparr>buffer = replicate initial_size 0, reader_index = 0, writer_index = 0\<rparr>"

definition Swap :: "byte_buffer \<Rightarrow> byte_buffer \<Rightarrow> byte_buffer \<times> byte_buffer" where
  "Swap b rhs = (rhs, b)"

definition DiscardableBytes :: "byte_buffer \<Rightarrow> nat" where
  "DiscardableBytes b = reader_index b"

definition ReadableBytes :: "byte_buffer \<Rightarrow> nat" where
  "ReadableBytes b = size_sub (writer_index b) (reader_index b)"

definition WritableBytes :: "byte_buffer \<Rightarrow> nat" where
  "WritableBytes b = size_sub (length (buffer b)) (writer_index b)"

definition BeginRead :: "byte_buffer \<Rightarrow> nat" where
  "BeginRead b = reader_index b"

definition BeginWrite :: "byte_buffer \<Rightarrow> nat" where
  "BeginWrite b = writer_index b"

text \<open>The bytes \<open>[p, q)\<close> of the buffer.\<close>

definition range_of :: "byte_buffer \<Rightarrow> nat \<Rightarrow> nat \<Rightarrow> bytes" where
  "range_of b p q = take (q - p) (drop p (buffer b))"

text \<open>\<open>std::search\<close>: the offset of the first occurrence of \<open>pat\<close>, or the length of the range.\<close>

fun std_search :: "bytes \<Rightarrow> bytes \<Rightarrow> nat" where
  "std_search pat [] = 0"
| "std_search pat (x # xs) =
     (if take (length pat) (x # xs) = pat then 0 else Suc (std_search pat xs))"

fun memchr :: "u8 \<Rightarrow> bytes \<Rightarrow> nat option" where
  "memchr c [] = None"
| "memchr c (x # xs) = (if x = c then Some 0 else map_option Suc (memchr c xs))"

definition FindCRLF :: "byte_buffer \<Rightarrow> nat option" where
  "FindCRLF b =
     (let crlf = BeginRead b + std_search kCRLF (range_of b (BeginRead b) (BeginWrite b))
      in if crlf = BeginWrite b then None else Some crlf)"

definition FindCRLF_from :: "nat \<Rightarrow> byte_buffer \<Rightarrow> nat option res" where
  "FindCRLF_from start b =
     guard AssertFailed (BeginRead b \<le> start)
     (guard AssertFailed (start \<le> BeginWrite b)
       (let crlf = start + std_search kCRLF (range_of b start (BeginWrite b))
        in Inr (if crlf = BeginWrite b then None else Some crlf)))"

definition FindEOL :: "byte_buffer \<Rightarrow> nat option" where
  "FindEOL b =
     map_option (\<lambda>i. BeginRead b + i) (memchr 10 (take (ReadableBytes b) (drop (BeginRead b) (buffer b))))"

definition FindEOL_from :: "nat \<Rightarrow> byte_buffer \<Rightarrow> nat option res" where
  "FindEOL_from start b =
     guard AssertFailed (BeginRead b \<le> start)
     (guard AssertFailed (start \<le> BeginWrite b)
       (Inr (map_option (\<lambda>i. start + i) (memchr 10 (range_of b start (BeginWrite b))))))"

definition SkipAll :: "byte_buffer \<Rightarrow> byte_buffer" where
  "SkipAll b = b\<lparr>reader_index := 0, writer_index := 0\<rparr>"

definition SkipReadBytes :: "nat \<Rightarrow> byte_buffer \<Rightarrow> byte_buffer res" where
  "SkipReadBytes len b =
     guard AssertFailed (len \<le> ReadableBytes b)
       (Inr (if len < ReadableBytes b then b\<lparr>reader_index := reader_index b + len\<rparr>
             else SkipAll b))"

definition SkipAsString :: "nat \<Rightarrow> byte_buffer \<Rightarrow> (bytes \<times> byte_buffer) res" where
  "SkipAsString len b =
     guard AssertFailed (len \<le> ReadableBytes b)
       (let res = take len (drop (BeginRead b) (buffer b))
        in mapr (\<lambda>b'. (res, b')) (SkipReadBytes len b))"

definition SkipAllAsString :: "byte_buffer \<Rightarrow> (bytes \<times> byte_buffer) res" where
  "SkipAllAsString b = SkipAsString (ReadableBytes b) b"

definition SkipWriteBytes :: "nat \<Rightarrow> byte_buffer \<Rightarrow> byte_buffer res" where
  "SkipWriteBytes len b =
     guard AssertFailed (len \<le> WritableBytes b)
       (Inr (b\<lparr>writer_index := writer_index b + len\<rparr>))"

definition expandCapacity :: "nat \<Rightarrow> byte_buffer \<Rightarrow> byte_buffer res" where
  "expandCapacity len b =
     (if size_add (WritableBytes b) (DiscardableBytes b) < len
      then mapr (\<lambda>buf. b\<lparr>buffer := buf\<rparr>)
             (vector_resize (size_add (writer_index b) len) (buffer b))
      else guard AssertFailed (0 < reader_index b)
        (let readable = ReadableBytes b;
             b' = b\<lparr>buffer := overwrite 0 (range_of b (reader_index b) (writer_index b)) (buffer b),
                    reader_index := 0, writer_index := 0 + readable\<rparr>
         in guard AssertFailed (readable = ReadableBytes b') (Inr b')))"

definition EnsureWritableBytes :: "nat \<Rightarrow> byte_buffer \<Rightarrow> byte_buffer res" where
  "EnsureWritableBytes len b =
     bindr (if WritableBytes b < len then expandCapacity len b else Inr b)
       (\<lambda>b'. guard AssertFailed (WritableBytes b' \<ge> len) (Inr b'))"

definition Write :: "bytes \<Rightarrow> byte_buffer \<Rightarrow> byte_buffer res" where
  "Write data b =
     bindr (EnsureWritableBytes (length data) b)
       (\<lambda>b'. SkipWriteBytes (length data)
               (b'\<lparr>buffer := overwrite (BeginWrite b') data (buffer b')\<rparr>))"

definition WriteInt64 :: "byte_order \<Rightarrow> u64 \<Rightarrow> byte_buffer \<Rightarrow> byte_buffer res" where
  "WriteInt64 ord x = Write (object_bytes ord 8 (ghtonll ord x))"

definition WriteInt32 :: "byte_order \<Rightarrow> u32 \<Rightarrow> byte_buffer \<Rightarrow> byte_buffer res" where
  "WriteInt32 ord x = Write (object_bytes ord 4 (ghtonl ord x))"

text \<open>\<open>WriteInt16\<close> takes an \<open>int32_t\<close> and keeps its low 16 bits.\<close>

definition WriteInt16 :: "byte_order \<Rightarrow> u32 \<Rightarrow> byte_buffer \<Rightarrow> byte_buffer res" where
  "WriteInt16 ord x = Write (object_bytes ord 2 (ghtons ord (ucast x)))"

definition WriteInt8 :: "u8 \<Rightarrow> byte_buffer \<Rightarrow> byte_buffer res" where
  "WriteInt8 x = Write [x]"

text \<open>\<open>memcpy(&x, BeginRead(), n)\<close>.\<close>

definition peek_bytes :: "nat \<Rightarrow> byte_buffer \<Rightarrow> bytes" where
  "peek_bytes n b = take n (drop (BeginRead b) (buffer b))"

definition PeekInt8 :: "byte_buffer \<Rightarrow> u8 res" where
  "PeekInt8 b = guard AssertFailed (ReadableBytes b \<ge> 1) (Inr (buffer b ! BeginRead b))"

definition PeekInt16 :: "byte_order \<Rightarrow> byte_buffer \<Rightarrow> u16 res" where
  "PeekInt16 ord b =
     guard AssertFailed (ReadableBytes b \<ge> 2) (Inr (gntohs ord (object_of ord (peek_bytes 2 b))))"

definition PeekInt32 :: "byte_order \<Rightarrow> byte_buffer \<Rightarrow> u32 res" where
  "PeekInt32 ord b =
     guard AssertFailed (ReadableBytes b \<ge> 4) (Inr (gntohl ord (object_of ord (peek_bytes 4 b))))"

definition PeekInt64 :: "byte_order \<Rightarrow> byte_buffer \<Rightarrow> u64 res" where
  "PeekInt64 ord b =
     guard AssertFailed (ReadableBytes b \<ge> 8) (Inr (gntohll ord (object_of ord (peek_bytes 8 b))))"

definition ReadInt8 :: "byte_buffer \<Rightarrow> (u8 \<times> byte_buffer) res" where
  "ReadInt8 b = bindr (PeekInt8 b) (\<lambda>x. mapr (\<lambda>b'. (x, b')) (SkipReadBytes 1 b))"

definition ReadInt16 :: "byte_order \<Rightarrow> byte_buffer \<Rightarrow> (u16 \<times> byte_buffer) res" where
  "ReadInt16 ord b = bindr (PeekInt16 ord b) (\<lambda>x. mapr (\<lambda>b'. (x, b')) (SkipReadBytes 2 b))"

definition ReadInt32 :: "byte_order \<Rightarrow> byte_buffer \<Rightarrow> (u32 \<times> byte_buffer) res" where
  "ReadInt32 ord b = bindr (PeekInt32 ord b) (\<lambda>x. mapr (\<lambda>b'. (x, b')) (SkipReadBytes 4 b))"

definition ReadInt64 :: "byte_order \<Rightarrow> byte_buffer \<Rightarrow> (u64 \<times> byte_buffer) res" where
  "ReadInt64 ord b = bindr (PeekInt64 ord b) (\<lambda>x. mapr (\<lambda>b'. (x, b')) (SkipReadBytes 8 b))"

text \<open>The length of the view goes through \<open>static_cast<int>\<close> and back to \<open>size_t\<close>: the low 32
  bits, sign-extended. Reading a view that leaves the vector is undefined.\<close>

definition size_via_int :: "nat \<Rightarrow> nat" where
  "size_via_int n =
     (let k = n mod 2 ^ 32 in if k < 2 ^ 31 then k else 2 ^ 64 - 2 ^ 32 + k)"

definition ToStringView :: "byte_buffer \<Rightarrow> bytes res" where
  "ToStringView b =
     (let len = size_via_int (ReadableBytes b)
      in guard InvalidAccess (BeginRead b + len \<le> length (buffer b))
           (Inr (take len (drop (BeginRead b) (buffer b)))))"

definition ToString_len :: "nat \<Rightarrow> byte_buffer \<Rightarrow> (bytes \<times> byte_buffer) res" where
  "ToString_len len b =
     guard AssertFailed (len \<le> ReadableBytes b)
       (let res = take len (drop (BeginRead b) (buffer b))
        in mapr (\<lambda>b'. (res, b')) (SkipReadBytes len b))"

definition ToString :: "byte_buffer \<Rightarrow> (bytes \<times> byte_buffer) res" where
  "ToString b = ToString_len (ReadableBytes b) b"

definition Shrink :: "byte_buffer \<Rightarrow> byte_buffer res" where
  "Shrink b =
     bindr (EnsureWritableBytes (ReadableBytes b) (ByteBuffer kInitialSize)) (\<lambda>other.
     bindr (ToStringView b) (\<lambda>view.
     bindr (Write view other) (\<lambda>other'.
     Inr (fst (Swap b other')))))"

text \<open>\<open>readv(2)\<close> is a parameter: given the total length of the vectors it returns an errno or
  the bytes it stored, which fill the vectors in order.\<close>

definition extrabuf_size :: nat where
  "extrabuf_size = 65536"

definition ReadFD ::
  "(nat \<Rightarrow> int + bytes) \<Rightarrow> byte_buffer \<Rightarrow> ((int + nat) \<times> byte_buffer) res" where
  "ReadFD readv b =
     (let writable = WritableBytes b;
          capacity = (if writable < extrabuf_size then writable + extrabuf_size else writable)
      in case readv capacity of
           Inl errno \<Rightarrow> Inr (Inl errno, b)
         | Inr data \<Rightarrow>
             (let n = length data;
                  b' = b\<lparr>buffer := overwrite (writer_index b) (take writable data) (buffer b)\<rparr>
              in if n \<le> writable
                 then Inr (Inr n, b'\<lparr>writer_index := writer_index b + n\<rparr>)
                 else mapr (\<lambda>b''. (Inr n, b''))
                        (Write (drop writable data) (b'\<lparr>writer_index := length (buffer b')\<rparr>))))"

section \<open>Invariant and content\<close>

definition buffer_inv :: "byte_buffer \<Rightarrow> bool" where
  "buffer_inv b \<longleftrightarrow> reader_index b \<le> writer_index b \<and> writer_index b \<le> length (buffer b) \<and>
     length (buffer b) \<le> vector_max_size"

definition content :: "byte_buffer \<Rightarrow> bytes" where
  "content b = range_of b (reader_index b) (writer_index b)"

text \<open>There is room for \<open>n\<close> more bytes without exceeding \<open>vector::max_size()\<close>.\<close>

definition has_room :: "nat \<Rightarrow> byte_buffer \<Rightarrow> bool" where
  "has_room n b \<longleftrightarrow> writer_index b + n \<le> vector_max_size"

text \<open>A line end at offset \<open>p\<close> of the readable bytes.\<close>

definition crlf_at :: "byte_buffer \<Rightarrow> nat \<Rightarrow> bool" where
  "crlf_at b p \<longleftrightarrow> p + 1 < writer_index b \<and> buffer b ! p = 13 \<and> buffer b ! (p + 1) = 10"

section \<open>Lemmas\<close>

lemmas buffer_simps = buffer_inv_def content_def range_of_def has_room_def size_sub_def
  ReadableBytes_def WritableBytes_def DiscardableBytes_def BeginRead_def BeginWrite_def
  vector_max_size_def

lemma buffer_inv_ByteBuffer [simp]: "n \<le> vector_max_size \<Longrightarrow> buffer_inv (ByteBuffer n)"
  by (simp add: buffer_simps ByteBuffer_def)

lemma content_ByteBuffer [simp]: "content (ByteBuffer n) = []"
  by (simp add: buffer_simps ByteBuffer_def)

lemma length_content [simp]: "buffer_inv b \<Longrightarrow> length (content b) = ReadableBytes b"
  by (auto simp: buffer_simps)

lemma readable_bytes [simp]:
  "buffer_inv b \<Longrightarrow> take (ReadableBytes b) (drop (reader_index b) (buffer b)) = content b"
  by (simp add: buffer_simps)

lemma take_content:
  "buffer_inv b \<Longrightarrow> n \<le> ReadableBytes b \<Longrightarrow> take n (drop (reader_index b) (buffer b)) = take n (content b)"
  by (simp add: buffer_simps)

lemma SkipAll_spec: "buffer_inv (SkipAll b) \<longleftrightarrow> length (buffer b) \<le> vector_max_size" "content (SkipAll b) = []"
  by (simp_all add: buffer_simps SkipAll_def)

lemma SkipReadBytes_eq:
  assumes "buffer_inv b"
  shows "SkipReadBytes n b =
     (if n > ReadableBytes b then Inl AssertFailed
      else if n = ReadableBytes b then Inr (SkipAll b)
      else Inr (b\<lparr>reader_index := reader_index b + n\<rparr>))"
  using assms by (auto simp: SkipReadBytes_def guard_def)

lemma SkipReadBytes_ok:
  assumes "buffer_inv b" and "n \<le> ReadableBytes b"
  shows "res_ok (\<lambda>b'. buffer_inv b' \<and> content b' = drop n (content b) \<and>
           writer_index b' \<le> writer_index b \<and> buffer b' = buffer b) (SkipReadBytes n b)"
proof (cases "n = ReadableBytes b")
  case True
  with assms show ?thesis
    by (simp add: SkipReadBytes_eq SkipAll_spec) (simp add: SkipAll_def buffer_inv_def)
next
  case False
  with assms show ?thesis
    by (simp add: SkipReadBytes_eq) (auto simp: buffer_simps drop_take add.commute)
qed

lemma vector_resize_ok: "n \<le> vector_max_size \<Longrightarrow> vector_resize n xs = Inr (take n xs @ replicate (n - length xs) 0)"
  by (simp add: vector_resize_def)

lemma EnsureWritableBytes_eq:
  assumes "buffer_inv b" and "n \<le> vector_max_size"
  shows "EnsureWritableBytes n b =
     (if n \<le> WritableBytes b then Inr b
      else if n \<le> length (buffer b) - length (content b)
      then Inr (b\<lparr>buffer := overwrite 0 (content b) (buffer b), reader_index := 0,
                  writer_index := length (content b)\<rparr>)
      else if writer_index b + n \<le> vector_max_size
      then Inr (b\<lparr>buffer := buffer b @ replicate (writer_index b + n - length (buffer b)) 0\<rparr>)
      else Inl LengthError)"
proof -
  have sum: "size_add (WritableBytes b) (DiscardableBytes b) = length (buffer b) - length (content b)"
    "size_add (writer_index b) n = writer_index b + n"
    using assms by (auto simp: size_add_def buffer_simps)
  consider (fits) "n \<le> WritableBytes b"
    | (move) "WritableBytes b < n" "n \<le> length (buffer b) - length (content b)"
    | (grow) "WritableBytes b < n" "length (buffer b) - length (content b) < n"
    by linarith
  then show ?thesis
  proof cases
    case fits
    then show ?thesis by (simp add: EnsureWritableBytes_def)
  next
    case move
    let ?b = "b\<lparr>buffer := overwrite 0 (content b) (buffer b), reader_index := 0,
                writer_index := length (content b)\<rparr>"
    from move assms(1) have "0 < reader_index b" and "ReadableBytes b = ReadableBytes ?b"
      and "n \<le> WritableBytes ?b" by (auto simp: buffer_simps)
    then show ?thesis using move
      unfolding EnsureWritableBytes_def expandCapacity_def sum Let_def content_def [symmetric]
      using length_content [OF assms(1)] by (simp del: length_content)
  next
    case grow
    let ?b = "b\<lparr>buffer := buffer b @ replicate (writer_index b + n - length (buffer b)) 0\<rparr>"
    from grow assms(1) have wn: "length (buffer b) \<le> writer_index b + n" by (simp add: buffer_simps)
    with assms(1) have "n \<le> WritableBytes ?b" by (simp add: WritableBytes_def buffer_inv_def size_sub_def)
    with grow wn show ?thesis
      by (simp add: EnsureWritableBytes_def expandCapacity_def sum vector_resize_def guard_def)
  qed
qed

lemma EnsureWritableBytes_ok:
  assumes "buffer_inv b" and "has_room n b"
  shows "res_ok (\<lambda>b'. buffer_inv b' \<and> content b' = content b \<and> n \<le> WritableBytes b' \<and>
           writer_index b' \<le> writer_index b \<and> length (buffer b) \<le> length (buffer b'))
         (EnsureWritableBytes n b)"
proof -
  have "n \<le> vector_max_size" using assms(2) by (simp add: has_room_def)
  with assms show ?thesis
    by (simp add: EnsureWritableBytes_eq) (auto simp: buffer_simps overwrite_def)
qed

lemma Write_eq:
  assumes "buffer_inv b" and "length d \<le> vector_max_size"
  shows "Write d b = bindr (EnsureWritableBytes (length d) b) (\<lambda>b'.
     Inr (b'\<lparr>buffer := overwrite (writer_index b') d (buffer b'), writer_index := writer_index b' + length d\<rparr>))"
  unfolding Write_def
proof (rule bindr_cong [OF refl])
  fix b' assume "EnsureWritableBytes (length d) b = Inr b'"
  then have "length d \<le> WritableBytes b' \<and> writer_index b' \<le> length (buffer b')"
    using assms by (auto simp: EnsureWritableBytes_eq buffer_simps split: if_splits)
  then show "SkipWriteBytes (length d) (b'\<lparr>buffer := overwrite (BeginWrite b') d (buffer b')\<rparr>) =
    Inr (b'\<lparr>buffer := overwrite (writer_index b') d (buffer b'), writer_index := writer_index b' + length d\<rparr>)"
    by (auto simp: SkipWriteBytes_def buffer_simps guard_def)
qed

lemma Write_ok:
  assumes "buffer_inv b" and "has_room (length d) b"
  shows "res_ok (\<lambda>b'. buffer_inv b' \<and> content b' = content b @ d \<and>
           writer_index b' \<le> writer_index b + length d \<and> length (buffer b) \<le> length (buffer b'))
         (Write d b)"
  unfolding Write_def
proof (rule res_ok_bindr [OF EnsureWritableBytes_ok [OF assms]])
  fix b1
  assume b1: "buffer_inv b1 \<and> content b1 = content b \<and> length d \<le> WritableBytes b1 \<and>
    writer_index b1 \<le> writer_index b \<and> length (buffer b) \<le> length (buffer b1)"
  then have fits: "writer_index b1 + length d \<le> length (buffer b1)"
    and rw: "reader_index b1 \<le> writer_index b1" by (auto simp: buffer_simps split: if_splits)
  let ?b2 = "b1\<lparr>buffer := overwrite (BeginWrite b1) d (buffer b1)\<rparr>"
  from b1 fits have "length d \<le> WritableBytes ?b2" by (simp add: buffer_simps)
  with b1 fits rw show "res_ok (\<lambda>b'. buffer_inv b' \<and> content b' = content b @ d \<and>
           writer_index b' \<le> writer_index b + length d \<and> length (buffer b) \<le> length (buffer b'))
     (SkipWriteBytes (length d) ?b2)"
    using overwrite_segment [OF rw fits]
    by (simp add: SkipWriteBytes_def) (simp add: buffer_simps)
qed

section \<open>Searching\<close>

lemma std_search_bound: "std_search pat xs \<le> length xs"
  by (induction xs) auto

lemma std_search_least: "j < std_search pat xs \<Longrightarrow> take (length pat) (drop j xs) \<noteq> pat"
proof (induction xs arbitrary: j)
  case (Cons x xs)
  then show ?case by (cases j) (auto split: if_splits)
qed simp

lemma std_search_found: "std_search pat xs < length xs \<Longrightarrow> take (length pat) (drop (std_search pat xs) xs) = pat"
  by (induction xs) (auto split: if_splits)

lemma memchr_None: "memchr c xs = None \<longleftrightarrow> c \<notin> set xs"
  by (induction xs) auto

lemma memchr_Some:
  "memchr c xs = Some i \<longleftrightarrow> i < length xs \<and> xs ! i = c \<and> (\<forall>j < i. xs ! j \<noteq> c)"
proof (induction xs arbitrary: i)
  case (Cons x xs)
  then show ?case by (cases i) (auto simp: less_Suc_eq_0_disj)
qed simp
lemma take_2_eq:
  "take (Suc (Suc 0)) xs = [x, y] \<longleftrightarrow> Suc 0 < length xs \<and> xs ! 0 = x \<and> xs ! Suc 0 = y"
  by (cases xs; cases "tl xs") auto

lemma crlf_in_range:
  assumes "buffer_inv b" and "start \<le> writer_index b"
  shows "take (length kCRLF) (drop j (range_of b start (writer_index b))) = kCRLF \<longleftrightarrow> crlf_at b (start + j)"
  using assms by (auto simp: kCRLF_def take_2_eq crlf_at_def range_of_def buffer_inv_def add.assoc)

lemma search_crlf:
  assumes "buffer_inv b" and "start \<le> writer_index b"
  defines "i \<equiv> std_search kCRLF (range_of b start (writer_index b))"
  shows "start + i \<le> writer_index b" and "p < i \<Longrightarrow> \<not> crlf_at b (start + p)"
    and "start + i \<noteq> writer_index b \<Longrightarrow> crlf_at b (start + i)"
proof -
  have len: "length (range_of b start (writer_index b)) = writer_index b - start"
    using assms(1) by (auto simp: range_of_def buffer_inv_def)
  show le: "start + i \<le> writer_index b"
    using std_search_bound [of kCRLF "range_of b start (writer_index b)"] assms(2) by (simp add: i_def len)
  show "p < i \<Longrightarrow> \<not> crlf_at b (start + p)"
    using std_search_least [of p kCRLF "range_of b start (writer_index b)"] crlf_in_range [OF assms(1,2)]
    by (simp add: i_def)
  assume "start + i \<noteq> writer_index b"
  with le have "i < length (range_of b start (writer_index b))" by (simp add: len)
  then show "crlf_at b (start + i)"
    using std_search_found [of kCRLF "range_of b start (writer_index b)"] crlf_in_range [OF assms(1,2)]
    by (simp add: i_def)
qed

section \<open>The byte queue interface\<close>

text \<open>What the protocol code relies on: \<open>put\<close> appends, \<open>skip\<close> drops from the front, both keep
  the invariant and account for the room that is left.\<close>

datatype fifo_op = Put bytes | Skip nat

fun fifo_spec :: "fifo_op list \<Rightarrow> bytes \<Rightarrow> bytes option" where
  "fifo_spec [] q = Some q"
| "fifo_spec (Put d # ops) q = fifo_spec ops (q @ d)"
| "fifo_spec (Skip n # ops) q = (if n \<le> length q then fifo_spec ops (drop n q) else None)"

fun fifo_written :: "fifo_op list \<Rightarrow> nat" where
  "fifo_written [] = 0"
| "fifo_written (Put d # ops) = length d + fifo_written ops"
| "fifo_written (Skip n # ops) = fifo_written ops"

fun fifo_step :: "(bytes \<Rightarrow> 'b \<Rightarrow> 'b res) \<Rightarrow> (nat \<Rightarrow> 'b \<Rightarrow> 'b res) \<Rightarrow> fifo_op \<Rightarrow> 'b \<Rightarrow> 'b res" where
  "fifo_step put skip (Put d) b = put d b"
| "fifo_step put skip (Skip n) b = skip n b"

locale byte_fifo =
  fixes inv :: "'b \<Rightarrow> bool"
    and bytes_of :: "'b \<Rightarrow> bytes"
    and room :: "nat \<Rightarrow> 'b \<Rightarrow> bool"
    and put :: "bytes \<Rightarrow> 'b \<Rightarrow> 'b res"
    and skip :: "nat \<Rightarrow> 'b \<Rightarrow> 'b res"
  assumes put_law: "inv b \<Longrightarrow> room (length d + k) b \<Longrightarrow>
      res_ok (\<lambda>b'. inv b' \<and> bytes_of b' = bytes_of b @ d \<and> room k b') (put d b)"
    and skip_law: "inv b \<Longrightarrow> n \<le> length (bytes_of b) \<Longrightarrow>
      res_ok (\<lambda>b'. inv b' \<and> bytes_of b' = drop n (bytes_of b) \<and> (\<forall>k. room k b \<longrightarrow> room k b')) (skip n b)"
begin

lemma put_ok: "inv b \<Longrightarrow> room (length d) b \<Longrightarrow>
    res_ok (\<lambda>b'. inv b' \<and> bytes_of b' = bytes_of b @ d) (put d b)"
  using put_law [of b d 0] by (auto elim: res_ok_mono)

lemma refines_queue:
  assumes "inv b" and "room (fifo_written ops + k) b" and "fifo_spec ops (bytes_of b) = Some q"
  shows "res_ok (\<lambda>b'. inv b' \<and> bytes_of b' = q \<and> room k b') (fold_res (fifo_step put skip) ops b)"
  using assms
proof (induction ops arbitrary: b)
  case Nil
  then show ?case by simp
next
  case (Cons oper ops)
  show ?case
  proof (cases oper)
    case (Put d)
    with Cons.prems have "res_ok (\<lambda>b'. inv b' \<and> bytes_of b' = bytes_of b @ d \<and>
        room (fifo_written ops + k) b') (put d b)"
      by (intro put_law) (simp_all add: add.assoc)
    with Put Cons show ?thesis by (auto intro!: res_ok_bindr)
  next
    case (Skip n)
    with Cons.prems have "n \<le> length (bytes_of b)" by (simp split: if_splits)
    with Skip Cons show ?thesis by (auto intro!: res_ok_bindr [OF skip_law])
  qed
qed

lemma put_all:
  assumes "inv b" and "room (length (concat ds) + k) b"
  shows "res_ok (\<lambda>b'. inv b' \<and> bytes_of b' = bytes_of b @ concat ds \<and> room k b') (fold_res put ds b)"
  using assms
proof (induction ds arbitrary: b)
  case Nil
  then show ?case by simp
next
  case (Cons d ds)
  from Cons.prems have "res_ok (\<lambda>b'. inv b' \<and> bytes_of b' = bytes_of b @ d \<and>
      room (length (concat ds) + k) b') (put d b)"
    by (intro put_law) (simp_all add: add.assoc)
  then obtain b1 where b1: "put d b = Inr b1" "inv b1" "bytes_of b1 = bytes_of b @ d"
      "room (length (concat ds) + k) b1" by (auto elim: res_ok_E)
  from Cons.IH [OF b1(2,4)] b1 show ?case by simp
qed

end

interpretation buf: byte_fifo buffer_inv content has_room Write SkipReadBytes
proof
  fix b :: byte_buffer and d :: bytes and k
  assume b: "buffer_inv b" and r: "has_room (length d + k) b"
  then have "has_room (length d) b" by (simp add: has_room_def)
  from Write_ok [OF b this] show "res_ok (\<lambda>b'. buffer_inv b' \<and> content b' = content b @ d \<and> has_room k b') (Write d b)"
    using r by (auto elim!: res_ok_mono simp: has_room_def)
next
  fix b n assume "buffer_inv b" and "n \<le> length (content b)"
  then have "buffer_inv b" "n \<le> ReadableBytes b" by simp_all
  from SkipReadBytes_ok [OF this]
  show "res_ok (\<lambda>b'. buffer_inv b' \<and> content b' = drop n (content b) \<and> (\<forall>k. has_room k b \<longrightarrow> has_room k b'))
     (SkipReadBytes n b)"
    by (auto elim!: res_ok_mono simp: has_room_def)
qed

section \<open>Integers on the wire\<close>

lemma peek_bytes_content:
  assumes "buffer_inv b" and "content b = d @ q"
  shows "peek_bytes (length d) b = d" and "length d \<le> ReadableBytes b"
proof -
  show r: "length d \<le> ReadableBytes b"
    using length_content [OF assms(1)] by (simp add: assms(2))
  show "peek_bytes (length d) b = d"
    using take_content [OF assms(1) r] assms(2) by (simp add: peek_bytes_def BeginRead_def)
qed

lemma PeekInt_wire:
  assumes "buffer_inv b"
  shows "content b = network_bytes 2 x16 @ q \<Longrightarrow> PeekInt16 ord b = Inr x16"
    and "content b = network_bytes 4 x32 @ q \<Longrightarrow> PeekInt32 ord b = Inr x32"
    and "content b = network_bytes 8 x64 @ q \<Longrightarrow> PeekInt64 ord b = Inr x64"
    and "content b = x8 # q \<Longrightarrow> PeekInt8 b = Inr x8"
proof -
  assume "content b = network_bytes 2 x16 @ q"
  from peek_bytes_content [OF assms this] show "PeekInt16 ord b = Inr x16"
    by (simp add: PeekInt16_def gntoh_object_of word_of_network_bytes)
next
  assume "content b = network_bytes 4 x32 @ q"
  from peek_bytes_content [OF assms this] show "PeekInt32 ord b = Inr x32"
    by (simp add: PeekInt32_def gntoh_object_of word_of_network_bytes)
next
  assume "content b = network_bytes 8 x64 @ q"
  from peek_bytes_content [OF assms this] show "PeekInt64 ord b = Inr x64"
    by (simp add: PeekInt64_def gntoh_object_of word_of_network_bytes)
next
  assume "content b = x8 # q"
  then have c: "content b = [x8] @ q" by simp
  then have "drop (reader_index b) (buffer b) \<noteq> []" by (auto simp: buffer_simps)
  then have "reader_index b < length (buffer b)" by simp
  with peek_bytes_content [OF assms c] show "PeekInt8 b = Inr x8"
    by (simp add: PeekInt8_def peek_bytes_def BeginRead_def take_Suc hd_drop_conv_nth)
qed

lemma skip_prefix:
  assumes "buffer_inv b" and "content b = d @ q"
  shows "res_ok (\<lambda>b'. buffer_inv b' \<and> content b' = q) (SkipReadBytes (length d) b)"
  using SkipReadBytes_ok [OF assms(1) peek_bytes_content(2) [OF assms]] assms(2)
  by (auto elim!: res_ok_mono)

lemma ReadInt_wire:
  assumes "buffer_inv b"
  shows "content b = network_bytes 2 x16 @ q \<Longrightarrow>
      res_ok (\<lambda>(x, b'). x = x16 \<and> buffer_inv b' \<and> content b' = q) (ReadInt16 ord b)"
    and "content b = network_bytes 4 x32 @ q \<Longrightarrow>
      res_ok (\<lambda>(x, b'). x = x32 \<and> buffer_inv b' \<and> content b' = q) (ReadInt32 ord b)"
    and "content b = network_bytes 8 x64 @ q \<Longrightarrow>
      res_ok (\<lambda>(x, b'). x = x64 \<and> buffer_inv b' \<and> content b' = q) (ReadInt64 ord b)"
    and "content b = x8 # q \<Longrightarrow>
      res_ok (\<lambda>(x, b'). x = x8 \<and> buffer_inv b' \<and> content b' = q) (ReadInt8 b)"
proof -
  assume c: "content b = network_bytes 2 x16 @ q"
  from skip_prefix [OF assms c] PeekInt_wire(1) [OF assms c]
  show "res_ok (\<lambda>(x, b'). x = x16 \<and> buffer_inv b' \<and> content b' = q) (ReadInt16 ord b)"
    by (auto simp: ReadInt16_def elim!: res_ok_E)
next
  assume c: "content b = network_bytes 4 x32 @ q"
  from skip_prefix [OF assms c] PeekInt_wire(2) [OF assms c]
  show "res_ok (\<lambda>(x, b'). x = x32 \<and> buffer_inv b' \<and> content b' = q) (ReadInt32 ord b)"
    by (auto simp: ReadInt32_def elim!: res_ok_E)
next
  assume c: "content b = network_bytes 8 x64 @ q"
  from skip_prefix [OF assms c] PeekInt_wire(3) [OF assms c]
  show "res_ok (\<lambda>(x, b'). x = x64 \<and> buffer_inv b' \<and> content b' = q) (ReadInt64 ord b)"
    by (auto simp: ReadInt64_def elim!: res_ok_E)
next
  assume c: "content b = x8 # q"
  then have "content b = [x8] @ q" by simp
  from skip_prefix [OF assms this] PeekInt_wire(4) [OF assms c]
  show "res_ok (\<lambda>(x, b'). x = x8 \<and> buffer_inv b' \<and> content b' = q) (ReadInt8 b)"
    by (auto simp: ReadInt8_def elim!: res_ok_E)
qed

section \<open>Shrinking\<close>

lemma content_front: "content \<lparr>buffer = d @ xs, reader_index = 0, writer_index = length d\<rparr> = d"
  by (simp add: content_def range_of_def)

lemma ToStringView_ok:
  assumes "buffer_inv b" and "length (content b) < 2 ^ 31"
  shows "ToStringView b = Inr (content b)"
  using assms by (simp add: ToStringView_def size_via_int_def Let_def) (auto simp: buffer_simps)

section \<open>Properties\<close>



text \<open>A write appends its bytes or fails with \<open>std::length_error\<close>, and it fails only when the
  bytes fit neither into the free space nor below the maximal vector size. The vector is not
  reallocated when the free space before and after the readable bytes suffices together, and
  otherwise grows to exactly \<open>writer_index + len\<close>.\<close>

theorem Write_result:
  assumes "buffer_inv b" and "length d \<le> vector_max_size"
  shows "case Write d b of
     Inl e \<Rightarrow> e = LengthError \<and> vector_max_size < writer_index b + length d \<and>
       length (buffer b) - length (content b) < length d
   | Inr b' \<Rightarrow> buffer_inv b' \<and> content b' = content b @ d \<and>
       length (buffer b') = (if length d \<le> length (buffer b) - length (content b)
         then length (buffer b) else writer_index b + length d)"
proof (cases "length d \<le> length (buffer b) - length (content b) \<or> writer_index b + length d \<le> vector_max_size")
  case False
  then have "\<not> length d \<le> WritableBytes b" using assms(1) by (auto simp: buffer_simps)
  with False assms show ?thesis by (simp add: Write_eq EnsureWritableBytes_eq)
next
  case True
  have keeps: "buffer_inv b' \<and> content b' = content b \<and> length d \<le> WritableBytes b' \<and>
      length (buffer b') = (if length d \<le> length (buffer b) - length (content b)
         then length (buffer b) else writer_index b + length d)"
    if "EnsureWritableBytes (length d) b = Inr b'" for b'
    using that assms by (auto simp: EnsureWritableBytes_eq buffer_simps overwrite_def split: if_splits)
  from True assms obtain b' where b': "EnsureWritableBytes (length d) b = Inr b'"
    by (cases "EnsureWritableBytes (length d) b") (auto simp: EnsureWritableBytes_eq split: if_splits)
  note k = keeps [OF b']
  then have fits: "reader_index b' \<le> writer_index b'" "writer_index b' + length d \<le> length (buffer b')"
    by (auto simp: buffer_simps split: if_splits)
  from overwrite_segment [OF fits] k fits b' assms show ?thesis
    by (simp add: Write_eq) (simp add: buffer_inv_def content_def range_of_def)
qed

theorem Write_result_witness:
  "\<exists>b'. Write [7, 8, 9] \<lparr>buffer = [1, 2, 3, 4], reader_index = 2, writer_index = 3\<rparr> = Inr b' \<and>
     content b' = [3, 7, 8, 9] \<and> length (buffer b') = 4"
  using Write_result [of "\<lparr>buffer = [1, 2, 3, 4], reader_index = 2, writer_index = 3\<rparr>" "[7, 8, 9]"]
  by (auto simp: buffer_inv_def vector_max_size_def content_def range_of_def split: sum.splits)

text \<open>C35: integers written on one host are read back on another, whatever the byte orders of the
  two: the reader sees the values written, in order, and the bytes after them stay queued.\<close>

theorem wire_roundtrip:
  assumes "buffer_inv out" and "content out = []" and "has_room 15 out"
    and "buffer_inv inp"
    and sent: "bindr (WriteInt64 wr x out) (\<lambda>o1. bindr (WriteInt32 wr y o1) (\<lambda>o2.
      bindr (WriteInt16 wr z o2) (WriteInt8 w))) = Inr out'"
    and "content inp = content out' @ q"
  shows "res_ok (\<lambda>(r, inp'). r = (x, y, ucast z, w) \<and> content inp' = q)
     (bindr (ReadInt64 rd inp) (\<lambda>(a, i1). bindr (ReadInt32 rd i1) (\<lambda>(b, i2).
      bindr (ReadInt16 rd i2) (\<lambda>(c, i3). bindr (ReadInt8 i3) (\<lambda>(d, i4). Inr ((a, b, c, d), i4))))))"
proof -
  let ?ds = "[network_bytes 8 x, network_bytes 4 y, network_bytes 2 (ucast z :: u16), [w]]"
  have "fold_res Write ?ds out = Inr out'"
    using sent by (simp add: WriteInt64_def WriteInt32_def WriteInt16_def WriteInt8_def object_bytes_ghton
        fun_eq_iff cong: bindr_cong)
  with buf.put_all [of out ?ds 0] assms(1-3)
  have "content inp = network_bytes 8 x @ network_bytes 4 y @ network_bytes 2 (ucast z :: u16) @ w # q"
    by (simp add: assms(6))
  then show ?thesis
    by (auto intro!: res_ok_bindr [OF ReadInt_wire(3) [OF assms(4)]] res_ok_bindr [OF ReadInt_wire(2)]
        res_ok_bindr [OF ReadInt_wire(1)] res_ok_bindr [OF ReadInt_wire(4)])
qed

text \<open>C36: \<open>ReadFD\<close> appends to the readable bytes exactly the bytes \<open>readv\<close> delivered, splitting them
  between the buffer and the stack buffer, and returns their number, at most 128k-1 when the
  stack buffer is in use; on an error the buffer is unchanged.\<close>

theorem ReadFD_appends:
  assumes "buffer_inv b" and "length (buffer b) + extrabuf_size \<le> vector_max_size"
    and "\<And>cap d. readv cap = Inr d \<Longrightarrow> length d \<le> cap"
  shows "case ReadFD readv b of
     Inl e \<Rightarrow> False
   | Inr (Inl errno, b') \<Rightarrow> b' = b
   | Inr (Inr n, b') \<Rightarrow> (\<exists>d cap. readv cap = Inr d \<and> n = length d \<and> buffer_inv b' \<and>
       content b' = content b @ d) \<and> (WritableBytes b < extrabuf_size \<longrightarrow> n \<le> 131071)"
proof -
  let ?w = "WritableBytes b"
  let ?cap = "if ?w < extrabuf_size then ?w + extrabuf_size else ?w"
  show ?thesis
  proof (cases "readv ?cap")
    case (Inl e)
    then show ?thesis by (simp add: ReadFD_def Let_def)
  next
    case (Inr d)
    then have len: "length d \<le> ?cap" by (rule assms(3))
    let ?b = "b\<lparr>buffer := overwrite (writer_index b) (take ?w d) (buffer b)\<rparr>"
    have rw: "reader_index b \<le> writer_index b" "writer_index b + length (take ?w d) \<le> length (buffer b)"
      using assms(1) by (auto simp: buffer_simps)
    note seg = overwrite_segment [OF rw]
    show ?thesis
    proof (cases "length d \<le> ?w")
      case True
      with Inr seg rw assms(1) len show ?thesis
        by (auto simp: ReadFD_def Let_def extrabuf_size_def buffer_inv_def content_def range_of_def)
    next
      case False
      let ?b' = "?b\<lparr>writer_index := length (buffer ?b)\<rparr>"
      from False have w: "length (take ?w d) = ?w" by simp
      with rw assms(1) have lb: "length (buffer ?b) = length (buffer b)" "writer_index b + ?w = length (buffer b)"
          "length (buffer b) - writer_index b = ?w"
        by (auto simp: buffer_simps)
      from False len have d: "length (drop ?w d) \<le> extrabuf_size" "?w < extrabuf_size"
        by (auto split: if_splits)
      have "buffer_inv ?b'" "has_room (length (drop ?w d)) ?b'" "content ?b' = content b @ take ?w d"
        using lb d assms(1,2) seg w by (auto simp: buffer_inv_def has_room_def content_def range_of_def)
      from buf.put_ok [OF this(1,2)] this(3) False Inr len d show ?thesis
        by (auto simp: ReadFD_def Let_def extrabuf_size_def elim!: res_ok_E)
    qed
  qed
qed


theorem wire_roundtrip_witness:
  "\<exists>sent. bindr (WriteInt64 LittleEndian 1 (ByteBuffer 15)) (\<lambda>o1. bindr (WriteInt32 LittleEndian 2 o1) (\<lambda>o2.
      bindr (WriteInt16 LittleEndian 3 o2) (WriteInt8 4))) = Inr sent \<and>
    res_ok (\<lambda>(r, inp'). r = (1, 2, 3, 4) \<and> content inp' = [])
     (bindr (ReadInt64 BigEndian sent) (\<lambda>(a, i1). bindr (ReadInt32 BigEndian i1) (\<lambda>(b, i2).
      bindr (ReadInt16 BigEndian i2) (\<lambda>(c, i3). bindr (ReadInt8 i3) (\<lambda>(d, i4). Inr ((a, b, c, d), i4))))))"
proof -
  let ?out = "ByteBuffer 15"
  let ?ds = "[network_bytes 8 (1 :: u64), network_bytes 4 (2 :: u32), network_bytes 2 (ucast (3 :: u32) :: u16), [4]]"
  have out: "buffer_inv ?out" "has_room 15 ?out"
    by (simp_all add: has_room_def ByteBuffer_def vector_max_size_def buffer_inv_def)
  with buf.put_all [of ?out ?ds 0] obtain sent
    where s: "fold_res Write ?ds ?out = Inr sent" "buffer_inv sent" by (auto elim: res_ok_E)
  from s(1) have "bindr (WriteInt64 LittleEndian 1 ?out) (\<lambda>o1. bindr (WriteInt32 LittleEndian 2 o1) (\<lambda>o2.
      bindr (WriteInt16 LittleEndian 3 o2) (WriteInt8 4))) = Inr sent"
    by (simp add: WriteInt64_def WriteInt32_def WriteInt16_def WriteInt8_def object_bytes_ghton cong: bindr_cong)
  with wire_roundtrip [OF out(1) _ out(2) s(2) this, of "[]" BigEndian] show ?thesis by auto
qed

theorem ReadFD_appends_witness:
  "case ReadFD (\<lambda>cap. Inr (take cap [5, 6, 7])) \<lparr>buffer = [1, 2], reader_index = 0, writer_index = 1\<rparr> of
     Inl e \<Rightarrow> False
   | Inr (Inl errno, b') \<Rightarrow> False
   | Inr (Inr n, b') \<Rightarrow> n = 3 \<and> content b' = [1, 5, 6, 7]"
  using ReadFD_appends [of "\<lparr>buffer = [1, 2], reader_index = 0, writer_index = 1\<rparr>" "\<lambda>cap. Inr (take cap [5, 6, 7])"]
  by (simp add: buffer_inv_def vector_max_size_def extrabuf_size_def ReadFD_def WritableBytes_def size_sub_def
      content_def range_of_def Write_def EnsureWritableBytes_def expandCapacity_def size_add_def DiscardableBytes_def
      vector_resize_def overwrite_def SkipWriteBytes_def BeginWrite_def guard_def)

text \<open>\<open>FindCRLF(start)\<close> finds the first CR LF at or after \<open>start\<close> among the readable bytes, and
  returns null exactly when there is none; \<open>FindCRLF()\<close> is the search from the first readable byte.\<close>

theorem FindCRLF_first:
  assumes "buffer_inv b" and "reader_index b \<le> start" and "start \<le> writer_index b"
  shows "(\<exists>r. FindCRLF_from start b = Inr r \<and>
     (case r of None \<Rightarrow> (\<forall>p. start \<le> p \<longrightarrow> \<not> crlf_at b p)
      | Some p \<Rightarrow> start \<le> p \<and> crlf_at b p \<and> (\<forall>p'. start \<le> p' \<and> p' < p \<longrightarrow> \<not> crlf_at b p'))) \<and>
     FindCRLF_from (reader_index b) b = Inr (FindCRLF b)"
proof
  let ?i = "std_search kCRLF (range_of b start (writer_index b))"
  note s = search_crlf [OF assms(1,3)]
  have eq: "FindCRLF_from start b = Inr (if start + ?i = writer_index b then None else Some (start + ?i))"
    using assms by (simp add: FindCRLF_from_def BeginRead_def BeginWrite_def Let_def)
  have before: "\<not> crlf_at b p'" if "start \<le> p'" "p' < start + ?i" for p'
    using s(2) [of "p' - start"] that by simp
  have none: "\<not> crlf_at b p'" if "start + ?i = writer_index b" "start \<le> p'" for p'
    using before [of p'] that by (cases "p' < writer_index b") (auto simp: crlf_at_def)
  show "\<exists>r. FindCRLF_from start b = Inr r \<and>
     (case r of None \<Rightarrow> (\<forall>p. start \<le> p \<longrightarrow> \<not> crlf_at b p)
      | Some p \<Rightarrow> start \<le> p \<and> crlf_at b p \<and> (\<forall>p'. start \<le> p' \<and> p' < p \<longrightarrow> \<not> crlf_at b p'))"
    unfolding eq using s(3) before none by simp
  show "FindCRLF_from (reader_index b) b = Inr (FindCRLF b)"
    using assms by (simp add: FindCRLF_from_def FindCRLF_def BeginRead_def BeginWrite_def Let_def)
qed

theorem FindCRLF_first_witness:
  "(\<exists>r. FindCRLF_from 1 \<lparr>buffer = [65, 13, 10, 66], reader_index = 0, writer_index = 4\<rparr> = Inr r) \<and>
   FindCRLF \<lparr>buffer = [65, 13, 10, 66], reader_index = 0, writer_index = 4\<rparr> = Some 1"
  using FindCRLF_first [of "\<lparr>buffer = [65, 13, 10, 66], reader_index = 0, writer_index = 4\<rparr>" 1]
  by (auto simp: buffer_inv_def vector_max_size_def FindCRLF_def BeginRead_def BeginWrite_def
      range_of_def kCRLF_def)

text \<open>\<open>FindEOL(start)\<close> likewise finds the first newline byte.\<close>

theorem FindEOL_first:
  assumes "buffer_inv b" and "reader_index b \<le> start" and "start \<le> writer_index b"
  shows "\<exists>r. FindEOL_from start b = Inr r \<and>
     (case r of None \<Rightarrow> (\<forall>p. start \<le> p \<and> p < writer_index b \<longrightarrow> buffer b ! p \<noteq> 10)
      | Some p \<Rightarrow> start \<le> p \<and> p < writer_index b \<and> buffer b ! p = 10 \<and>
          (\<forall>p'. start \<le> p' \<and> p' < p \<longrightarrow> buffer b ! p' \<noteq> 10))"
proof -
  let ?seg = "range_of b start (writer_index b)"
  have len: "length ?seg = writer_index b - start"
    using assms(1) by (auto simp: range_of_def buffer_inv_def)
  have nth: "?seg ! j = buffer b ! (start + j)" if "j < length ?seg" for j
    using that assms by (simp add: range_of_def buffer_inv_def len)
  have eq: "FindEOL_from start b = Inr (map_option (\<lambda>i. start + i) (memchr 10 ?seg))"
    using assms by (simp add: FindEOL_from_def BeginRead_def BeginWrite_def)
  show ?thesis
  proof (cases "memchr 10 ?seg")
    case None
    then have "\<forall>j < length ?seg. ?seg ! j \<noteq> 10" by (auto simp: memchr_None in_set_conv_nth)
    then have "buffer b ! p \<noteq> 10" if "start \<le> p" "p < writer_index b" for p
      using that nth [of "p - start"] by (force simp: len)
    with None eq show ?thesis by simp
  next
    case (Some i)
    then have i: "i < length ?seg" "?seg ! i = 10" "\<forall>j < i. ?seg ! j \<noteq> 10"
      by (simp_all add: memchr_Some)
    have "buffer b ! p \<noteq> 10" if "start \<le> p" "p < start + i" for p
      using that i nth [of "p - start"] by (force simp: len)
    with Some eq i nth [of i] show ?thesis by (simp add: len)
  qed
qed



theorem FindEOL_first_witness:
  "FindEOL_from 1 \<lparr>buffer = [10, 65, 10, 66], reader_index = 0, writer_index = 4\<rparr> = Inr (Some 2)"
  using FindEOL_first [of "\<lparr>buffer = [10, 65, 10, 66], reader_index = 0, writer_index = 4\<rparr>" 1]
  by (simp add: buffer_inv_def vector_max_size_def FindEOL_from_def BeginRead_def BeginWrite_def
      range_of_def)

text \<open>\<open>Shrink\<close> keeps the readable bytes, moves them to the front and leaves the smallest vector
  that \<open>ByteBuffer\<close> starts with or that holds them, as long as they are less than 2 GiB.\<close>

theorem Shrink_keeps_content:
  assumes "buffer_inv b" and "length (content b) < 2 ^ 31"
  shows "\<exists>b'. Shrink b = Inr b' \<and> buffer_inv b' \<and> content b' = content b \<and> reader_index b' = 0 \<and>
     length (buffer b') = max kInitialSize (length (content b))"
proof -
  let ?n = "length (content b)" and ?o = "ByteBuffer kInitialSize"
  have o: "buffer_inv ?o" "?n \<le> vector_max_size" "WritableBytes ?o = kInitialSize"
    using assms(2) by (auto simp: ByteBuffer_def kInitialSize_def buffer_inv_def vector_max_size_def
        WritableBytes_def size_sub_def)
  let ?o1 = "ByteBuffer (max kInitialSize ?n)"
  have e: "EnsureWritableBytes ?n ?o = Inr ?o1"
    using o assms(2) by (auto simp: EnsureWritableBytes_eq ByteBuffer_def kInitialSize_def
        vector_max_size_def max_def replicate_add [symmetric])
  have "EnsureWritableBytes ?n ?o1 = Inr ?o1"
    by (simp add: EnsureWritableBytes_def WritableBytes_def size_sub_def ByteBuffer_def)
  then have w: "Write (content b) ?o1 = Inr (?o1\<lparr>buffer := overwrite 0 (content b) (buffer ?o1), writer_index := ?n\<rparr>)"
    using o assms(2) by (simp add: Write_eq buffer_inv_def ByteBuffer_def kInitialSize_def vector_max_size_def)
  let ?o2 = "?o1\<lparr>buffer := overwrite 0 (content b) (buffer ?o1), writer_index := ?n\<rparr>"
  have "Shrink b = Inr ?o2"
    using e w assms by (simp add: Shrink_def ToStringView_ok Swap_def)
  moreover have "buffer_inv ?o2 \<and> content ?o2 = content b \<and> length (buffer ?o2) = max kInitialSize ?n"
    using assms(2) by (simp add: buffer_inv_def ByteBuffer_def content_front
        overwrite_def kInitialSize_def vector_max_size_def del: length_content)
  moreover have "reader_index ?o2 = 0" by (simp add: ByteBuffer_def)
  ultimately show ?thesis by blast
qed

theorem Shrink_keeps_content_witness:
  "\<exists>b'. Shrink \<lparr>buffer = [1, 2, 3], reader_index = 1, writer_index = 3\<rparr> = Inr b' \<and> content b' = [2, 3]"
  using Shrink_keeps_content [of "\<lparr>buffer = [1, 2, 3], reader_index = 1, writer_index = 3\<rparr>"]
  by (auto simp: buffer_inv_def vector_max_size_def content_def range_of_def)

text \<open>A view of a buffer with 2 GiB or more to read is wrong: its length goes through \<open>int\<close>, comes
  back as a huge \<open>size_t\<close>, and the view leaves the vector; \<open>Shrink\<close> reads through it.\<close>

theorem ToStringView_overrun:
  assumes "buffer_inv b" and "2 ^ 31 \<le> length (content b)" and "length (content b) < 2 ^ 32"
  shows "ToStringView b = Inl InvalidAccess"
proof -
  have "2 ^ 63 \<le> size_via_int (ReadableBytes b)"
    using assms by (simp add: size_via_int_def Let_def)
  with assms(1) show ?thesis
    by (simp add: ToStringView_def Let_def guard_def buffer_inv_def vector_max_size_def)
qed

theorem ToStringView_overrun_witness:
  "ToStringView \<lparr>buffer = replicate (2 ^ 31) 0, reader_index = 0, writer_index = 2 ^ 31\<rparr> = Inl InvalidAccess"
  by (rule ToStringView_overrun) (simp_all add: buffer_inv_def vector_max_size_def content_def range_of_def)

end
