(* ===== verification/Codec.thy ===== *)
theory Codec
  imports Byte_Buffer
begin

unbundle bit_operations_syntax

text \<open>
  \<open>LengthHeaderCodec\<close> of the chat example, \<open>examples/chat/codec.h\<close>: frames of a 4-byte length in
  network order and a payload. The two calls \<open>OnMessage\<close> makes besides consuming the buffer,
  \<open>messageCallback_(conn, message)\<close> and \<open>conn->Shutdown()\<close>, are returned as a list of events in
  the order they are made. \<open>decode\<close> is the reference parser on byte sequences; \<open>feed\<close> is a
  connection that appends each chunk it reads to its input buffer and calls \<open>OnMessage\<close>.
\<close>

section \<open>The codec\<close>

datatype codec_event = Message bytes | ShutdownConn

definition kHeaderLen :: nat where
  "kHeaderLen = 4"

lemma SkipReadBytes_ReadableBytes:
  "SkipReadBytes n b = Inr b' \<Longrightarrow> ReadableBytes b' = ReadableBytes b - n"
  by (auto simp: SkipReadBytes_def SkipAll_def ReadableBytes_def size_sub_def res_simps split: if_splits)

function OnMessage :: "byte_order \<Rightarrow> byte_buffer \<Rightarrow> (codec_event list \<times> byte_buffer) res" where
  "OnMessage ord buf =
     (if ReadableBytes buf \<ge> kHeaderLen
      then let len = gntohl ord (object_of ord (peek_bytes 4 buf))
           in if len > 65536 then Inr ([ShutdownConn], buf)
              else if ReadableBytes buf \<ge> unat len + kHeaderLen
              then bindr (SkipReadBytes kHeaderLen buf) (\<lambda>buf1.
                     let message = take (unat len) (drop (BeginRead buf1) (buffer buf1))
                     in bindr (SkipReadBytes (unat len) buf1) (\<lambda>buf2.
                        mapr (\<lambda>(es, buf'). (Message message # es, buf')) (OnMessage ord buf2)))
              else Inr ([], buf)
      else Inr ([], buf))"
  by pat_completeness auto
termination
  by (relation "measure (\<lambda>(ord, buf). ReadableBytes buf)")
    (auto dest!: SkipReadBytes_ReadableBytes simp: kHeaderLen_def)

declare OnMessage.simps [simp del]

text \<open>The bytes \<open>Send\<close> hands to \<open>TCPConnection::Send\<close>.\<close>

definition codec_Send :: "byte_order \<Rightarrow> bytes \<Rightarrow> bytes res" where
  "codec_Send ord message =
     bindr (Write (object_bytes ord 4 (ghtonl ord (word_of_nat (length message)))) (ByteBuffer kInitialSize)) (\<lambda>buf.
     bindr (Write message buf) (\<lambda>buf'. Inr (take (ReadableBytes buf') (drop (BeginRead buf') (buffer buf')))))"

section \<open>Reference parser\<close>

definition frame_len :: "bytes \<Rightarrow> nat" where
  "frame_len q = unat (word_of_le (rev (take 4 q)) :: u32)"

function decode :: "bytes \<Rightarrow> codec_event list \<times> bytes" where
  "decode q =
     (if length q < 4 then ([], q)
      else if frame_len q > 65536 then ([ShutdownConn], q)
      else if length q < 4 + frame_len q then ([], q)
      else (let (es, r) = decode (drop (4 + frame_len q) q)
            in (Message (take (frame_len q) (drop 4 q)) # es, r)))"
  by pat_completeness auto
termination
  by (relation "measure length") auto

declare decode.simps [simp del]

definition encode :: "bytes \<Rightarrow> bytes" where
  "encode m = network_bytes 4 (word_of_nat (length m) :: u32) @ m"

fun feed :: "byte_order \<Rightarrow> byte_buffer \<Rightarrow> bytes list \<Rightarrow> (codec_event list \<times> byte_buffer) res" where
  "feed ord b [] = Inr ([], b)"
| "feed ord b (c # cs) =
     bindr (Write c b) (\<lambda>b1. bindr (OnMessage ord b1) (\<lambda>(es, b2).
       mapr (\<lambda>(es', b3). (es @ es', b3)) (feed ord b2 cs)))"

section \<open>Lemmas\<close>

lemma codec_Send_encode:
  assumes "length m \<le> vector_max_size - 4"
  shows "codec_Send ord m = Inr (encode m)"
proof -
  let ?ds = "[network_bytes 4 (word_of_nat (length m) :: u32), m]"
  have "buffer_inv (ByteBuffer kInitialSize)" "has_room (length (concat ?ds) + 0) (ByteBuffer kInitialSize)"
    using assms by (auto simp: kInitialSize_def vector_max_size_def has_room_def ByteBuffer_def buffer_inv_def)
  from buf.put_all [OF this] obtain b where
    b: "fold_res Write ?ds (ByteBuffer kInitialSize) = Inr b" "buffer_inv b" "content b = encode m"
    by (auto elim!: res_ok_E simp: encode_def)
  from b(1) obtain b1 where "Write (network_bytes 4 (word_of_nat (length m) :: u32)) (ByteBuffer kInitialSize) = Inr b1"
    "Write m b1 = Inr b" by (auto simp: res_simps)
  with b(2,3) show ?thesis by (simp add: codec_Send_def object_bytes_ghton BeginRead_def)
qed

lemma frame_len_peek:
  assumes "buffer_inv b" and "4 \<le> ReadableBytes b"
  shows "unat (gntohl ord (object_of ord (peek_bytes 4 b))) = frame_len (content b)"
proof -
  have "peek_bytes 4 b = take 4 (content b)"
    using take_content [OF assms] by (simp add: peek_bytes_def BeginRead_def)
  moreover have "length (take 4 (content b)) = 4" using assms by simp
  ultimately show ?thesis by (simp add: frame_len_def gntoh_object_of)
qed

lemma OnMessage_decode:
  assumes "buffer_inv b"
  shows "res_ok (\<lambda>(es, b'). (es, content b') = decode (content b) \<and> buffer_inv b' \<and>
      writer_index b' \<le> writer_index b) (OnMessage ord b)"
  using assms
proof (induction ord b rule: OnMessage.induct)
  case (1 ord b)
  note inv = "1.prems"
  let ?q = "content b" and ?len = "gntohl ord (object_of ord (peek_bytes 4 b))"
  have len: "length ?q = ReadableBytes b" using inv by simp
  show ?case
  proof (cases "ReadableBytes b \<ge> 4")
    case False
    then show ?thesis using inv len by (simp add: OnMessage.simps [of ord b] decode.simps [of ?q] kHeaderLen_def)
  next
    case True
    have fl: "unat ?len = frame_len ?q" by (rule frame_len_peek [OF inv True])
    then have big: "?len > 65536 \<longleftrightarrow> frame_len ?q > 65536" by (simp add: word_less_nat_alt)
    show ?thesis
    proof (cases "frame_len ?q > 65536 \<or> length ?q < 4 + frame_len ?q")
      case stop: True
      then show ?thesis using inv len True fl big
        by (auto simp: OnMessage.simps [of ord b] decode.simps [of ?q] kHeaderLen_def Let_def)
    next
      case False
      then have enough: "4 + frame_len ?q \<le> ReadableBytes b" by (simp add: len)
      obtain b1 where b1: "SkipReadBytes 4 b = Inr b1" "buffer_inv b1" "content b1 = drop 4 ?q"
        "writer_index b1 \<le> writer_index b" "buffer b1 = buffer b"
        using SkipReadBytes_ok [OF inv True] by (auto elim: res_ok_E)
      have r1: "frame_len ?q \<le> ReadableBytes b1"
        using b1 enough inv by (simp flip: length_content)
      obtain b2 where b2: "SkipReadBytes (frame_len ?q) b1 = Inr b2" "buffer_inv b2"
        "content b2 = drop (frame_len ?q) (content b1)" "writer_index b2 \<le> writer_index b1"
        using SkipReadBytes_ok [OF b1(2) r1] by (auto elim: res_ok_E)
      have msg: "take (frame_len ?q) (drop (BeginRead b1) (buffer b1)) = take (frame_len ?q) (drop 4 ?q)"
        using take_content [OF b1(2) r1] b1(3) by (simp add: BeginRead_def)
      have c2: "content b2 = drop (4 + frame_len ?q) ?q" using b2(3) b1(3) by (simp add: add.commute)
      have "res_ok (\<lambda>(es, b'). (es, content b') = decode (content b2) \<and> buffer_inv b' \<and>
          writer_index b' \<le> writer_index b2) (OnMessage ord b2)"
        by (rule "1.IH" [OF _ refl _ _ _ refl]) (use True enough False fl big b1 b2 in \<open>auto simp: kHeaderLen_def\<close>)
      then obtain es b3 where b3: "OnMessage ord b2 = Inr (es, b3)" "(es, content b3) = decode (content b2)"
        "buffer_inv b3" "writer_index b3 \<le> writer_index b2" by (auto elim!: res_ok_E)
      have "OnMessage ord b = Inr (Message (take (frame_len ?q) (drop 4 ?q)) # es, b3)"
        using True enough False fl big b1(1) b2(1) b3(1) msg
        by (simp add: OnMessage.simps [of ord b] kHeaderLen_def add.commute)
      moreover have "decode ?q = (Message (take (frame_len ?q) (drop 4 ?q)) # es, content b3)"
        using False b3(2) [symmetric] c2 len True by (simp add: decode.simps [of ?q])
      ultimately show ?thesis using b3 b2 b1 by simp
    qed
  qed
qed


lemma frame_len_append: "4 \<le> length q \<Longrightarrow> frame_len (q @ c) = frame_len q"
  by (simp add: frame_len_def)

lemma frame_len_encode: "length m < 2 ^ 32 \<Longrightarrow> frame_len (encode m @ q) = length m"
  by (simp add: frame_len_def encode_def word_of_network_bytes unat_of_nat take_bit_eq_mod)

lemma decode_append:
  assumes "decode q = (es, r)" and "ShutdownConn \<notin> set es"
  shows "decode (q @ c) = (case decode (r @ c) of (es', r') \<Rightarrow> (es @ es', r'))"
  using assms
proof (induction q arbitrary: es rule: decode.induct)
  case (1 q)
  show ?case
  proof (cases "length q < 4 \<or> 65536 < frame_len q \<or> length q < 4 + frame_len q")
    case True
    with "1.prems" show ?thesis
      by (auto simp: decode.simps [of q] split: if_splits prod.splits)
  next
    case False
    let ?d = "drop (4 + frame_len q) q"
    obtain es1 where es1: "decode ?d = (es1, r)" "es = Message (take (frame_len q) (drop 4 q)) # es1"
      using False "1.prems"(1) by (auto simp: decode.simps [of q] split: prod.splits)
    have "decode (?d @ c) = (case decode (r @ c) of (es', r') \<Rightarrow> (es1 @ es', r'))"
      using "1.IH" [OF _ _ _ es1(1)] False "1.prems"(2) es1(2) by auto
    then show ?thesis
      using False es1(2) by (simp add: decode.simps [of "q @ c"] frame_len_append split: prod.split)
  qed
qed

lemma decode_rest: "decode q = (es, r) \<Longrightarrow> ShutdownConn \<notin> set es \<Longrightarrow> decode r = ([], r)"
proof (induction q arbitrary: es rule: decode.induct)
  case (1 q)
  show ?case
  proof (cases "length q < 4 \<or> 65536 < frame_len q \<or> length q < 4 + frame_len q")
    case True
    with "1.prems" show ?thesis
      by (auto simp: decode.simps [of q] decode.simps [of r] split: if_splits prod.splits)
  next
    case False
    with "1.prems" obtain es1 where "decode (drop (4 + frame_len q) q) = (es1, r)" "ShutdownConn \<notin> set es1"
      by (auto simp: decode.simps [of q] split: prod.splits)
    with "1.IH" False show ?thesis by auto
  qed
qed

lemma decode_shutdown_append:
  "ShutdownConn \<in> set (fst (decode q)) \<Longrightarrow> ShutdownConn \<in> set (fst (decode (q @ c)))"
proof (induction q rule: decode.induct)
  case (1 q)
  show ?case
  proof (cases "length q < 4 \<or> 65536 < frame_len q \<or> length q < 4 + frame_len q")
    case True
    with "1.prems" show ?thesis
      by (auto simp: decode.simps [of q] decode.simps [of "q @ c"] frame_len_append split: if_splits)
  next
    case False
    with "1.prems" "1.IH" show ?thesis
      by (auto simp: decode.simps [of q] decode.simps [of "q @ c"] frame_len_append split: prod.splits)
  qed
qed

lemma decode_encode:
  "length m \<le> 65536 \<Longrightarrow> decode (encode m @ q) = (case decode q of (es, r) \<Rightarrow> (Message m # es, r))"
  by (simp add: decode.simps [of "encode m @ q"] frame_len_encode) (simp add: encode_def)

lemma decode_encode_all:
  "\<forall>m \<in> set ms. length m \<le> 65536 \<Longrightarrow> decode (concat (map encode ms)) = (map Message ms, [])"
  by (induction ms) (simp_all add: decode_encode, simp add: decode.simps [of "[]"])

lemma feed_decode:
  assumes "buffer_inv b" and "has_room (length (concat cs)) b" and "decode (content b) = ([], content b)"
    and "decode (content b @ concat cs) = (es, r)" and "ShutdownConn \<notin> set es"
  shows "res_ok (\<lambda>(es', b'). es' = es \<and> content b' = r \<and> buffer_inv b') (feed ord b cs)"
  using assms
proof (induction cs arbitrary: b es)
  case Nil
  then show ?case by simp
next
  case (Cons c cs)
  have "has_room (length c + length (concat cs)) b" using Cons.prems(2) by simp
  with buf.put_law Cons.prems(1) obtain b1 where b1: "Write c b = Inr b1" "buffer_inv b1"
    "content b1 = content b @ c" "has_room (length (concat cs)) b1" by (blast elim: res_ok_E)
  obtain es1 b2 where b2: "OnMessage ord b1 = Inr (es1, b2)" "decode (content b1) = (es1, content b2)"
    "buffer_inv b2" "writer_index b2 \<le> writer_index b1"
    using OnMessage_decode [OF b1(2), of ord] by (auto elim!: res_ok_E)
  have no1: "ShutdownConn \<notin> set es1"
    using decode_shutdown_append [of "content b1" "concat cs"] Cons.prems(4,5) b1(3) b2(2) by auto
  obtain es2 where es2: "decode (content b2 @ concat cs) = (es2, r)" "es = es1 @ es2"
    using decode_append [OF b2(2) no1, of "concat cs"] Cons.prems(4) b1(3) by (auto split: prod.splits)
  have "has_room (length (concat cs)) b2" using b1(4) b2(4) by (simp add: has_room_def)
  from Cons.IH [OF b2(3) this decode_rest [OF b2(2) no1] es2(1)] Cons.prems(5) es2(2) b1(1) b2(1)
  show ?case by (auto elim!: res_ok_E)
qed

section \<open>Properties\<close>

text \<open>C5: framing survives the network. Messages of at most 65536 bytes, encoded by \<open>Send\<close> and cut
  into chunks in any way by the transport, are delivered by \<open>OnMessage\<close> completely, in order and
  unchanged, with no connection shut down and nothing left in the buffer.\<close>

theorem codec_stream:
  assumes "\<forall>m \<in> set ms. length m \<le> 65536 \<and> codec_Send ord m = Inr (frame m)"
    and "concat chunks = concat (map frame ms)"
    and "buffer_inv b" and "content b = []" and "has_room (length (concat chunks)) b"
  shows "res_ok (\<lambda>(es, b'). es = map Message ms \<and> content b' = []) (feed ord' b chunks)"
proof -
  have "frame m = encode m" if "m \<in> set ms" for m
    using assms(1) that codec_Send_encode [of m ord] by (auto simp: vector_max_size_def)
  then have "concat chunks = concat (map encode ms)"
    by (simp add: assms(2) cong: map_cong)
  then have "decode (content b @ concat chunks) = (map Message ms, [])"
    using assms(1,4) decode_encode_all [of ms] by simp
  moreover have "ShutdownConn \<notin> set (map Message ms)" by auto
  ultimately show ?thesis using feed_decode [OF assms(3,5), of "map Message ms" "[]" ord'] assms(4)
    by (auto simp: decode.simps [of "[]"] elim!: res_ok_mono)
qed

theorem codec_stream_witness:
  "res_ok (\<lambda>(es, b'). es = [Message [65, 66], Message []] \<and> content b' = [])
     (feed BigEndian (ByteBuffer 1) [[0, 0], [0, 2, 65], [66, 0, 0, 0, 0]])"
proof -
  have e: "encode [65, 66] = [0, 0, 0, 2, 65, 66]" "encode [] = [0, 0, 0, 0]"
    by (simp_all add: encode_def network_bytes_def bytes_le_def upt_rec)
  have "codec_Send LittleEndian [65, 66] = Inr (encode [65, 66])" "codec_Send LittleEndian [] = Inr (encode [])"
    by (simp_all add: codec_Send_encode vector_max_size_def)
  with codec_stream [of "[[65, 66], []]" LittleEndian encode "[[0, 0], [0, 2, 65], [66, 0, 0, 0, 0]]"
      "ByteBuffer 1" BigEndian]
  show ?thesis by (simp add: e has_room_def vector_max_size_def ByteBuffer_def buffer_inv_def content_def range_of_def)
qed

text \<open>C34: \<open>OnMessage\<close> on any well-formed buffer, malformed input included, ends, fails no assertion,
  makes exactly the calls the reference parser prescribes and leaves the unparsed bytes.\<close>

theorem OnMessage_refines_decode:
  assumes "buffer_inv b"
  shows "\<exists>es b'. OnMessage ord b = Inr (es, b') \<and> buffer_inv b' \<and> decode (content b) = (es, content b')"
  using OnMessage_decode [OF assms, of ord] by (auto elim!: res_ok_E)

theorem OnMessage_refines_decode_witness:
  "\<exists>es b'. OnMessage LittleEndian \<lparr>buffer = [1, 0, 0, 1, 9], reader_index = 0, writer_index = 5\<rparr> = Inr (es, b') \<and>
     buffer_inv b' \<and> es = [ShutdownConn]"
  using OnMessage_refines_decode [of "\<lparr>buffer = [1, 0, 0, 1, 9], reader_index = 0, writer_index = 5\<rparr>" LittleEndian]
  by (auto simp: buffer_inv_def vector_max_size_def content_def range_of_def frame_len_def
      decode.simps [of "[1, 0, 0, 1, 9]"])

text \<open>\<open>Send\<close> has no limit of its own: a message longer than 65536 bytes is framed without
  complaint, and the receiver answers the frame by shutting the connection down.\<close>

theorem codec_Send_oversized:
  assumes "65536 < length m" and "length m < 2 ^ 32"
  shows "codec_Send ord m = Inr (encode m) \<and> decode (encode m) = ([ShutdownConn], encode m)"
proof -
  have "frame_len (encode m) = length m" using frame_len_encode [OF assms(2), of "[]"] by simp
  moreover have "4 \<le> length (encode m)" by (simp add: encode_def)
  ultimately have "decode (encode m) = ([ShutdownConn], encode m)"
    using assms(1) by (simp add: decode.simps [of "encode m"])
  moreover have "codec_Send ord m = Inr (encode m)"
    using assms(2) by (simp add: codec_Send_encode vector_max_size_def)
  ultimately show ?thesis by simp
qed

theorem codec_Send_oversized_witness:
  "decode (encode (replicate 70000 0)) = ([ShutdownConn], encode (replicate 70000 0))"
  using codec_Send_oversized [of "replicate 70000 0" LittleEndian] by simp

end
