(* ===== verification/Socket.thy ===== *)
theory Socket
  imports Epoll_Server
begin

text \<open>
  \<open>raner::Socket\<close> (\<open>raner/socket.h\<close>, \<open>raner/socket.cc\<close>) with the \<open>EINTR\<close> macros of \<open>raner/macros.h\<close>.

  The system is a parameter: \<open>sock_sys env tr c\<close> is its answer to the call \<open>c\<close> after the calls and answers
  in \<open>tr\<close> (newest first). \<open>errno\<close> is state, because the callers of a socket read it after a failure.
\<close>

section \<open>System calls\<close>

text \<open>A socket address; the port is in host order, as \<open>ntohs\<close> reads it.\<close>

record sock_addr =
  sa_family :: int
  sa_host :: bytes
  sa_port :: u16

datatype sock_opt = TCP_NODELAY | SO_REUSEADDR | SO_KEEPALIVE
datatype shut_how = SHUT_WR | SHUT_RDWR

datatype sys_call =
    SockSocket int
  | SockClose fd
  | SockSetOpt fd sock_opt bool
  | SockGetFl fd
  | SockSetFl fd mask
  | SockBind fd sock_addr
  | SockListen fd
  | SockGetName fd
  | SockGetPeer fd
  | SockAccept fd
  | SockConnect fd sock_addr
  | SockGetAddrInfo string
  | SockGetError fd
  | SockShutdown fd shut_how
  | SockRead fd nat
  | SockSend fd bytes
  | SockOpen string

record sys_reply =
  r_ret :: int
  r_errno :: int
  r_data :: bytes
  r_addr :: sock_addr

record os =
  errno :: int
  sys_trace :: "(sys_call \<times> sys_reply) list"

record sock_env =
  sock_ndebug :: bool
  sock_sys :: "(sys_call \<times> sys_reply) list \<Rightarrow> sys_call \<Rightarrow> sys_reply"
  sock_retries :: nat

definition EAGAIN :: int where "EAGAIN = 11"
definition EPIPE :: int where "EPIPE = 32"
definition ECONNRESET :: int where "ECONNRESET = 104"
definition EINPROGRESS :: int where "EINPROGRESS = 115"
definition AF_INET :: int where "AF_INET = 2"
definition AF_INET6 :: int where "AF_INET6 = 10"

text \<open>On Linux \<open>EWOULDBLOCK\<close> is \<open>EAGAIN\<close>.\<close>

definition EWOULDBLOCK :: int where "EWOULDBLOCK = EAGAIN"

definition syscall :: "sock_env \<Rightarrow> sys_call \<Rightarrow> os \<Rightarrow> sys_reply \<times> os" where
  "syscall env c w =
     (let r = sock_sys env (sys_trace w) c
      in (r, w\<lparr>errno := (if r_ret r = -1 then r_errno r else errno w), sys_trace := (c, r) # sys_trace w\<rparr>))"

definition sock_dcheck :: "sock_env \<Rightarrow> bool \<Rightarrow> 'a res \<Rightarrow> 'a res" where
  "sock_dcheck env P k = (if sock_ndebug env then k else guard DCheckFailed P k)"

text \<open>\<open>static_cast<int>(ssize_t)\<close>.\<close>

definition to_int :: "int \<Rightarrow> int" where
  "to_int r = sint (word_of_int r :: 32 word)"

text \<open>\<open>HANDLE_EINTR(static_cast<int>(call))\<close>: the debug build gives up after 101 calls, the release build never;
  there \<open>sock_retries\<close> bounds the model's loop.\<close>

fun eintr_loop :: "sock_env \<Rightarrow> nat \<Rightarrow> sys_call \<Rightarrow> os \<Rightarrow> (int \<times> sys_reply \<times> os) res" where
  "eintr_loop env n c w =
     (case syscall env c w of (r, w1) \<Rightarrow>
        if to_int (r_ret r) = -1 \<and> errno w1 = EINTR
        then (case n of 0 \<Rightarrow> if sock_ndebug env then Inl OutOfFuel else Inr (to_int (r_ret r), r, w1)
                      | Suc m \<Rightarrow> eintr_loop env m c w1)
        else Inr (to_int (r_ret r), r, w1))"

declare eintr_loop.simps [simp del]

definition HANDLE_EINTR :: "sock_env \<Rightarrow> sys_call \<Rightarrow> os \<Rightarrow> (int \<times> sys_reply \<times> os) res" where
  "HANDLE_EINTR env c w = eintr_loop env (if sock_ndebug env then sock_retries env else 100) c w"

definition IGNORE_EINTR :: "sock_env \<Rightarrow> sys_call \<Rightarrow> os \<Rightarrow> int \<times> os" where
  "IGNORE_EINTR env c w =
     (case syscall env c w of (r, w1) \<Rightarrow>
        (if r_ret r = -1 \<and> errno w1 = EINTR then 0 else r_ret r, w1))"

definition PRESERVE_ERRNO_HANDLE_EINTR :: "sock_env \<Rightarrow> sys_call \<Rightarrow> os \<Rightarrow> os res" where
  "PRESERVE_ERRNO_HANDLE_EINTR env c w =
     (let local_errno = errno w
      in mapr (\<lambda>(_, _, w1). w1\<lparr>errno := local_errno\<rparr>) (HANDLE_EINTR env c w))"

section \<open>The socket\<close>

text \<open>\<open>addr_ptr_\<close> points into the socket's own \<open>addr_\<close> or, after \<open>Accept\<close>, into that of the listening
  socket.\<close>

datatype addr_ptr = OwnAddr | ListenerAddr

record socket =
  s_fd :: fd
  s_port :: int
  s_error :: bool
  s_family :: int
  s_addr :: sock_addr
  s_addr_ptr :: addr_ptr
  s_addr_len :: nat

definition no_addr :: sock_addr where
  "no_addr = \<lparr>sa_family = 0, sa_host = [], sa_port = 0\<rparr>"

definition Socket :: socket where
  "Socket = \<lparr>s_fd = -1, s_port = 0, s_error = False, s_family = AF_INET, s_addr = no_addr,
     s_addr_ptr = OwnAddr, s_addr_len = 16\<rparr>"

type_synonym sock_state = "socket \<times> os"

definition FamilyIsTCP :: "int \<Rightarrow> bool" where
  "FamilyIsTCP family \<longleftrightarrow> family = AF_INET \<or> family = AF_INET6"

definition CloseFD :: "sock_env \<Rightarrow> fd \<Rightarrow> os \<Rightarrow> os" where
  "CloseFD env fd w =
     (let errno_copy = errno w
      in case IGNORE_EINTR env (SockClose fd) w of (ret, w1) \<Rightarrow>
         if ret < 0 then w1\<lparr>errno := errno_copy\<rparr> else w1)"

definition setsockopt :: "sock_env \<Rightarrow> fd \<Rightarrow> sock_opt \<Rightarrow> bool \<Rightarrow> os \<Rightarrow> int \<times> os" where
  "setsockopt env fd opt on w = (case syscall env (SockSetOpt fd opt on) w of (r, w1) \<Rightarrow> (r_ret r, w1))"

definition DisableNagle :: "sock_env \<Rightarrow> fd \<Rightarrow> os \<Rightarrow> int \<times> os" where
  "DisableNagle env fd w = setsockopt env fd TCP_NODELAY True w"

definition IsClosed :: "socket \<Rightarrow> bool" where
  "IsClosed sk \<longleftrightarrow> s_fd sk < 0"

definition Close :: "sock_env \<Rightarrow> sock_state \<Rightarrow> sock_state" where
  "Close env x =
     (case x of (sk, w) \<Rightarrow>
      if \<not> IsClosed sk then (sk\<lparr>s_fd := -1\<rparr>, CloseFD env (s_fd sk) w) else (sk, w))"

definition setSocketError :: "sock_env \<Rightarrow> sock_state \<Rightarrow> sock_state res" where
  "setSocketError env x =
     (case x of (sk, w) \<Rightarrow>
      sock_dcheck env (errno w \<noteq> EAGAIN) (sock_dcheck env (errno w \<noteq> EWOULDBLOCK)
        (Inr (Close env (sk\<lparr>s_error := True\<rparr>, w)))))"

definition Socket_Shutdown :: "sock_env \<Rightarrow> sock_state \<Rightarrow> sock_state res" where
  "Socket_Shutdown env x =
     (case x of (sk, w) \<Rightarrow>
      if \<not> IsClosed sk
      then mapr (Pair sk) (PRESERVE_ERRNO_HANDLE_EINTR env (SockShutdown (s_fd sk) SHUT_RDWR) w)
      else Inr (sk, w))"

definition ShutdownWrite :: "sock_env \<Rightarrow> sock_state \<Rightarrow> sock_state res" where
  "ShutdownWrite env x =
     (case x of (sk, w) \<Rightarrow>
      if \<not> IsClosed sk
      then mapr (Pair sk) (PRESERVE_ERRNO_HANDLE_EINTR env (SockShutdown (s_fd sk) SHUT_WR) w)
      else Inr (sk, w))"

definition SetNonBlocking :: "sock_env \<Rightarrow> fd \<Rightarrow> os \<Rightarrow> bool \<times> os" where
  "SetNonBlocking env fd w =
     (case syscall env (SockGetFl fd) w of (r, w1) \<Rightarrow>
      if r_ret r < 0 then (False, w1)
      else if (word_of_int (r_ret r) :: mask) AND O_NONBLOCK \<noteq> 0 then (True, w1)
      else case syscall env (SockSetFl fd (word_of_int (r_ret r) OR O_NONBLOCK)) w1 of (r', w2) \<Rightarrow>
        (\<not> r_ret r' < 0, w2))"

definition SetTCPNoDelay :: "sock_env \<Rightarrow> sock_state \<Rightarrow> int \<times> os" where
  "SetTCPNoDelay env x = (case x of (sk, w) \<Rightarrow> DisableNagle env (s_fd sk) w)"

definition SetReuseAddr :: "sock_env \<Rightarrow> bool \<Rightarrow> sock_state \<Rightarrow> int \<times> os" where
  "SetReuseAddr env reuse x = (case x of (sk, w) \<Rightarrow> setsockopt env (s_fd sk) SO_REUSEADDR reuse w)"

definition SetKeepAlive :: "sock_env \<Rightarrow> bool \<Rightarrow> sock_state \<Rightarrow> int \<times> os" where
  "SetKeepAlive env enable x = (case x of (sk, w) \<Rightarrow> setsockopt env (s_fd sk) SO_KEEPALIVE enable w)"

definition initInternal :: "sock_env \<Rightarrow> sock_state \<Rightarrow> bool \<times> sock_state" where
  "initInternal env x =
     (case x of (sk, w) \<Rightarrow>
      case syscall env (SockSocket (s_family sk)) w of (r, w1) \<Rightarrow>
      let sk1 = sk\<lparr>s_fd := r_ret r\<rparr>
      in if s_fd sk1 < 0 then (False, sk1, w1)
         else let w2 = snd (DisableNagle env (s_fd sk1) w1);
                  w3 = snd (SetReuseAddr env True (sk1, w2))
              in case SetNonBlocking env (s_fd sk1) w3 of (ok, w4) \<Rightarrow> (ok, sk1, w4))"

text \<open>When \<open>getaddrinfo\<close> fails, \<open>freeaddrinfo\<close> is called on a pointer that was never set.\<close>

definition resolve :: "sock_env \<Rightarrow> string \<Rightarrow> sock_state \<Rightarrow> sock_state res" where
  "resolve env host x =
     (case x of (sk, w) \<Rightarrow>
      case syscall env (SockGetAddrInfo host) w of (r, w1) \<Rightarrow>
      if r_ret r \<noteq> 0
      then bindr (setSocketError env (sk, w1\<lparr>errno := 0\<rparr>)) (\<lambda>_. Inl InvalidAccess)
      else let family = sa_family (r_addr r); sk1 = sk\<lparr>s_family := family\<rparr>
           in Inr (if FamilyIsTCP family then sk1\<lparr>s_addr := r_addr r\<rparr> else sk1, w1))"

definition loopback :: bytes where
  "loopback = [127, 0, 0, 1]"

definition init :: "sock_env \<Rightarrow> string \<Rightarrow> int \<Rightarrow> sock_state \<Rightarrow> (bool \<times> sock_state) res" where
  "init env host port x =
     (case x of (sk, w) \<Rightarrow>
      let sk1 = sk\<lparr>s_port := port\<rparr>
      in bindr (if host = []
                then Inr (sk1\<lparr>s_family := AF_INET,
                  s_addr := (s_addr sk1)\<lparr>sa_family := AF_INET, sa_host := loopback\<rparr>\<rparr>, w)
                else resolve env host (sk1, w)) (\<lambda>(sk2, w2).
         guard CheckFailed (FamilyIsTCP (s_family sk2))
           (Inr (initInternal env
             (sk2\<lparr>s_addr := (s_addr sk2)\<lparr>sa_port := word_of_int (s_port sk2)\<rparr>, s_addr_ptr := OwnAddr,
                  s_addr_len := (if s_family sk2 = AF_INET then 16 else 28)\<rparr>, w2)))))"

definition bindAndListen :: "sock_env \<Rightarrow> sock_state \<Rightarrow> (bool \<times> sock_state) res" where
  "bindAndListen env x =
     (case x of (sk, w) \<Rightarrow>
      bindr (HANDLE_EINTR env (SockBind (s_fd sk) (s_addr sk)) (w\<lparr>errno := 0\<rparr>)) (\<lambda>(b, _, w1).
      bindr (if b < 0 then Inr (b, w1)
             else mapr (\<lambda>(l, _, w2). (l, w2)) (HANDLE_EINTR env (SockListen (s_fd sk)) w1)) (\<lambda>(l, w2).
      if b < 0 \<or> l < 0 then mapr (Pair False) (setSocketError env (sk, w2))
      else if s_port sk = 0 \<and> FamilyIsTCP (s_family sk)
      then (case syscall env (SockGetName (s_fd sk)) (w2\<lparr>errno := 0\<rparr>) of (r, w3) \<Rightarrow>
            if r_ret r \<noteq> 0 then mapr (Pair False) (setSocketError env (sk, w3))
            else Inr (True, sk\<lparr>s_port := uint (sa_port (r_addr r))\<rparr>, w3))
      else Inr (True, sk, w2))))"

text \<open>The shared tail of \<open>BindAndListen\<close> and \<open>Connect\<close>: \<open>Close\<close> after a failure.\<close>

definition init_then ::
  "sock_env \<Rightarrow> (sock_state \<Rightarrow> (bool \<times> sock_state) res) \<Rightarrow> string \<Rightarrow> int \<Rightarrow> sock_state \<Rightarrow> (bool \<times> sock_state) res" where
  "init_then env k host port x =
     (case x of (sk, w) \<Rightarrow>
      bindr (init env host port (sk, w\<lparr>errno := 0\<rparr>)) (\<lambda>(ok, x1).
      bindr (if ok then k x1 else Inr (False, x1)) (\<lambda>(ok', x2).
      Inr (if ok' then (True, x2) else (False, Close env x2)))))"

definition BindAndListen :: "sock_env \<Rightarrow> string \<Rightarrow> int \<Rightarrow> sock_state \<Rightarrow> (bool \<times> sock_state) res" where
  "BindAndListen env = init_then env (bindAndListen env)"

text \<open>The \<open>DCHECK(fcntl(fd_, F_GETFL) & O_NONBLOCK)\<close> of the debug build is a system call.\<close>

definition check_nonblocking :: "sock_env \<Rightarrow> fd \<Rightarrow> os \<Rightarrow> os res" where
  "check_nonblocking env fd w =
     (if sock_ndebug env then Inr w
      else case syscall env (SockGetFl fd) w of (r, w1) \<Rightarrow>
        guard DCheckFailed ((word_of_int (r_ret r) :: mask) AND O_NONBLOCK \<noteq> 0) (Inr w1))"

definition connect :: "sock_env \<Rightarrow> sock_state \<Rightarrow> (bool \<times> sock_state) res" where
  "connect env x =
     (case x of (sk, w) \<Rightarrow>
      bindr (check_nonblocking env (s_fd sk) w) (\<lambda>w1.
      bindr (HANDLE_EINTR env (SockConnect (s_fd sk) (s_addr sk)) (w1\<lparr>errno := 0\<rparr>)) (\<lambda>(ret, _, w2).
      if ret < 0 \<and> errno w2 \<noteq> EINPROGRESS then mapr (Pair False) (setSocketError env (sk, w2))
      else Inr (True, sk, w2))))"

definition Socket_Connect :: "sock_env \<Rightarrow> string \<Rightarrow> int \<Rightarrow> sock_state \<Rightarrow> (bool \<times> sock_state) res" where
  "Socket_Connect env = init_then env (connect env)"

definition addr_len_of :: "sock_addr \<Rightarrow> nat" where
  "addr_len_of a = (if sa_family a = AF_INET then 16 else if sa_family a = AF_INET6 then 28 else 0)"

text \<open>\<open>Accept\<close>: the result, the new socket, and the listening socket, which an error closes.\<close>

definition Accept :: "sock_env \<Rightarrow> socket \<Rightarrow> sock_state \<Rightarrow> (bool \<times> socket \<times> sock_state) res" where
  "Accept env new_socket x =
     (case x of (sk, w) \<Rightarrow>
      bindr (HANDLE_EINTR env (SockAccept (s_fd sk)) (w\<lparr>errno := 0\<rparr>)) (\<lambda>(new_fd, r, w1).
      if new_fd < 0 then mapr (\<lambda>x1. (False, new_socket, x1)) (setSocketError env (sk, w1))
      else let addr = r_addr r; addr_len = addr_len_of addr;
               ns = new_socket\<lparr>s_fd := new_fd, s_addr := addr, s_addr_len := addr_len\<rparr>;
               ns1 = (if addr_len = 16
                      then ns\<lparr>s_addr_ptr := ListenerAddr, s_port := uint (sa_port addr), s_family := AF_INET\<rparr>
                      else if addr_len = 28
                      then ns\<lparr>s_addr_ptr := ListenerAddr, s_port := uint (sa_port addr), s_family := AF_INET6\<rparr>
                      else ns)
           in case SetNonBlocking env (s_fd ns1) w1 of (ok, w2) \<Rightarrow> Inr (ok, ns1, sk, w2)))"

definition GetPort :: "socket \<Rightarrow> int" where
  "GetPort sk = (if \<not> FamilyIsTCP (s_family sk) then 0 else s_port sk)"

text \<open>The pending error that \<open>getsockopt\<close> stores is \<open>r_errno\<close> of a successful answer.\<close>

definition GetSocketError :: "sock_env \<Rightarrow> sock_state \<Rightarrow> int \<times> os" where
  "GetSocketError env x =
     (case x of (sk, w) \<Rightarrow>
      case syscall env (SockGetError (s_fd sk)) w of (r, w1) \<Rightarrow>
      (if r_ret r < 0 then errno w1 else r_errno r, w1))"

section \<open>Reading and writing\<close>

definition Socket_Read :: "sock_env \<Rightarrow> nat \<Rightarrow> sock_state \<Rightarrow> (int \<times> bytes \<times> sock_state) res" where
  "Socket_Read env buffer_size x =
     (case x of (sk, w) \<Rightarrow>
      bindr (HANDLE_EINTR env (SockRead (s_fd sk) buffer_size) w) (\<lambda>(ret, r, w1).
      if ret < 0 then mapr (\<lambda>x1. (ret, [], x1)) (setSocketError env (sk, w1))
      else Inr (ret, r_data r, sk, w1)))"

definition NonBlockingRead :: "sock_env \<Rightarrow> nat \<Rightarrow> sock_state \<Rightarrow> (int \<times> bytes \<times> sock_state) res" where
  "NonBlockingRead env buffer_size x =
     (case x of (sk, w) \<Rightarrow>
      bindr (check_nonblocking env (s_fd sk) w) (\<lambda>w1. Socket_Read env buffer_size (sk, w1)))"

definition Socket_Write :: "sock_env \<Rightarrow> bytes \<Rightarrow> sock_state \<Rightarrow> (int \<times> sock_state) res" where
  "Socket_Write env data x =
     (case x of (sk, w) \<Rightarrow>
      bindr (HANDLE_EINTR env (SockSend (s_fd sk) data) w) (\<lambda>(ret, _, w1).
      if ret < 0 then mapr (Pair ret) (setSocketError env (sk, w1))
      else Inr (ret, sk, w1)))"

definition NonBlockingWrite :: "sock_env \<Rightarrow> bytes \<Rightarrow> sock_state \<Rightarrow> (int \<times> sock_state) res" where
  "NonBlockingWrite env data x =
     (case x of (sk, w) \<Rightarrow>
      bindr (check_nonblocking env (s_fd sk) w) (\<lambda>w1. Socket_Write env data (sk, w1)))"

text \<open>The loops of \<open>ReadNumBytes\<close> and \<open>WriteNumBytes\<close>; \<open>buf\<close> is what has been stored so far.\<close>

function read_loop ::
  "sock_env \<Rightarrow> nat \<Rightarrow> nat \<Rightarrow> int \<Rightarrow> bytes \<Rightarrow> sock_state \<Rightarrow> (nat \<times> bytes \<times> sock_state) res" where
  "read_loop env num_bytes bytes_read ret buf x =
     (if bytes_read < num_bytes \<and> 0 < ret
      then bindr (Socket_Read env (num_bytes - bytes_read) x) (\<lambda>(ret', data, x').
             read_loop env num_bytes (if 0 \<le> ret' then bytes_read + nat ret' else bytes_read) ret' (buf @ data) x')
      else Inr (bytes_read, buf, x))"
  by pat_completeness auto
termination
  by (relation "measure (\<lambda>(env, num_bytes, bytes_read, ret, _).
        2 * (num_bytes - bytes_read) + (if 0 < ret then 1 else 0))") auto

definition ReadNumBytes :: "sock_env \<Rightarrow> nat \<Rightarrow> sock_state \<Rightarrow> (int \<times> bytes \<times> sock_state) res" where
  "ReadNumBytes env num_bytes x =
     mapr (\<lambda>(bytes_read, buf, x'). (to_int (int bytes_read), buf, x')) (read_loop env num_bytes 0 1 [] x)"

function write_loop :: "sock_env \<Rightarrow> bytes \<Rightarrow> nat \<Rightarrow> int \<Rightarrow> sock_state \<Rightarrow> (nat \<times> sock_state) res" where
  "write_loop env data bytes_written ret x =
     (if bytes_written < length data \<and> 0 < ret
      then bindr (Socket_Write env (drop bytes_written data) x) (\<lambda>(ret', x').
             write_loop env data (if 0 \<le> ret' then bytes_written + nat ret' else bytes_written) ret' x')
      else Inr (bytes_written, x))"
  by pat_completeness auto
termination
  by (relation "measure (\<lambda>(env, data, bytes_written, ret, _).
        2 * (length data - bytes_written) + (if 0 < ret then 1 else 0))") auto

declare read_loop.simps [simp del] write_loop.simps [simp del]

definition WriteNumBytes :: "sock_env \<Rightarrow> bytes \<Rightarrow> sock_state \<Rightarrow> (int \<times> sock_state) res" where
  "WriteNumBytes env data x =
     mapr (\<lambda>(bytes_written, x'). (to_int (int bytes_written), x')) (write_loop env data 0 1 x)"

definition WriteString :: "sock_env \<Rightarrow> bytes \<Rightarrow> sock_state \<Rightarrow> (int \<times> sock_state) res" where
  "WriteString env buffer x = WriteNumBytes env buffer x"

section \<open>Addresses\<close>

text \<open>\<open>ntop\<close> stands for \<open>inet_ntop\<close>; \<open>listener\<close> is \<open>addr_\<close> of the listening socket, if that still exists.\<close>

definition print_addr :: "(bytes \<Rightarrow> string) \<Rightarrow> sock_addr \<Rightarrow> string" where
  "print_addr ntop a =
     take 63 ((if FamilyIsTCP (sa_family a) then ntop (sa_host a) else []) @ '':'' @
       digits (if FamilyIsTCP (sa_family a) then unat (sa_port a) else 0))"

definition GetLocalAddr :: "(bytes \<Rightarrow> string) \<Rightarrow> sock_addr option \<Rightarrow> socket \<Rightarrow> string res" where
  "GetLocalAddr ntop listener sk =
     (case s_addr_ptr sk of
        OwnAddr \<Rightarrow> Inr (print_addr ntop (s_addr sk))
      | ListenerAddr \<Rightarrow> (case listener of None \<Rightarrow> Inl InvalidAccess | Some a \<Rightarrow> Inr (print_addr ntop a)))"

definition GetPeerAddr :: "sock_env \<Rightarrow> (bytes \<Rightarrow> string) \<Rightarrow> sock_state \<Rightarrow> (string \<times> sock_state) res" where
  "GetPeerAddr env ntop x =
     (case x of (sk, w) \<Rightarrow>
      case syscall env (SockGetPeer (s_fd sk)) w of (r, w1) \<Rightarrow>
      if r_ret r \<noteq> 0 then mapr (Pair []) (setSocketError env (sk, w1))
      else Inr (print_addr ntop ((r_addr r)\<lparr>sa_family := s_family sk\<rparr>), sk, w1))"

section \<open>Retries\<close>

text \<open>A retried call leaves a run of interrupted calls in the trace, then the one that counts.\<close>

definition interrupted :: "sys_call \<Rightarrow> (sys_call \<times> sys_reply) list \<Rightarrow> bool" where
  "interrupted c pre \<longleftrightarrow> (\<forall>(c', r) \<in> set pre. c' = c \<and> to_int (r_ret r) = -1)"

lemma eintr_loop_trace:
  assumes "eintr_loop env n c w = Inr (ret, r, w')"
  shows "\<exists>pre. sys_trace w' = (c, r) # pre @ sys_trace w \<and> interrupted c pre \<and> length pre \<le> n \<and>
    ret = to_int (r_ret r) \<and> r = sock_sys env (pre @ sys_trace w) c \<and>
    (sock_ndebug env \<longrightarrow> \<not> (ret = -1 \<and> errno w' = EINTR))"
  using assms
proof (induction env n c w rule: eintr_loop.induct)
  case (1 env n c w)
  obtain r1 w1 where s: "syscall env c w = (r1, w1)" by fastforce
  then have w1: "sys_trace w1 = (c, r1) # sys_trace w" "r1 = sock_sys env (sys_trace w) c"
    by (auto simp: syscall_def Let_def)
  show ?case
  proof (cases "to_int (r_ret r1) = -1 \<and> errno w1 = EINTR")
    case True
    show ?thesis
    proof (cases n)
      case 0
      then have "\<not> sock_ndebug env" "ret = to_int (r_ret r1)" "r = r1" "w' = w1"
        using 1(2) True s by (auto simp: eintr_loop.simps split: if_splits)
      then show ?thesis using w1 by (intro exI [of _ "[]"]) (simp add: interrupted_def)
    next
      case (Suc m)
      then have "eintr_loop env m c w1 = Inr (ret, r, w')"
        using 1(2) True s by (subst (asm) eintr_loop.simps) simp
      from 1(1) [OF s [symmetric] True Suc this] obtain pre where
        "sys_trace w' = (c, r) # pre @ sys_trace w1" "interrupted c pre" "length pre \<le> m"
        "ret = to_int (r_ret r)" "r = sock_sys env (pre @ sys_trace w1) c"
        "sock_ndebug env \<longrightarrow> \<not> (ret = -1 \<and> errno w' = EINTR)" by blast
      then show ?thesis
        using w1 Suc True by (intro exI [of _ "pre @ [(c, r1)]"]) (simp add: interrupted_def)
    qed
  next
    case False
    then have "ret = to_int (r_ret r1)" "r = r1" "w' = w1"
      using 1(2) s by (auto simp: eintr_loop.simps)
    then show ?thesis using w1 False by (intro exI [of _ "[]"]) (auto simp: interrupted_def)
  qed
qed

lemma HANDLE_EINTR_trace:
  assumes "HANDLE_EINTR env c w = Inr (ret, r, w')"
  obtains pre where "sys_trace w' = (c, r) # pre @ sys_trace w" "interrupted c pre"
    "ret = to_int (r_ret r)" "r = sock_sys env (pre @ sys_trace w) c"
    "sock_ndebug env \<longrightarrow> \<not> (ret = -1 \<and> errno w' = EINTR)"
  using eintr_loop_trace assms unfolding HANDLE_EINTR_def by blast

text \<open>A system that is not interrupted answers at once.\<close>

lemma HANDLE_EINTR_once:
  assumes "syscall env c w = (r, w1)" "\<not> (to_int (r_ret r) = -1 \<and> errno w1 = EINTR)"
  shows "HANDLE_EINTR env c w = Inr (to_int (r_ret r), r, w1)"
  unfolding HANDLE_EINTR_def by (subst eintr_loop.simps) (use assms in auto)

section \<open>The bytes sent\<close>

text \<open>What the system accepted for a descriptor, in order.\<close>

fun sent :: "fd \<Rightarrow> (sys_call \<times> sys_reply) list \<Rightarrow> bytes" where
  "sent f [] = []"
| "sent f ((SockSend g d, r) # tr) = sent f tr @ (if g = f then take (nat (to_int (r_ret r))) d else [])"
| "sent f (_ # tr) = sent f tr"

lemma sent_other: "(\<And>g d. c \<noteq> SockSend g d) \<Longrightarrow> sent f ((c, r) # tr) = sent f tr"
  by (cases c) auto

lemma sent_interrupted: "interrupted c pre \<Longrightarrow> sent f (pre @ tr) = sent f tr"
proof (induction pre)
  case (Cons x pre)
  obtain c' r where x: "x = (c', r)" by fastforce
  with Cons have "sent f (pre @ tr) = sent f tr" "to_int (r_ret r) = -1"
    by (auto simp: interrupted_def)
  then show ?case using x by (cases c') auto
qed simp

text \<open>\<open>send\<close> returns -1 or a number of bytes it was given, in the range of \<open>int\<close> (the kernel's limit).\<close>

definition send_ok :: "sock_env \<Rightarrow> bool" where
  "send_ok env \<longleftrightarrow> (\<forall>tr f d. let r = r_ret (sock_sys env tr (SockSend f d))
     in -1 \<le> r \<and> r \<le> int (length d) \<and> r < 2147483648)"

lemma to_int_id: "-2147483648 \<le> r \<Longrightarrow> r < 2147483648 \<Longrightarrow> to_int r = r"
  by (simp add: to_int_def sint_sbintrunc' signed_take_bit_int_eq_self)

lemma send_okD:
  assumes "send_ok env" "r = sock_sys env tr (SockSend f d)"
  shows "to_int (r_ret r) = r_ret r" "-1 \<le> r_ret r" "r_ret r \<le> int (length d)"
proof -
  have *: "-1 \<le> r_ret r \<and> r_ret r \<le> int (length d) \<and> r_ret r < 2147483648"
    using assms unfolding send_ok_def Let_def by blast
  then show "to_int (r_ret r) = r_ret r" by (intro to_int_id) linarith+
  show "-1 \<le> r_ret r" "r_ret r \<le> int (length d)" using * by blast+
qed

lemma Close_fields:
  assumes "Close env (sk, w) = (sk', w')"
  shows "IsClosed sk'" "s_error sk' = s_error sk" "sent f (sys_trace w') = sent f (sys_trace w)"
  using assms by (auto simp: Close_def CloseFD_def IGNORE_EINTR_def syscall_def IsClosed_def Let_def
      split: if_splits)

lemma setSocketError_fields:
  assumes "setSocketError env (sk, w) = Inr (sk', w')"
  shows "IsClosed sk'" "s_error sk'" "sent f (sys_trace w') = sent f (sys_trace w)"
  using assms Close_fields [of env "sk\<lparr>s_error := True\<rparr>" w sk' w']
  by (auto simp: setSocketError_def sock_dcheck_def guard_def split: if_splits)

lemma Socket_Write_cases:
  assumes "send_ok env" "Socket_Write env d (sk, w) = Inr (ret, sk', w')"
  obtains (accepted) "0 \<le> ret" "ret \<le> int (length d)" "sk' = sk"
      "sent (s_fd sk) (sys_trace w') = sent (s_fd sk) (sys_trace w) @ take (nat ret) d"
      "\<exists>r tr. sys_trace w' = (SockSend (s_fd sk) d, r) # tr \<and> r_ret r = ret"
  | (failed) "ret = -1" "IsClosed sk'" "s_error sk'"
      "sent (s_fd sk) (sys_trace w') = sent (s_fd sk) (sys_trace w)"
proof -
  obtain r w1 where h: "HANDLE_EINTR env (SockSend (s_fd sk) d) w = Inr (ret, r, w1)"
    and k: "if ret < 0 then setSocketError env (sk, w1) = Inr (sk', w') else sk' = sk \<and> w' = w1"
    using assms(2) by (auto simp: Socket_Write_def res_simps split: if_splits)
  from h obtain pre where tr: "sys_trace w1 = (SockSend (s_fd sk) d, r) # pre @ sys_trace w"
    "interrupted (SockSend (s_fd sk) d) pre" "ret = to_int (r_ret r)"
    "r = sock_sys env (pre @ sys_trace w) (SockSend (s_fd sk) d)" by (rule HANDLE_EINTR_trace)
  note range = send_okD [OF assms(1) tr(4)]
  have sent1: "sent (s_fd sk) (sys_trace w1) = sent (s_fd sk) (sys_trace w) @ take (nat ret) d"
    using tr by (simp add: sent_interrupted)
  show thesis
  proof (cases "ret < 0")
    case True
    with tr(3) range have "ret = -1" by linarith
    moreover have "setSocketError env (sk, w1) = Inr (sk', w')" using k True by simp
    note setSocketError_fields [OF this]
    ultimately show thesis using sent1 by (intro failed) simp_all
  next
    case False
    then show thesis using k sent1 tr range by (intro accepted) simp_all
  qed
qed

text \<open>The loop stopped early: an error closed the socket, or \<open>send\<close> accepted nothing.\<close>

definition gave_up :: "sock_state \<Rightarrow> bool" where
  "gave_up x \<longleftrightarrow> IsClosed (fst x) \<and> s_error (fst x) \<or>
     (\<exists>f d r tr. sys_trace (snd x) = (SockSend f d, r) # tr \<and> r_ret r = 0)"

lemma write_loop_sends:
  assumes "send_ok env"
  shows "write_loop env data k ret (sk, w) = Inr (n, sk', w') \<Longrightarrow> k \<le> length data \<Longrightarrow>
    k \<le> n \<and> n \<le> length data \<and>
    sent (s_fd sk) (sys_trace w') = sent (s_fd sk) (sys_trace w) @ take (n - k) (drop k data) \<and>
    (n < length data \<longrightarrow> 0 < ret \<longrightarrow> gave_up (sk', w'))"
proof (induction "length data - k" arbitrary: k ret w rule: less_induct)
  case less
  show ?case
  proof (cases "k < length data \<and> 0 < ret")
    case False
    then show ?thesis using less.prems by (subst (asm) write_loop.simps) auto
  next
    case True
    with less.prems(1) obtain ret1 sk1 w1 where
      step: "Socket_Write env (drop k data) (sk, w) = Inr (ret1, sk1, w1)"
      and rec: "write_loop env data (if 0 \<le> ret1 then k + nat ret1 else k) ret1 (sk1, w1) = Inr (n, sk', w')"
      by (subst (asm) write_loop.simps) (auto simp: res_simps)
    from assms step show ?thesis
    proof (cases rule: Socket_Write_cases)
      case failed
      then show ?thesis using rec True by (subst (asm) write_loop.simps) (auto simp: gave_up_def)
    next
      case accepted
      show ?thesis
      proof (cases "ret1 = 0")
        case True
        then show ?thesis
          using rec accepted(3-5) less.prems(2) by (subst (asm) write_loop.simps) (auto simp: gave_up_def)
      next
        case False
        with accepted True have k1: "length data - (k + nat ret1) < length data - k" "k + nat ret1 \<le> length data"
          by auto
        from less.hyps [OF k1(1) _ k1(2), of ret1 w1] rec accepted have
          IH: "k + nat ret1 \<le> n" "n \<le> length data"
          "sent (s_fd sk) (sys_trace w') =
             sent (s_fd sk) (sys_trace w1) @ take (n - (k + nat ret1)) (drop (k + nat ret1) data)"
          "n < length data \<longrightarrow> gave_up (sk', w')"
          using False by auto
        have "n - k = nat ret1 + (n - (k + nat ret1))" using IH(1) by linarith
        then have "take (n - k) (drop k data) =
          take (nat ret1) (drop k data) @ take (n - (k + nat ret1)) (drop (k + nat ret1) data)"
          by (metis add.commute drop_drop take_add)
        then show ?thesis using IH accepted(4) by simp
      qed
    qed
  qed
qed

text \<open>A system whose sends are not interrupted and do not fail with \<open>EAGAIN\<close>.\<close>

definition sends_settle :: "sock_env \<Rightarrow> bool" where
  "sends_settle env \<longleftrightarrow> (\<forall>tr f d. let r = sock_sys env tr (SockSend f d)
     in r_ret r = -1 \<longrightarrow> r_errno r \<notin> {EINTR, EAGAIN})"

lemma Socket_Write_returns:
  assumes "send_ok env" "sends_settle env"
  shows "\<exists>y. Socket_Write env d x = Inr y"
proof -
  obtain sk w where x: "x = (sk, w)" by fastforce
  let ?c = "SockSend (s_fd sk) d"
  obtain r w1 where s: "syscall env ?c w = (r, w1)" by fastforce
  then have r: "r = sock_sys env (sys_trace w) ?c" "r_ret r = -1 \<Longrightarrow> errno w1 = r_errno r"
    by (auto simp: syscall_def Let_def)
  have e: "errno w1 \<notin> {EINTR, EAGAIN}" if "r_ret r = -1"
    using assms(2) r that by (simp add: sends_settle_def Let_def)
  have "HANDLE_EINTR env ?c w = Inr (r_ret r, r, w1)"
    using HANDLE_EINTR_once [OF s] e send_okD [OF assms(1) r(1)] by auto
  moreover have "\<exists>y. setSocketError env (sk, w1) = Inr y" if "r_ret r < 0"
  proof -
    have "r_ret r = -1" using that send_okD(2) [OF assms(1) r(1)] by linarith
    with e show ?thesis by (simp add: setSocketError_def sock_dcheck_def EWOULDBLOCK_def)
  qed
  ultimately show ?thesis by (auto simp: x Socket_Write_def mapr_eq_Inr)
qed

lemma write_loop_returns:
  assumes "send_ok env" "sends_settle env"
  shows "\<exists>y. write_loop env data k ret x = Inr y"
  using assms
proof (induction env data k ret x rule: write_loop.induct)
  case (1 env data k ret x)
  show ?case
  proof (cases "k < length data \<and> 0 < ret")
    case True
    obtain ret1 x1 where w: "Socket_Write env (drop k data) x = Inr (ret1, x1)"
      using Socket_Write_returns [OF 1(2,3)] by (metis surj_pair)
    from 1(1) [OF True w refl 1(2,3)] True w show ?thesis
      by (subst write_loop.simps) simp
  next
    case False
    then show ?thesis by (subst write_loop.simps) auto
  qed
qed

text \<open>C32: \<open>WriteNumBytes\<close> hands the data to the system in order, each byte once: the result is the number of
  bytes accepted, they are the first ones of the data, and a short count means that an error closed the socket
  or that \<open>send\<close> accepted nothing, however the system splits the data and however often it interrupts. When no
  send is interrupted or would block, it returns.\<close>

theorem WriteNumBytes_sends:
  assumes "send_ok env" "length data < 2147483648"
  shows "res_inv (\<lambda>(n, sk', w'). 0 \<le> n \<and> nat n \<le> length data \<and>
      sent (s_fd sk) (sys_trace w') = sent (s_fd sk) (sys_trace w) @ take (nat n) data \<and>
      (nat n < length data \<longrightarrow> gave_up (sk', w'))) (WriteNumBytes env data (sk, w)) \<and>
    (sends_settle env \<longrightarrow> (\<exists>y. WriteNumBytes env data (sk, w) = Inr y))"
proof (intro conjI impI)
  show "\<exists>y. WriteNumBytes env data (sk, w) = Inr y" if "sends_settle env"
    using write_loop_returns [OF assms(1) that, of data 0 1 "(sk, w)"]
    by (auto simp: WriteNumBytes_def mapr_eq_Inr)
  show "res_inv (\<lambda>(n, sk', w'). 0 \<le> n \<and> nat n \<le> length data \<and>
      sent (s_fd sk) (sys_trace w') = sent (s_fd sk) (sys_trace w) @ take (nat n) data \<and>
      (nat n < length data \<longrightarrow> gave_up (sk', w'))) (WriteNumBytes env data (sk, w))"
  proof (cases "write_loop env data 0 1 (sk, w)")
    case (Inr y)
    obtain n sk' w' where y: "y = (n, sk', w')" by (cases y) auto
    note loop = write_loop_sends [OF assms(1) Inr [unfolded y]]
    have "to_int (int n) = int n" using loop assms(2) by (intro to_int_id) simp_all
    with loop Inr y show ?thesis by (simp add: WriteNumBytes_def)
  qed (simp add: WriteNumBytes_def)
qed

text \<open>A system that accepts at most three bytes at a time.\<close>

definition reply :: "int \<Rightarrow> int \<Rightarrow> sys_reply" where
  "reply ret e = \<lparr>r_ret = ret, r_errno = e, r_data = [], r_addr = no_addr\<rparr>"

definition slow_env :: sock_env where
  "slow_env = \<lparr>sock_ndebug = False,
     sock_sys = \<lambda>tr c. (case c of SockSend f d \<Rightarrow> reply (int (min 3 (length d))) 0 | _ \<Rightarrow> reply 0 0),
     sock_retries = 0\<rparr>"

definition idle_os :: os where
  "idle_os = \<lparr>errno = 0, sys_trace = []\<rparr>"

theorem WriteNumBytes_sends_witness:
  "send_ok slow_env \<and> sends_settle slow_env \<and>
   (\<exists>n sk' w'. WriteNumBytes slow_env [1, 2, 3, 4, 5] (Socket\<lparr>s_fd := 9\<rparr>, idle_os) = Inr (n, sk', w') \<and>
      sent 9 (sys_trace w') = take (nat n) [1, 2, 3, 4, 5])"
proof -
  have ok: "send_ok slow_env" "sends_settle slow_env"
    by (auto simp: send_ok_def sends_settle_def slow_env_def reply_def min_def)
  from WriteNumBytes_sends [OF ok(1), of "[1, 2, 3, 4, 5]" "Socket\<lparr>s_fd := 9\<rparr>" idle_os] ok
  show ?thesis by (auto simp: idle_os_def)
qed

section \<open>Ownership of the descriptor\<close>

text \<open>The descriptors that a trace leaves open, and that it closes open ones only.\<close>

fun open_fds :: "(sys_call \<times> sys_reply) list \<Rightarrow> fd set" where
  "open_fds [] = {}"
| "open_fds ((SockSocket _, r) # tr) = (if 0 \<le> r_ret r then insert (r_ret r) (open_fds tr) else open_fds tr)"
| "open_fds ((SockAccept _, r) # tr) =
     (if 0 \<le> to_int (r_ret r) then insert (to_int (r_ret r)) (open_fds tr) else open_fds tr)"
| "open_fds ((SockOpen _, r) # tr) = (if 0 \<le> r_ret r then insert (r_ret r) (open_fds tr) else open_fds tr)"
| "open_fds ((SockClose f, r) # tr) = open_fds tr - {f}"
| "open_fds (_ # tr) = open_fds tr"

fun closes_ok :: "(sys_call \<times> sys_reply) list \<Rightarrow> bool" where
  "closes_ok [] \<longleftrightarrow> True"
| "closes_ok ((SockClose f, r) # tr) \<longleftrightarrow> f \<in> open_fds tr \<and> closes_ok tr"
| "closes_ok (_ # tr) \<longleftrightarrow> closes_ok tr"

fun neutral :: "sys_call \<Rightarrow> bool" where
  "neutral (SockSocket _) = False"
| "neutral (SockAccept _) = False"
| "neutral (SockOpen _) = False"
| "neutral (SockClose _) = False"
| "neutral _ = True"

definition ledger :: "os \<Rightarrow> fd set \<times> bool" where
  "ledger w = (open_fds (sys_trace w), closes_ok (sys_trace w))"

definition own_fds :: "socket \<Rightarrow> fd set" where
  "own_fds sk = (if IsClosed sk then {} else {s_fd sk})"

text \<open>The socket's descriptor is open and the rest of the process has the open descriptors \<open>F\<close>.\<close>

definition owns :: "fd set \<Rightarrow> socket \<Rightarrow> os \<Rightarrow> bool" where
  "owns F sk w \<longleftrightarrow> ledger w = (F \<union> own_fds sk, True) \<and> F \<inter> own_fds sk = {}"

lemma ledger_errno [simp]: "ledger (w\<lparr>errno := e\<rparr>) = ledger w"
  by (simp add: ledger_def)

lemma neutral_trace:
  assumes "neutral c"
  shows "open_fds ((c, r) # tr) = open_fds tr" "closes_ok ((c, r) # tr) = closes_ok tr"
  using assms by (cases c; simp)+

lemma syscall_neutral: "syscall env c w = (r, w') \<Longrightarrow> neutral c \<Longrightarrow> ledger w' = ledger w"
  by (auto simp: syscall_def Let_def ledger_def neutral_trace)

lemma interrupted_neutral:
  "interrupted c pre \<Longrightarrow> neutral c \<Longrightarrow> open_fds (pre @ tr) = open_fds tr \<and> closes_ok (pre @ tr) = closes_ok tr"
  by (induction pre) (auto simp: interrupted_def neutral_trace)

lemma HANDLE_EINTR_neutral:
  assumes "HANDLE_EINTR env c w = Inr (ret, r, w')" "neutral c"
  shows "ledger w' = ledger w"
  using assms interrupted_neutral
  by (elim HANDLE_EINTR_trace) (simp add: ledger_def neutral_trace)

lemma PRESERVE_neutral:
  "PRESERVE_ERRNO_HANDLE_EINTR env c w = Inr w' \<Longrightarrow> neutral c \<Longrightarrow> ledger w' = ledger w"
  by (auto simp: PRESERVE_ERRNO_HANDLE_EINTR_def Let_def mapr_eq_Inr dest: HANDLE_EINTR_neutral)

lemma owns_cong:
  assumes "owns F sk w" "ledger w' = ledger w" "s_fd sk' = s_fd sk"
  shows "owns F sk' w'"
  using assms by (auto simp: owns_def own_fds_def IsClosed_def split: if_splits)

lemma Close_owns:
  assumes "owns F sk w" "Close env (sk, w) = (sk', w')"
  shows "owns F sk' w'" "IsClosed sk'"
proof -
  show "IsClosed sk'" using Close_fields [OF assms(2)] by simp
  show "owns F sk' w'"
  proof (cases "IsClosed sk")
    case True
    then show ?thesis using assms by (simp add: Close_def)
  next
    case False
    then have "sk' = sk\<lparr>s_fd := -1\<rparr>" "\<exists>r. sys_trace w' = (SockClose (s_fd sk), r) # sys_trace w"
      using assms(2) by (auto simp: Close_def CloseFD_def IGNORE_EINTR_def syscall_def Let_def split: if_splits)
    then show ?thesis
      using assms(1) False by (auto simp: owns_def own_fds_def IsClosed_def ledger_def)
  qed
qed

lemma setSocketError_owns:
  assumes "owns F sk w" "setSocketError env (sk, w) = Inr (sk', w')"
  shows "owns F sk' w'"
proof -
  have "owns F (sk\<lparr>s_error := True\<rparr>) w" using assms(1) by (rule owns_cong) simp_all
  moreover have "Close env (sk\<lparr>s_error := True\<rparr>, w) = (sk', w')"
    using assms(2) by (auto simp: setSocketError_def sock_dcheck_def guard_def split: if_splits)
  ultimately show ?thesis by (rule Close_owns)
qed

lemma Socket_Write_owns:
  assumes "owns F sk w" "Socket_Write env d (sk, w) = Inr (ret, sk', w')"
  shows "owns F sk' w'"
proof -
  obtain r w1 where h: "HANDLE_EINTR env (SockSend (s_fd sk) d) w = Inr (ret, r, w1)"
    and k: "if ret < 0 then setSocketError env (sk, w1) = Inr (sk', w') else sk' = sk \<and> w' = w1"
    using assms(2) by (auto simp: Socket_Write_def res_simps split: if_splits)
  have "owns F sk w1" by (rule owns_cong [OF assms(1)]) (use HANDLE_EINTR_neutral [OF h] in simp_all)
  then show ?thesis using k setSocketError_owns [of F sk w1 env sk' w'] by (cases "ret < 0") simp_all
qed

lemma Socket_Read_owns:
  assumes "owns F sk w" "Socket_Read env n (sk, w) = Inr (ret, d, sk', w')"
  shows "owns F sk' w'"
proof -
  obtain r w1 where h: "HANDLE_EINTR env (SockRead (s_fd sk) n) w = Inr (ret, r, w1)"
    and k: "if ret < 0 then setSocketError env (sk, w1) = Inr (sk', w') else sk' = sk \<and> w' = w1"
    using assms(2) by (auto simp: Socket_Read_def res_simps split: if_splits)
  have "owns F sk w1" by (rule owns_cong [OF assms(1)]) (use HANDLE_EINTR_neutral [OF h] in simp_all)
  then show ?thesis using k setSocketError_owns [of F sk w1 env sk' w'] by (cases "ret < 0") simp_all
qed

lemma write_loop_owns:
  "owns F (fst x) (snd x) \<Longrightarrow> write_loop env data k ret x = Inr (n, x') \<Longrightarrow> owns F (fst x') (snd x')"
proof (induction env data k ret x rule: write_loop.induct)
  case (1 env data k ret x)
  show ?case
  proof (cases "k < length data \<and> 0 < ret")
    case True
    with 1(3) obtain ret1 x1 where
      step: "Socket_Write env (drop k data) x = Inr (ret1, x1)"
      and rec: "write_loop env data (if 0 \<le> ret1 then k + nat ret1 else k) ret1 x1 = Inr (n, x')"
      by (subst (asm) write_loop.simps) (auto simp: res_simps)
    have "owns F (fst x1) (snd x1)"
      using Socket_Write_owns [of F "fst x" "snd x" env "drop k data" ret1 "fst x1" "snd x1"] 1(2) step by simp
    from 1(1) [OF True step refl this rec] show ?thesis .
  next
    case False
    then show ?thesis using 1(2,3) by (subst (asm) write_loop.simps) auto
  qed
qed

lemma read_loop_owns:
  "owns F (fst x) (snd x) \<Longrightarrow> read_loop env num k ret buf x = Inr (n, b, x') \<Longrightarrow> owns F (fst x') (snd x')"
proof (induction env num k ret buf x rule: read_loop.induct)
  case (1 env num k ret buf x)
  show ?case
  proof (cases "k < num \<and> 0 < ret")
    case True
    with 1(3) obtain ret1 d x1 where
      step: "Socket_Read env (num - k) x = Inr (ret1, d, x1)"
      and rec: "read_loop env num (if 0 \<le> ret1 then k + nat ret1 else k) ret1 (buf @ d) x1 = Inr (n, b, x')"
      by (subst (asm) read_loop.simps) (auto simp: res_simps)
    have "owns F (fst x1) (snd x1)"
      using Socket_Read_owns [of F "fst x" "snd x" env "num - k" ret1 d "fst x1" "snd x1"] 1(2) step by simp
    from 1(1) [OF True step refl refl this rec] show ?thesis .
  next
    case False
    then show ?thesis using 1(2,3) by (subst (asm) read_loop.simps) auto
  qed
qed

text \<open>\<open>socket\<close> returns -1 or a descriptor that is not open.\<close>

definition fresh_fds :: "sock_env \<Rightarrow> bool" where
  "fresh_fds env \<longleftrightarrow> (\<forall>tr fam. r_ret (sock_sys env tr (SockSocket fam)) \<notin> open_fds tr)"

lemma setsockopt_ledger: "ledger (snd (setsockopt env f opt on w)) = ledger w"
  by (auto simp: setsockopt_def split: prod.split dest: syscall_neutral)

lemma SetNonBlocking_ledger: "SetNonBlocking env f w = (ok, w') \<Longrightarrow> ledger w' = ledger w"
  by (auto simp: SetNonBlocking_def split: prod.splits if_splits dest!: syscall_neutral)

lemma initInternal_owns:
  assumes "owns F sk w" "IsClosed sk" "fresh_fds env" "initInternal env (sk, w) = (ok, sk', w')"
  shows "owns F sk' w'"
proof -
  obtain r w1 where s: "syscall env (SockSocket (s_family sk)) w = (r, w1)" by fastforce
  let ?sk = "sk\<lparr>s_fd := r_ret r\<rparr>"
  have fresh: "r_ret r \<notin> open_fds (sys_trace w)"
    using s assms(3) by (auto simp: syscall_def Let_def fresh_fds_def)
  have tr: "sys_trace w1 = (SockSocket (s_family sk), r) # sys_trace w" using s by (auto simp: syscall_def Let_def)
  have own: "owns F ?sk w1"
    using assms(1,2) tr fresh by (auto simp: owns_def own_fds_def IsClosed_def ledger_def)
  have "sk' = ?sk \<and> ledger w' = ledger w1"
    using assms(4) s
    by (auto simp: initInternal_def Let_def DisableNagle_def SetReuseAddr_def setsockopt_ledger
        split: if_splits prod.splits dest!: SetNonBlocking_ledger)
  then show ?thesis by (intro owns_cong [OF own]) simp_all
qed

lemma init_owns:
  assumes "owns F sk w" "IsClosed sk" "fresh_fds env" "init env host port (sk, w) = Inr (ok, sk', w')"
  shows "owns F sk' w'"
proof -
  obtain sk1 w1 sk2 where
    r: "(if host = [] then Inr (sk\<lparr>s_port := port, s_family := AF_INET,
          s_addr := (s_addr sk)\<lparr>sa_family := AF_INET, sa_host := loopback\<rparr>\<rparr>, w)
        else resolve env host (sk\<lparr>s_port := port\<rparr>, w)) = Inr (sk1, w1)"
    and i: "initInternal env (sk2, w1) = (ok, sk', w')" "s_fd sk2 = s_fd sk1"
    using assms(4) unfolding init_def Let_def by (auto simp: res_simps split: if_splits)
  have "s_fd sk1 = s_fd sk \<and> ledger w1 = ledger w"
    using r by (auto simp: resolve_def Let_def res_simps split: if_splits prod.splits dest!: syscall_neutral)
  then have "owns F sk2 w1" "IsClosed sk2"
    using assms(2) i(2) by (auto simp: IsClosed_def intro: owns_cong [OF assms(1)])
  then show ?thesis by (rule initInternal_owns [OF _ _ assms(3) i(1)])
qed

lemma check_nonblocking_ledger: "check_nonblocking env f w = Inr w' \<Longrightarrow> ledger w' = ledger w"
  by (auto simp: check_nonblocking_def guard_def split: if_splits prod.splits dest!: syscall_neutral)

lemma connect_owns:
  assumes own: "owns F sk w" and c: "connect env (sk, w) = Inr (ok, sk', w')"
  shows "owns F sk' w'"
proof -
  obtain w1 ret r w2 where w1: "check_nonblocking env (s_fd sk) w = Inr w1"
    and h: "HANDLE_EINTR env (SockConnect (s_fd sk) (s_addr sk)) (w1\<lparr>errno := 0\<rparr>) = Inr (ret, r, w2)"
    and k: "setSocketError env (sk, w2) = Inr (sk', w') \<or> sk' = sk \<and> w' = w2"
    using c by (auto simp: connect_def res_simps split: if_splits)
  have "owns F sk w2"
    by (rule owns_cong [OF own]) (use HANDLE_EINTR_neutral [OF h] check_nonblocking_ledger [OF w1] in simp_all)
  with k show ?thesis using setSocketError_owns by blast
qed

lemma HANDLE_EINTR_owns:
  assumes "owns F sk w" "neutral c"
  shows "res_inv (\<lambda>(_, _, w'). owns F sk w') (HANDLE_EINTR env c w)"
proof (cases "HANDLE_EINTR env c w")
  case (Inr y)
  obtain ret r w' where y: "y = (ret, r, w')" by (cases y)
  have "owns F sk w'"
    by (rule owns_cong [OF assms(1)]) (use HANDLE_EINTR_neutral [OF Inr [unfolded y] assms(2)] in simp_all)
  then show ?thesis using Inr y by simp
qed simp

lemma owns_errno: "owns F sk w \<Longrightarrow> owns F sk (w\<lparr>errno := e\<rparr>)"
  by (erule owns_cong) simp_all

lemma setSocketError_owns': "owns F sk w \<Longrightarrow> res_inv (\<lambda>x. owns F (fst x) (snd x)) (setSocketError env (sk, w))"
  using setSocketError_owns by (cases "setSocketError env (sk, w)") auto

lemma bindAndListen_owns':
  assumes own: "owns F sk w"
  shows "res_inv (\<lambda>(ok, x). owns F (fst x) (snd x)) (bindAndListen env (sk, w))"
proof -
  have name: "res_inv (\<lambda>(ok, x). owns F (fst x) (snd x))
      (case syscall env (SockGetName (s_fd sk)) (w2\<lparr>errno := 0\<rparr>) of (r, w3) \<Rightarrow>
        if r_ret r \<noteq> 0 then mapr (Pair False) (setSocketError env (sk, w3))
        else Inr (True, sk\<lparr>s_port := uint (sa_port (r_addr r))\<rparr>, w3))" if "owns F sk w2" for w2
  proof -
    obtain r w3 where s: "syscall env (SockGetName (s_fd sk)) (w2\<lparr>errno := 0\<rparr>) = (r, w3)" by fastforce
    have "owns F sk w3" by (rule owns_cong [OF that]) (use syscall_neutral [OF s] in simp_all)
    moreover from this have "owns F (sk\<lparr>s_port := p\<rparr>) w3" for p by (rule owns_cong) simp_all
    ultimately show ?thesis using s setSocketError_owns' by simp
  qed
  show ?thesis
    unfolding bindAndListen_def prod.case
  proof (rule res_inv_bindr [OF HANDLE_EINTR_owns [OF owns_errno [OF own]]], simp, clarify)
    fix b w1
    assume w1: "owns F sk w1"
    show "res_inv (\<lambda>(ok, x). owns F (fst x) (snd x))
      (bindr (if b < 0 then Inr (b, w1)
         else mapr (\<lambda>(l, _, w2). (l, w2)) (HANDLE_EINTR env (SockListen (s_fd sk)) w1)) (\<lambda>(l, w2).
       if b < 0 \<or> l < 0 then mapr (Pair False) (setSocketError env (sk, w2))
       else if s_port sk = 0 \<and> FamilyIsTCP (s_family sk)
       then case syscall env (SockGetName (s_fd sk)) (w2\<lparr>errno := 0\<rparr>) of (r, w3) \<Rightarrow>
             if r_ret r \<noteq> 0 then mapr (Pair False) (setSocketError env (sk, w3))
             else Inr (True, sk\<lparr>s_port := uint (sa_port (r_addr r))\<rparr>, w3)
       else Inr (True, sk, w2)))"
    proof (rule res_inv_bindr [where Q = "\<lambda>(l, w2). owns F sk w2"])
      show "res_inv (\<lambda>(l, w2). owns F sk w2) (if b < 0 then Inr (b, w1)
         else mapr (\<lambda>(l, _, w2). (l, w2)) (HANDLE_EINTR env (SockListen (s_fd sk)) w1))"
        using HANDLE_EINTR_owns [OF w1, of "SockListen (s_fd sk)" env] w1 by (simp add: split_def)
    qed (use name setSocketError_owns' in auto)
  qed
qed

lemma bindAndListen_owns: "owns F sk w \<Longrightarrow> bindAndListen env (sk, w) = Inr (ok, sk', w') \<Longrightarrow> owns F sk' w'"
  using bindAndListen_owns' [of F sk w env] by simp

lemma init_then_owns:
  assumes own: "owns F sk w" "IsClosed sk" "fresh_fds env"
    and k: "\<And>x ok x'. owns F (fst x) (snd x) \<Longrightarrow> k x = Inr (ok, x') \<Longrightarrow> owns F (fst x') (snd x')"
    and c: "init_then env k host port (sk, w) = Inr (ok, x')"
  shows "owns F (fst x') (snd x') \<and> (\<not> ok \<longrightarrow> IsClosed (fst x'))"
proof -
  obtain ok1 sk1 w1 ok2 x2 where i: "init env host port (sk, w\<lparr>errno := 0\<rparr>) = Inr (ok1, sk1, w1)"
    and l: "(if ok1 then k (sk1, w1) else Inr (False, sk1, w1)) = Inr (ok2, x2)"
    and r: "(ok, x') = (if ok2 then (True, x2) else (False, Close env x2))"
    using c unfolding init_then_def by (auto simp: res_simps)
  have "owns F sk (w\<lparr>errno := 0\<rparr>)" by (rule owns_cong [OF own(1)]) simp_all
  from init_owns [OF this own(2,3) i] have "owns F sk1 w1" .
  then have own2: "owns F (fst x2) (snd x2)" using l k [of "(sk1, w1)"] by (auto split: if_splits)
  show ?thesis
    using r own2 Close_owns [OF own2, of env "fst (Close env x2)" "snd (Close env x2)"]
    by (auto split: if_splits)
qed

datatype sock_op =
    DoBindAndListen string int
  | DoConnect string int
  | DoRead nat
  | DoReadNumBytes nat
  | DoWrite bytes
  | DoWriteNumBytes bytes
  | DoShutdown
  | DoShutdownWrite
  | DoClose

fun run_sock_op :: "sock_env \<Rightarrow> sock_op \<Rightarrow> sock_state \<Rightarrow> sock_state res" where
  "run_sock_op env (DoBindAndListen h p) x = mapr snd (BindAndListen env h p x)"
| "run_sock_op env (DoConnect h p) x = mapr snd (Socket_Connect env h p x)"
| "run_sock_op env (DoRead n) x = mapr (snd \<circ> snd) (Socket_Read env n x)"
| "run_sock_op env (DoReadNumBytes n) x = mapr (snd \<circ> snd) (ReadNumBytes env n x)"
| "run_sock_op env (DoWrite d) x = mapr snd (Socket_Write env d x)"
| "run_sock_op env (DoWriteNumBytes d) x = mapr snd (WriteNumBytes env d x)"
| "run_sock_op env DoShutdown x = Socket_Shutdown env x"
| "run_sock_op env DoShutdownWrite x = ShutdownWrite env x"
| "run_sock_op env DoClose x = Inr (Close env x)"

fun needs_closed :: "sock_op \<Rightarrow> bool" where
  "needs_closed (DoBindAndListen h p) = True"
| "needs_closed (DoConnect h p) = True"
| "needs_closed _ = False"

text \<open>The runs of a socket that open it only while it is closed.\<close>

inductive sock_run :: "sock_env \<Rightarrow> sock_state \<Rightarrow> sock_state \<Rightarrow> bool" for env where
  start: "sock_run env x x"
| step: "sock_run env x y \<Longrightarrow> needs_closed op \<longrightarrow> IsClosed (fst y) \<Longrightarrow> run_sock_op env op y = Inr z \<Longrightarrow>
    sock_run env x z"

lemma run_sock_op_owns:
  assumes own: "owns F sk w" "fresh_fds env" "needs_closed op \<longrightarrow> IsClosed sk"
    and r: "run_sock_op env op (sk, w) = Inr (sk', w')"
  shows "owns F sk' w'"
proof (cases op)
  case (DoBindAndListen h p)
  have "owns F (fst x') (snd x')" if "owns F (fst x) (snd x)" "bindAndListen env x = Inr (ok, x')" for x ok x'
    using bindAndListen_owns [of F "fst x" "snd x" env ok "fst x'" "snd x'"] that by simp
  note bindAndListen = this
  from DoBindAndListen r obtain ok where eq: "init_then env (bindAndListen env) h p (sk, w) = Inr (ok, sk', w')"
    by (auto simp: BindAndListen_def mapr_eq_Inr)
  have "IsClosed sk" using DoBindAndListen own(3) by simp
  from init_then_owns [OF own(1) this own(2) _ eq] bindAndListen show ?thesis by auto
next
  case (DoConnect h p)
  have "owns F (fst x') (snd x')" if "owns F (fst x) (snd x)" "connect env x = Inr (ok, x')" for x ok x'
    using connect_owns [of F "fst x" "snd x" env ok "fst x'" "snd x'"] that by simp
  note connect = this
  from DoConnect r obtain ok where eq: "init_then env (connect env) h p (sk, w) = Inr (ok, sk', w')"
    by (auto simp: Socket_Connect_def mapr_eq_Inr)
  have "IsClosed sk" using DoConnect own(3) by simp
  from init_then_owns [OF own(1) this own(2) _ eq] connect show ?thesis by auto
next
  case (DoReadNumBytes n)
  with r obtain m b where "read_loop env n 0 1 [] (sk, w) = Inr (m, b, sk', w')"
    by (auto simp: ReadNumBytes_def mapr_eq_Inr)
  from read_loop_owns [OF _ this, of F] own(1) show ?thesis by simp
next
  case (DoWriteNumBytes d)
  with r obtain m where "write_loop env d 0 1 (sk, w) = Inr (m, sk', w')"
    by (auto simp: WriteNumBytes_def mapr_eq_Inr)
  from write_loop_owns [OF _ this, of F] own(1) show ?thesis by simp
next
  case (DoRead n)
  with r Socket_Read_owns [OF own(1)] show ?thesis by (auto simp: mapr_eq_Inr)
next
  case (DoWrite d)
  with r Socket_Write_owns [OF own(1)] show ?thesis by (auto simp: mapr_eq_Inr)
next
  case DoClose
  with r Close_owns [OF own(1)] show ?thesis by auto
qed (use r own(1) in \<open>auto simp: Socket_Shutdown_def ShutdownWrite_def mapr_eq_Inr split: if_splits
    dest!: PRESERVE_neutral intro: owns_cong [OF own(1)]\<close>)


text \<open>A system that hands out increasing descriptors and refuses every connection.\<close>

fun last_fd :: "(sys_call \<times> sys_reply) list \<Rightarrow> int" where
  "last_fd [] = 2"
| "last_fd ((_, r) # tr) = max (last_fd tr) (max (r_ret r) (to_int (r_ret r)))"

definition refusing_env :: sock_env where
  "refusing_env = \<lparr>sock_ndebug = True,
     sock_sys = \<lambda>tr c. (case c of SockSocket _ \<Rightarrow> reply (last_fd tr + 1) 0
       | SockConnect _ _ \<Rightarrow> reply (-1) 111 | _ \<Rightarrow> reply 0 0),
     sock_retries = 0\<rparr>"

lemma open_fds_last: "f \<in> open_fds tr \<Longrightarrow> f \<le> last_fd tr"
  by (induction tr rule: open_fds.induct) (auto split: if_splits)

lemma refusing_fresh: "fresh_fds refusing_env"
  by (auto simp: fresh_fds_def refusing_env_def reply_def dest: open_fds_last)


section \<open>Transient errors\<close>

lemma HANDLE_EINTR_failed:
  assumes "sock_sys env (sys_trace w) c = r" "r_ret r = -1" "r_errno r = e" "e \<noteq> EINTR"
  shows "HANDLE_EINTR env c w = Inr (-1, r, w\<lparr>errno := e, sys_trace := (c, r) # sys_trace w\<rparr>)"
  using HANDLE_EINTR_once [of env c w r "w\<lparr>errno := e, sys_trace := (c, r) # sys_trace w\<rparr>"] assms
  by (simp add: syscall_def Let_def to_int_def)

text \<open>A call that only has to be repeated later ends the socket. When \<open>send\<close> or \<open>read\<close> on a non-blocking
  socket reports \<open>EAGAIN\<close>, the debug build aborts and the release build closes the socket; an \<open>accept\<close> that
  fails with any error but \<open>EINTR\<close>, such as \<open>ECONNABORTED\<close> or \<open>EMFILE\<close>, closes the listening socket.\<close>

theorem socket_transient_errors:
  assumes "\<not> IsClosed sk"
  shows "(sock_sys env (sys_trace w) (SockSend (s_fd sk) d) = reply (-1) EAGAIN \<longrightarrow>
      (if sock_ndebug env then \<exists>sk' w'. Socket_Write env d (sk, w) = Inr (-1, sk', w') \<and> IsClosed sk'
       else Socket_Write env d (sk, w) = Inl DCheckFailed)) \<and>
    (sock_sys env (sys_trace w) (SockRead (s_fd sk) n) = reply (-1) EAGAIN \<longrightarrow>
      (if sock_ndebug env then \<exists>sk' w'. Socket_Read env n (sk, w) = Inr (-1, [], sk', w') \<and> IsClosed sk'
       else Socket_Read env n (sk, w) = Inl DCheckFailed)) \<and>
    (sock_sys env (sys_trace w) (SockAccept (s_fd sk)) = reply (-1) e \<longrightarrow> e \<notin> {EINTR, EAGAIN} \<longrightarrow>
      (\<exists>sk' w'. Accept env new (sk, w) = Inr (False, new, sk', w') \<and> IsClosed sk'))"
proof -
  have closed: "\<exists>sk' w'. setSocketError env (sk, w1) = Inr (sk', w') \<and> IsClosed sk'"
    if "sock_ndebug env \<or> errno w1 \<noteq> EAGAIN" for w1
    using that setSocketError_fields(1) [of env sk w1]
    by (cases "Close env (sk\<lparr>s_error := True\<rparr>, w1)")
      (auto simp: setSocketError_def sock_dcheck_def guard_def EWOULDBLOCK_def)
  have aborts: "setSocketError env (sk, w1) = Inl DCheckFailed" if "\<not> sock_ndebug env" "errno w1 = EAGAIN" for w1
    using that by (simp add: setSocketError_def sock_dcheck_def)
  have eagain: "EAGAIN \<noteq> EINTR" by (simp add: EAGAIN_def EINTR_def)
  let ?w = "\<lambda>w c e. w\<lparr>errno := e, sys_trace := (c, reply (-1) e) # sys_trace w\<rparr>"
  have call: "HANDLE_EINTR env c w = Inr (-1, reply (-1) e, ?w w c e)"
    if "sock_sys env (sys_trace w) c = reply (-1) e" "e \<noteq> EINTR" for c e w
    using HANDLE_EINTR_failed [OF that(1) _ _ that(2)] by (simp add: reply_def)
  show ?thesis
  proof (intro conjI impI)
    assume "sock_sys env (sys_trace w) (SockSend (s_fd sk) d) = reply (-1) EAGAIN"
    note call [OF this eagain]
    then show "if sock_ndebug env then \<exists>sk' w'. Socket_Write env d (sk, w) = Inr (-1, sk', w') \<and> IsClosed sk'
       else Socket_Write env d (sk, w) = Inl DCheckFailed"
      using closed [of "?w w (SockSend (s_fd sk) d) EAGAIN"] aborts [of "?w w (SockSend (s_fd sk) d) EAGAIN"]
      by (auto simp: Socket_Write_def)
  next
    assume "sock_sys env (sys_trace w) (SockRead (s_fd sk) n) = reply (-1) EAGAIN"
    note call [OF this eagain]
    then show "if sock_ndebug env then \<exists>sk' w'. Socket_Read env n (sk, w) = Inr (-1, [], sk', w') \<and> IsClosed sk'
       else Socket_Read env n (sk, w) = Inl DCheckFailed"
      using closed [of "?w w (SockRead (s_fd sk) n) EAGAIN"] aborts [of "?w w (SockRead (s_fd sk) n) EAGAIN"]
      by (auto simp: Socket_Read_def)
  next
    assume a: "sock_sys env (sys_trace w) (SockAccept (s_fd sk)) = reply (-1) e" and e: "e \<notin> {EINTR, EAGAIN}"
    from call [of "w\<lparr>errno := 0\<rparr>" "SockAccept (s_fd sk)" e] a e
    show "\<exists>sk' w'. Accept env new (sk, w) = Inr (False, new, sk', w') \<and> IsClosed sk'"
      using closed [of "?w (w\<lparr>errno := 0\<rparr>) (SockAccept (s_fd sk)) e"] by (auto simp: Accept_def)
  qed
qed

definition blocked_env :: sock_env where
  "blocked_env = \<lparr>sock_ndebug = True,
     sock_sys = \<lambda>tr c. (case c of SockSend _ _ \<Rightarrow> reply (-1) EAGAIN | SockRead _ _ \<Rightarrow> reply (-1) EAGAIN
       | SockAccept _ \<Rightarrow> reply (-1) 24 | _ \<Rightarrow> reply 0 0),
     sock_retries = 0\<rparr>"

theorem socket_transient_errors_witness:
  "\<exists>sk1 w1 sk2 w2. Socket_Write blocked_env [1] (Socket\<lparr>s_fd := 9\<rparr>, idle_os) = Inr (-1, sk1, w1) \<and> IsClosed sk1 \<and>
     Accept blocked_env Socket (Socket\<lparr>s_fd := 9\<rparr>, idle_os) = Inr (False, Socket, sk2, w2) \<and> IsClosed sk2"
proof -
  have "\<not> IsClosed (Socket\<lparr>s_fd := 9\<rparr>)" by (simp add: IsClosed_def)
  from socket_transient_errors [OF this, of blocked_env idle_os "[1]" 0 24 Socket] show ?thesis
    by (simp add: blocked_env_def EINTR_def EAGAIN_def)
qed

text \<open>A name that cannot be resolved makes \<open>freeaddrinfo\<close> release a pointer that was never set.\<close>

lemma setSocketError_no_errno:
  "bindr (setSocketError env (sk, w\<lparr>errno := 0\<rparr>)) (\<lambda>_. Inl e) = Inl e"
  by (simp add: setSocketError_def sock_dcheck_def EAGAIN_def EWOULDBLOCK_def)

lemma resolve_failure_invalid:
  assumes "host \<noteq> []" "r_ret (sock_sys env (sys_trace w) (SockGetAddrInfo host)) \<notin> {0, -1}"
  shows "Socket_Connect env host port (sk, w) = Inl InvalidAccess"
  using assms
  by (simp add: Socket_Connect_def init_then_def init_def resolve_def syscall_def Let_def setSocketError_no_errno)

end
