(* ===== verification/Epoll_Registry.thy ===== *)
theory Epoll_Registry
  imports Epoll_Correct
begin

text \<open>
  The registration interface of the epoll server as its clients see it: the locale \<open>fd_registry\<close> says what each
  call does to the map from descriptors to callbacks and masks, and what \<open>HasRegisterRead\<close> and
  \<open>HasRegisterWrite\<close> of \<open>raner/epoll_server.cc\<close> say about it. The server provides it, in and outside of
  callbacks.
\<close>

unbundle bit_operations_syntax

type_synonym fd_regs = "fd \<rightharpoonup> cb \<times> mask"

definition change_mask :: "fd \<Rightarrow> mask \<Rightarrow> mask \<Rightarrow> fd_regs \<Rightarrow> fd_regs" where
  "change_mask f rem add r =
     (case r f of None \<Rightarrow> r | Some (c, em) \<Rightarrow> r(f \<mapsto> (c, (em AND NOT rem) OR add)))"

fun regs_after :: "server_op \<Rightarrow> fd_regs \<Rightarrow> fd_regs" where
  "regs_after (OpRegisterFD f c em) r = r(f \<mapsto> (c, em))"
| "regs_after (OpUnregisterFD f) r = r(f := None)"
| "regs_after (OpModifyCallback f em) r = change_mask f (NOT 0) em r"
| "regs_after (OpStopRead f) r = change_mask f EPOLLIN 0 r"
| "regs_after (OpStartRead f) r = change_mask f 0 EPOLLIN r"
| "regs_after (OpStopWrite f) r = change_mask f EPOLLOUT 0 r"
| "regs_after (OpStartWrite f) r = change_mask f 0 EPOLLOUT r"
| "regs_after _ r = r"

locale fd_registry =
  fixes inv :: "'s \<Rightarrow> bool" and reg :: "'s \<Rightarrow> fd_regs"
    and exec :: "server_op \<Rightarrow> 's \<Rightarrow> 's res"
    and has_write :: "fd \<Rightarrow> 's \<Rightarrow> bool" and has_read :: "fd \<Rightarrow> 's \<Rightarrow> bool"
  assumes exec_law: "inv s \<Longrightarrow> res_inv (\<lambda>s'. inv s' \<and> reg s' = regs_after op (reg s)) (exec op s)"
    and has_write_law: "reg s f = Some (c, em) \<Longrightarrow> has_write f s \<longleftrightarrow> em AND EPOLLOUT \<noteq> 0"
    and has_read_law: "reg s f = Some (c, em) \<Longrightarrow> has_read f s \<longleftrightarrow> em AND EPOLLIN \<noteq> 0"
begin

lemma exec_reg:
  assumes "inv s" "exec op s = Inr s'"
  shows "inv s'" "reg s' = regs_after op (reg s)"
  using exec_law [OF assms(1), of op] assms(2) by simp_all

lemma start_write:
  assumes "inv s" "reg s f = Some (c, em)" "exec (OpStartWrite f) s = Inr s'"
  shows "inv s'" "reg s' = (reg s)(f \<mapsto> (c, em OR EPOLLOUT))" "has_write f s'"
proof -
  show r: "inv s'" "reg s' = (reg s)(f \<mapsto> (c, em OR EPOLLOUT))"
    using exec_reg [OF assms(1,3)] assms(2) by (simp_all add: change_mask_def)
  have "(em OR EPOLLOUT) AND EPOLLOUT \<noteq> 0"
    by (simp add: EPOLLOUT_def word_bw_comms bit.conj_disj_distrib)
  then show "has_write f s'" using r(2) has_write_law [of s' f c] by simp
qed

lemma stop_write:
  assumes "inv s" "reg s f = Some (c, em)" "exec (OpStopWrite f) s = Inr s'"
  shows "inv s'" "reg s' = (reg s)(f \<mapsto> (c, em AND NOT EPOLLOUT))" "\<not> has_write f s'"
proof -
  show r: "inv s'" "reg s' = (reg s)(f \<mapsto> (c, em AND NOT EPOLLOUT))"
    using exec_reg [OF assms(1,3)] assms(2) by (simp_all add: change_mask_def)
  have "(em AND NOT EPOLLOUT) AND EPOLLOUT = 0"
    by (simp add: and.assoc)
  then show "\<not> has_write f s'" using r(2) has_write_law [of s' f c] by simp
qed

end

section \<open>The server provides it\<close>

lemma spec_op_regs: "res_inv (\<lambda>a'. sp_regs a' = regs_after op (sp_regs a)) (spec_op env op a)"
  by (cases op) (auto simp: spec_defs Let_def guard_def change_mask_def fun_eq_iff split: option.splits)

lemma exec_op_regs:
  assumes good: "safety.good U K T s"
  shows "res_inv (\<lambda>s'. regs s' = regs_after op (regs s)) (exec_op env op s)"
proof (cases "fd_op op")
  case True
  have rep: "rep U s (abs_server s)" using good by (simp add: safety.good_def server_inv_rep)
  from exec_op_sim [OF True rep, of env] spec_op_regs [of op "abs_server s" env] show ?thesis
    by (cases "exec_op env op s"; cases "spec_op env op (abs_server s)")
      (auto simp: rep_def abs_server_def)
next
  case False
  have "res_inv (\<lambda>s'. cb_map s' = cb_map s) (exec_op env op s)"
    using False by (cases op) (auto simp: RegisterAlarm_def EpollAlarm_OnRegistration_def UnregisterIfRegistered_def
        UnregisterAlarm_def EpollAlarm_OnUnregistration_def Wake_def alarm_find_def dcheck_def guard_def Let_def
        split: option.split)
  moreover have "regs_after op (regs s) = regs s" using False by (cases op) simp_all
  ultimately show ?thesis by (elim res_inv_mono) (simp add: regs_def fun_eq_iff)
qed

text \<open>The server in or outside of a callback.\<close>

definition srv_ok :: "epoll_server \<Rightarrow> bool" where
  "srv_ok s \<longleftrightarrow> (\<exists>U K T. safety.good U K T s)"

lemma reachable_srv_ok: "wait_bounded env \<Longrightarrow> reachable env s \<Longrightarrow> srv_ok s"
  unfolding srv_ok_def using safety.reachable_good by blast

interpretation registry: fd_registry srv_ok regs "exec_op env" HasRegisterWrite HasRegisterRead for env
proof unfold_locales
  show "res_inv (\<lambda>s'. srv_ok s' \<and> regs s' = regs_after op (regs s)) (exec_op env op s)" if "srv_ok s" for s env op
  proof -
    from that obtain U K T where good: "safety.good U K T s" unfolding srv_ok_def by blast
    from safety.good_exec_op [OF good, of env op] exec_op_regs [OF good, of op env] show ?thesis
      unfolding srv_ok_def by (cases "exec_op env op s") auto
  qed
  show "HasRegisterWrite f s = (em AND EPOLLOUT \<noteq> 0)" if "regs s f = Some (c, em)" for f s c em
    using that by (auto simp: HasRegisterWrite_def regs_def bind_eq_Some_conv)
  show "HasRegisterRead f s = (em AND EPOLLIN \<noteq> 0)" if "regs s f = Some (c, em)" for f s c em
    using that by (auto simp: HasRegisterRead_def regs_def bind_eq_Some_conv)
qed

end
