(* ===== verification/TCP_Connection.thy ===== *)
theory TCP_Connection
  imports Loop_Threads Codec Socket Epoll_Registry
begin

text \<open>
  \<open>raner::TCPConnection\<close> (\<open>raner/tcp_connection.h\<close>, \<open>raner/tcp_connection.cc\<close>): one connection with its socket,
  its two buffers, and its registration with the server of its loop.

  The state of an execution is \<open>world\<close>: the loop, the system, the connection, and whether the thread that runs is
  the loop's. What the user's callbacks do is a parameter; they act through \<open>conn_op\<close>.
\<close>

section \<open>State\<close>

datatype conn_state = kDisconnected | kConnecting | kConnected | kDisconnecting

record tcp_connection =
  c_cb :: cb                    \<comment> \<open>\<open>this\<close>, as the server's callback\<close>
  c_state :: conn_state
  c_reading :: bool
  c_socket :: socket
  c_write_complete :: bool      \<comment> \<open>\<open>write_complete_callback_\<close> is set\<close>
  c_high_water :: bool          \<comment> \<open>\<open>high_water_mark_callback_\<close> is set\<close>
  c_high_water_mark :: int      \<comment> \<open>\<open>size_t\<close>\<close>
  c_input :: byte_buffer
  c_output :: byte_buffer
  c_timer :: "epoll_timer option"

text \<open>The functors a connection gives to its loop.\<close>

datatype conn_functor =
    FSendInLoop bytes
  | FShutdownInLoop
  | FForceCloseInLoop
  | FStartReadInLoop
  | FStopReadInLoop
  | FWriteComplete
  | FHighWaterMark nat

text \<open>The calls of the user's callbacks; the first with \<open>Connected()\<close> at that moment.\<close>

datatype conn_call =
    OnConnection bool
  | OnMessage_call
  | OnWriteComplete
  | OnHighWaterMark nat
  | OnClose

datatype conn_op =
    UserSend bytes
  | UserShutdown
  | UserForceClose
  | UserForceCloseWithDelay alarm int
  | UserStartRead
  | UserStopRead
  | UserSkip nat

record world =
  w_in_loop :: bool
  w_loop :: "conn_functor event_loop"
  w_os :: os
  w_conn :: tcp_connection
  w_calls :: "conn_call list"   \<comment> \<open>newest first\<close>
  w_accepted :: bytes           \<comment> \<open>what \<open>sendInLoop\<close> took over\<close>
  w_queued :: "conn_functor list"   \<comment> \<open>the functors ever queued, newest first\<close>

record conn_env =
  e_epoll :: env
  e_sock :: sock_env
  e_user :: "conn_call \<Rightarrow> world \<Rightarrow> conn_op list"

definition kEpollFlags :: mask where
  "kEpollFlags = EPOLLIN"

definition TCPConnection :: "sock_env \<Rightarrow> cb \<Rightarrow> socket \<Rightarrow> os \<Rightarrow> tcp_connection \<times> os" where
  "TCPConnection se c sk w =
     (\<lparr>c_cb = c, c_state = kConnecting, c_reading = True, c_socket = sk, c_write_complete = False,
       c_high_water = False, c_high_water_mark = 64 * 1024 * 1024, c_input = ByteBuffer kInitialSize,
       c_output = ByteBuffer kInitialSize, c_timer = None\<rparr>,
      snd (SetKeepAlive se True (sk, w)))"

definition conn_fd :: "world \<Rightarrow> fd" where
  "conn_fd W = s_fd (c_socket (w_conn W))"

definition conn_server :: "world \<Rightarrow> epoll_server" where
  "conn_server W = loop_server (w_loop W)"

definition setState :: "conn_state \<Rightarrow> world \<Rightarrow> world" where
  "setState st W = W\<lparr>w_conn := (w_conn W)\<lparr>c_state := st\<rparr>\<rparr>"

text \<open>Calls on the loop's server and on the loop.\<close>

definition srv :: "conn_env \<Rightarrow> server_op \<Rightarrow> world \<Rightarrow> world res" where
  "srv E op W = mapr (\<lambda>L. W\<lparr>w_loop := L\<rparr>) (on_server (exec_op (e_epoll E) op) (w_loop W))"

definition queue :: "conn_env \<Rightarrow> conn_functor \<Rightarrow> world \<Rightarrow> world res" where
  "queue E f W = mapr (\<lambda>L. W\<lparr>w_loop := L, w_queued := f # w_queued W\<rparr>) (QueueInLoop (e_epoll E) (w_in_loop W) f (w_loop W))"

text \<open>The setters. A callback is set or not; what it does is the business of \<open>e_user\<close>.\<close>

definition SetWriteCompleteCallback :: "bool \<Rightarrow> world \<Rightarrow> world" where
  "SetWriteCompleteCallback cb W = W\<lparr>w_conn := (w_conn W)\<lparr>c_write_complete := cb\<rparr>\<rparr>"

definition SetHighWaterMarkCallback :: "bool \<Rightarrow> int \<Rightarrow> world \<Rightarrow> world" where
  "SetHighWaterMarkCallback cb high_water_mark W =
     W\<lparr>w_conn := (w_conn W)\<lparr>c_high_water := cb, c_high_water_mark := high_water_mark\<rparr>\<rparr>"

definition Conn_SetTCPNoDelay :: "conn_env \<Rightarrow> world \<Rightarrow> world" where
  "Conn_SetTCPNoDelay E W = W\<lparr>w_os := snd (SetTCPNoDelay (e_sock E) (c_socket (w_conn W), w_os W))\<rparr>"

definition in_loop_thread :: "world \<Rightarrow> 'a res \<Rightarrow> 'a res" where
  "in_loop_thread W k = AssertInLoopThread (w_in_loop W) k"

definition sock_write :: "conn_env \<Rightarrow> bytes \<Rightarrow> world \<Rightarrow> (int \<times> world) res" where
  "sock_write E d W =
     mapr (\<lambda>(n, sk, w). (n, W\<lparr>w_conn := (w_conn W)\<lparr>c_socket := sk\<rparr>, w_os := w\<rparr>))
       (Socket_Write (e_sock E) d (c_socket (w_conn W), w_os W))"

definition writing :: "world \<Rightarrow> bool" where
  "writing W = HasRegisterWrite (conn_fd W) (conn_server W)"

section \<open>Sending\<close>

text \<open>The part of \<open>sendInLoop\<close> that stores what was not written.\<close>

definition store_rest :: "conn_env \<Rightarrow> bytes \<Rightarrow> world \<Rightarrow> world res" where
  "store_rest E rest W =
     (let old_len = ReadableBytes (c_output (w_conn W)); mark = c_high_water_mark (w_conn W)
      in bindr (if mark \<le> int (old_len + length rest) \<and> int old_len < mark \<and> c_high_water (w_conn W)
                then queue E (FHighWaterMark (old_len + length rest)) W else Inr W) (\<lambda>W1.
         bindr (Write rest (c_output (w_conn W1))) (\<lambda>b.
         let W2 = W1\<lparr>w_conn := (w_conn W1)\<lparr>c_output := b\<rparr>\<rparr>
         in if \<not> writing W2 then srv E (OpStartWrite (conn_fd W2)) W2 else Inr W2)))"

definition sendInLoop :: "conn_env \<Rightarrow> bytes \<Rightarrow> world \<Rightarrow> world res" where
  "sendInLoop E data W =
     in_loop_thread W
      (if c_state (w_conn W) = kDisconnected then Inr W
       else bindr (if \<not> writing W \<and> ReadableBytes (c_output (w_conn W)) = 0
                   then bindr (sock_write E data W) (\<lambda>(n, W1).
                     if 0 \<le> n
                     then guard AssertFailed (nat n \<le> length data)
                       (mapr (\<lambda>W2. (nat n, False, W2))
                         (if nat n = length data \<and> c_write_complete (w_conn W1)
                          then queue E FWriteComplete W1 else Inr W1))
                     else Inr (0, errno (w_os W1) \<noteq> EWOULDBLOCK \<and> errno (w_os W1) \<in> {EPIPE, ECONNRESET}, W1))
                   else Inr (0, False, W)) (\<lambda>(nwrote, fault_error, W1).
            if \<not> fault_error
            then let W2 = W1\<lparr>w_accepted := w_accepted W1 @ data\<rparr>; rest = drop nwrote data
                 in if rest \<noteq> [] then store_rest E rest W2 else Inr W2
            else Inr W1))"

definition Send :: "conn_env \<Rightarrow> bytes \<Rightarrow> world \<Rightarrow> world res" where
  "Send E message W =
     (if c_state (w_conn W) = kConnected
      then if w_in_loop W then sendInLoop E message W else queue E (FSendInLoop message) W
      else Inr W)"

text \<open>\<open>Send(std::string&&)\<close> goes through \<open>Send(const void*, int)\<close>: the size becomes an \<open>int\<close>, and that a
  \<open>size_t\<close> again.\<close>

definition Send_string :: "conn_env \<Rightarrow> bytes \<Rightarrow> world \<Rightarrow> world res" where
  "Send_string E message W =
     (let len = size_via_int (length message)
      in if c_state (w_conn W) = kConnected
         then guard InvalidAccess (len \<le> length message) (Send E (take len message) W)
         else Inr W)"

text \<open>\<open>Send(ByteBuffer*)\<close> empties the buffer.\<close>

definition Send_buffer :: "conn_env \<Rightarrow> byte_buffer \<Rightarrow> world \<Rightarrow> (byte_buffer \<times> world) res" where
  "Send_buffer E buf W =
     (if c_state (w_conn W) = kConnected
      then if w_in_loop W then mapr (Pair (SkipAll buf)) (sendInLoop E (content buf) W)
           else mapr (Pair (SkipAll buf)) (queue E (FSendInLoop (content buf)) W)
      else Inr (buf, W))"

section \<open>Closing\<close>

definition shutdownInLoop :: "conn_env \<Rightarrow> world \<Rightarrow> world res" where
  "shutdownInLoop E W =
     in_loop_thread W
      (if \<not> writing W
       then mapr (\<lambda>(sk, w). W\<lparr>w_conn := (w_conn W)\<lparr>c_socket := sk\<rparr>, w_os := w\<rparr>)
              (ShutdownWrite (e_sock E) (c_socket (w_conn W), w_os W))
       else Inr W)"

definition Shutdown :: "conn_env \<Rightarrow> world \<Rightarrow> world res" where
  "Shutdown E W =
     (if c_state (w_conn W) = kConnected
      then let W1 = setState kDisconnecting W
           in if w_in_loop W1 then shutdownInLoop E W1 else queue E FShutdownInLoop W1
      else Inr W)"

text \<open>The test and the assignment of \<open>ForceClose\<close>: two accesses to the same variable, which may be two steps of
  another thread.\<close>

definition ForceClose_test :: "world \<Rightarrow> bool" where
  "ForceClose_test W \<longleftrightarrow> c_state (w_conn W) = kConnected \<or> c_state (w_conn W) = kDisconnecting"

definition ForceClose_set :: "conn_env \<Rightarrow> world \<Rightarrow> world res" where
  "ForceClose_set E W = queue E FForceCloseInLoop (setState kDisconnecting W)"

definition ForceClose :: "conn_env \<Rightarrow> world \<Rightarrow> world res" where
  "ForceClose E W = (if ForceClose_test W then ForceClose_set E W else Inr W)"

text \<open>\<open>ac\<close> is the alarm object of the new timer; the old timer's destructor unregisters its alarm.\<close>

definition ForceCloseWithDelay :: "conn_env \<Rightarrow> alarm \<Rightarrow> int \<Rightarrow> world \<Rightarrow> world res" where
  "ForceCloseWithDelay E ac delay W =
     (if c_state (w_conn W) = kConnected \<or> c_state (w_conn W) = kDisconnecting
      then let W1 = setState kDisconnecting W
           in bindr (case c_timer (w_conn W1) of None \<Rightarrow> Inr W1
                     | Some old \<Rightarrow> srv E (OpUnregisterIfRegistered (epoll_timer_impl old)) W1) (\<lambda>W2.
              case NowInUsec (e_epoll E) (conn_server W2) of (now, s) \<Rightarrow>
              bindr (time_add now delay) (\<lambda>deadline.
              mapr (\<lambda>(tm, s'). W2\<lparr>w_conn := (w_conn W2)\<lparr>c_timer := Some tm\<rparr>, w_loop := (w_loop W2)\<lparr>loop_server := s'\<rparr>\<rparr>)
                (Timer_Update (e_epoll E) deadline (CreateTimer ac (Some 0)) s)))
      else Inr W)"

section \<open>Reading on and off\<close>

definition startReadInLoop :: "conn_env \<Rightarrow> world \<Rightarrow> world res" where
  "startReadInLoop E W =
     in_loop_thread W
      (if \<not> c_reading (w_conn W) \<or> \<not> HasRegisterRead (conn_fd W) (conn_server W)
       then mapr (\<lambda>W1. W1\<lparr>w_conn := (w_conn W1)\<lparr>c_reading := True\<rparr>\<rparr>) (srv E (OpStartRead (conn_fd W)) W)
       else Inr W)"

definition stopReadInLoop :: "conn_env \<Rightarrow> world \<Rightarrow> world res" where
  "stopReadInLoop E W =
     in_loop_thread W
      (if c_reading (w_conn W) \<or> HasRegisterRead (conn_fd W) (conn_server W)
       then mapr (\<lambda>W1. W1\<lparr>w_conn := (w_conn W1)\<lparr>c_reading := False\<rparr>\<rparr>) (srv E (OpStopRead (conn_fd W)) W)
       else Inr W)"

definition Conn_StartRead :: "conn_env \<Rightarrow> world \<Rightarrow> world res" where
  "Conn_StartRead E W = (if w_in_loop W then startReadInLoop E W else queue E FStartReadInLoop W)"

definition Conn_StopRead :: "conn_env \<Rightarrow> world \<Rightarrow> world res" where
  "Conn_StopRead E W = (if w_in_loop W then stopReadInLoop E W else queue E FStopReadInLoop W)"

section \<open>Callbacks\<close>

fun run_conn_op :: "conn_env \<Rightarrow> conn_op \<Rightarrow> world \<Rightarrow> world res" where
  "run_conn_op E (UserSend d) W = Send E d W"
| "run_conn_op E UserShutdown W = Shutdown E W"
| "run_conn_op E UserForceClose W = ForceClose E W"
| "run_conn_op E (UserForceCloseWithDelay ac d) W = ForceCloseWithDelay E ac d W"
| "run_conn_op E UserStartRead W = Conn_StartRead E W"
| "run_conn_op E UserStopRead W = Conn_StopRead E W"
| "run_conn_op E (UserSkip n) W =
     mapr (\<lambda>b. W\<lparr>w_conn := (w_conn W)\<lparr>c_input := b\<rparr>\<rparr>) (SkipReadBytes n (c_input (w_conn W)))"

definition user_call :: "conn_env \<Rightarrow> conn_call \<Rightarrow> world \<Rightarrow> world res" where
  "user_call E c W =
     (let W1 = W\<lparr>w_calls := c # w_calls W\<rparr> in fold_res (run_conn_op E) (e_user E c W1) W1)"

definition connection_callback :: "conn_env \<Rightarrow> world \<Rightarrow> world res" where
  "connection_callback E W = user_call E (OnConnection (c_state (w_conn W) = kConnected)) W"

section \<open>Events\<close>

definition handleError :: "conn_env \<Rightarrow> world \<Rightarrow> world" where
  "handleError E W = W\<lparr>w_os := snd (GetSocketError (e_sock E) (c_socket (w_conn W), w_os W))\<rparr>"

definition handleClose :: "conn_env \<Rightarrow> world \<Rightarrow> world res" where
  "handleClose E W =
     in_loop_thread W
      (guard AssertFailed (c_state (w_conn W) = kConnected \<or> c_state (w_conn W) = kDisconnecting)
        (bindr (srv E (OpUnregisterFD (conn_fd W)) (setState kDisconnected W)) (\<lambda>W1.
         bindr (connection_callback E W1) (\<lambda>W2.
         user_call E OnClose W2))))"

definition forceCloseInLoop :: "conn_env \<Rightarrow> world \<Rightarrow> world res" where
  "forceCloseInLoop E W =
     in_loop_thread W
      (if c_state (w_conn W) = kConnected \<or> c_state (w_conn W) = kDisconnecting then handleClose E W else Inr W)"

definition read_capacity :: "byte_buffer \<Rightarrow> nat" where
  "read_capacity b =
     (let writable = WritableBytes b in if writable < extrabuf_size then writable + extrabuf_size else writable)"

definition handleRead :: "conn_env \<Rightarrow> world \<Rightarrow> world res" where
  "handleRead E W =
     in_loop_thread W
      (let b = c_input (w_conn W);
           readv = (\<lambda>cap. let r = fst (syscall (e_sock E) (SockRead (conn_fd W) cap) (w_os W))
                          in if r_ret r < 0 then Inl (r_errno r) else Inr (r_data r));
           w1 = snd (syscall (e_sock E) (SockRead (conn_fd W) (read_capacity b)) (w_os W))
       in bindr (ReadFD readv b) (\<lambda>(n, b1).
          let W1 = W\<lparr>w_conn := (w_conn W)\<lparr>c_input := b1\<rparr>, w_os := w1\<rparr>
          in case n of
               Inl saved_errno \<Rightarrow> Inr (handleError E (W1\<lparr>w_os := w1\<lparr>errno := saved_errno\<rparr>\<rparr>))
             | Inr k \<Rightarrow> if 0 < k then user_call E OnMessage_call W1 else handleClose E W1))"

definition handleWrite :: "conn_env \<Rightarrow> world \<Rightarrow> world res" where
  "handleWrite E W =
     in_loop_thread W
      (if writing W
       then bindr (sock_write E (content (c_output (w_conn W))) W) (\<lambda>(n, W1).
            if 0 < n
            then bindr (SkipReadBytes (nat n) (c_output (w_conn W1))) (\<lambda>b.
                 let W2 = W1\<lparr>w_conn := (w_conn W1)\<lparr>c_output := b\<rparr>\<rparr>
                 in if ReadableBytes b = 0
                    then bindr (srv E (OpStopWrite (conn_fd W2)) W2) (\<lambda>W3.
                         bindr (if c_write_complete (w_conn W3) then queue E FWriteComplete W3 else Inr W3) (\<lambda>W4.
                         if c_state (w_conn W4) = kDisconnecting then shutdownInLoop E W4 else Inr W4))
                    else Inr W2)
            else Inr W1)
       else Inr W)"

definition Conn_OnEvent :: "conn_env \<Rightarrow> mask \<Rightarrow> world \<Rightarrow> world res" where
  "Conn_OnEvent E in_events W =
     in_loop_thread W
      (bindr (if in_events AND EPOLLIN \<noteq> 0 then handleRead E W else Inr W) (\<lambda>W1.
       bindr (if in_events AND EPOLLOUT \<noteq> 0 then handleWrite E W1 else Inr W1) (\<lambda>W2.
       Inr (if in_events AND EPOLLERR \<noteq> 0 then handleError E W2 else W2))))"

section \<open>Beginning and end\<close>

definition ConnectEstablished :: "conn_env \<Rightarrow> world \<Rightarrow> world res" where
  "ConnectEstablished E W =
     in_loop_thread W
      (guard AssertFailed (c_state (w_conn W) = kConnecting)
        (bindr (srv E (OpRegisterFD (conn_fd W) (c_cb (w_conn W)) kEpollFlags) (setState kConnected W))
          (connection_callback E)))"

definition ConnectDestroyed :: "conn_env \<Rightarrow> world \<Rightarrow> world res" where
  "ConnectDestroyed E W =
     in_loop_thread W
      (if c_state (w_conn W) = kConnected
       then bindr (srv E (OpUnregisterFD (conn_fd W)) (setState kDisconnected W)) (connection_callback E)
       else Inr W)"

text \<open>The destructor, which destroys the socket too.\<close>

definition TCPConnection_destroy :: "conn_env \<Rightarrow> world \<Rightarrow> world res" where
  "TCPConnection_destroy E W =
     guard AssertFailed (c_state (w_conn W) = kDisconnected)
       (Inr (case Close (e_sock E) (c_socket (w_conn W), w_os W) of (sk, w) \<Rightarrow>
          W\<lparr>w_conn := (w_conn W)\<lparr>c_socket := sk\<rparr>, w_os := w\<rparr>))"

text \<open>A functor, run by the loop.\<close>

fun run_functor :: "conn_env \<Rightarrow> conn_functor \<Rightarrow> world \<Rightarrow> world res" where
  "run_functor E (FSendInLoop d) W = sendInLoop E d W"
| "run_functor E FShutdownInLoop W = shutdownInLoop E W"
| "run_functor E FForceCloseInLoop W = forceCloseInLoop E W"
| "run_functor E FStartReadInLoop W = startReadInLoop E W"
| "run_functor E FStopReadInLoop W = stopReadInLoop E W"
| "run_functor E FWriteComplete W = user_call E OnWriteComplete W"
| "run_functor E (FHighWaterMark n) W = user_call E (OnHighWaterMark n) W"

end
