(* ===== verification/Conn_Inv.thy ===== *)
theory Conn_Inv
  imports TCP_Connection
begin

text \<open>
  The invariant of a connection, and that the operations of its users keep it: the bytes it took over are the bytes
  it sent followed by the bytes in its output buffer; the descriptor is registered as long as the connection is, and
  for writing as long as there is something to write.
\<close>

section \<open>The calls on the loop\<close>

text \<open>What a call on the server or the loop leaves alone.\<close>

definition same_conn :: "world \<Rightarrow> world \<Rightarrow> bool" where
  "same_conn W W' \<longleftrightarrow> w_conn W' = w_conn W \<and> w_os W' = w_os W \<and> w_calls W' = w_calls W \<and>
     w_accepted W' = w_accepted W \<and> w_in_loop W' = w_in_loop W"

abbreviation conn_regs :: "world \<Rightarrow> fd_regs" where
  "conn_regs W \<equiv> regs (conn_server W)"

lemma srv_law:
  assumes "srv_ok (conn_server W)" "srv E op W = Inr W'"
  shows "srv_ok (conn_server W')" "conn_regs W' = regs_after op (conn_regs W)" "same_conn W W'"
    "w_queued W' = w_queued W"
proof -
  obtain s where s: "exec_op (e_epoll E) op (conn_server W) = Inr s"
    and W': "W' = W\<lparr>w_loop := (w_loop W)\<lparr>loop_server := s\<rparr>\<rparr>"
    using assms(2) by (auto simp: srv_def on_server_def conn_server_def res_simps)
  then have c: "conn_server W' = s" by (simp add: conn_server_def)
  show "srv_ok (conn_server W')" "conn_regs W' = regs_after op (conn_regs W)"
    unfolding c by (rule registry.exec_reg [OF assms(1) s])+
  show "same_conn W W'" "w_queued W' = w_queued W" unfolding W' same_conn_def by simp_all
qed

lemma queue_law:
  assumes "srv_ok (conn_server W)" "queue E g W = Inr W'"
  shows "srv_ok (conn_server W')" "conn_regs W' = conn_regs W" "same_conn W W'" "w_queued W' = g # w_queued W"
proof -
  let ?L = "push_functor g (w_loop W)"
  obtain L where L: "QueueInLoop (e_epoll E) (w_in_loop W) g (w_loop W) = Inr L"
    and W': "W' = W\<lparr>w_loop := L, w_queued := g # w_queued W\<rparr>"
    using assms(2) by (auto simp: queue_def res_simps)
  have push: "loop_server ?L = conn_server W" by (simp add: push_functor_def conn_server_def)
  have "loop_server L = conn_server W \<or> exec_op (e_epoll E) OpWake (conn_server W) = Inr (loop_server L)"
    using L push by (auto simp: QueueInLoop_def on_server_def Let_def res_simps split: if_splits)
  then have "srv_ok (loop_server L) \<and> regs (loop_server L) = conn_regs W"
    using registry.exec_reg [OF assms(1)] assms(1) by fastforce
  moreover have "conn_server W' = loop_server L" by (simp add: W' conn_server_def)
  ultimately show "srv_ok (conn_server W')" "conn_regs W' = conn_regs W" by simp_all
  show "same_conn W W'" "w_queued W' = g # w_queued W" unfolding W' same_conn_def by simp_all
qed

lemma writing_law: "conn_regs W (conn_fd W) = Some (c, em) \<Longrightarrow> writing W \<longleftrightarrow> em AND EPOLLOUT \<noteq> 0"
  unfolding writing_def by (rule registry.has_write_law)


lemma sock_write_law:
  assumes "send_ok (e_sock E)" "sock_write E d W = Inr (n, W')"
  obtains (accepted) w where "0 \<le> n" "n \<le> int (length d)" "W' = W\<lparr>w_os := w\<rparr>"
      "sent (conn_fd W) (sys_trace w) = sent (conn_fd W) (sys_trace (w_os W)) @ take (nat n) d"
  | (failed) sk w where "n = -1" "W' = W\<lparr>w_conn := (w_conn W)\<lparr>c_socket := sk\<rparr>, w_os := w\<rparr>" "s_error sk"
proof -
  obtain sk w where wr: "Socket_Write (e_sock E) d (c_socket (w_conn W), w_os W) = Inr (n, sk, w)"
    and W': "W' = W\<lparr>w_conn := (w_conn W)\<lparr>c_socket := sk\<rparr>, w_os := w\<rparr>"
    using assms(2) by (auto simp: sock_write_def res_simps)
  from assms(1) wr show thesis
  proof (cases rule: Socket_Write_cases)
    case accepted
    have "W' = W\<lparr>w_os := w\<rparr>" using accepted(3) by (simp add: W')
    with accepted(1,2,4) show ?thesis by (intro that(1)) (simp_all add: conn_fd_def)
  next
    case failed
    then show ?thesis by (intro that(2) [OF _ W']) simp_all
  qed
qed

lemma Write_appends:
  assumes "buffer_inv b" "length d \<le> vector_max_size" "Write d b = Inr b'"
  shows "buffer_inv b'" "content b' = content b @ d"
proof -
  have "buffer_inv b' \<and> content b' = content b @ d"
  proof (cases "has_room (length d) b")
    case True
    with Write_ok [OF assms(1) this] assms(3) show ?thesis by simp
  next
    case False
    then have "\<not> length d \<le> WritableBytes b"
      using assms(1) by (auto simp: buffer_simps)
    with False assms(3) have move: "length d \<le> length (buffer b) - length (content b)"
      and b': "b' = b\<lparr>buffer := overwrite (length (content b)) d (overwrite 0 (content b) (buffer b)),
        reader_index := 0, writer_index := length (content b) + length d\<rparr>"
      using Write_eq [OF assms(1,2)] EnsureWritableBytes_eq [OF assms(1,2)]
      by (auto simp: has_room_def split: if_splits)
    have len: "length (content b) \<le> length (buffer b)" "length (buffer b) \<le> vector_max_size"
      using assms(1) by (auto simp: buffer_simps)
    define c where "c = content b"
    from move len b' [folded c_def] show ?thesis
      unfolding c_def [symmetric] by (auto simp: buffer_inv_def content_def range_of_def overwrite_def)
  qed
  then show "buffer_inv b'" "content b' = content b @ d" by simp_all
qed

section \<open>The invariant\<close>

text \<open>How the registration goes with the state and with the bytes in the output buffer.\<close>

fun link :: "conn_state \<Rightarrow> cb \<Rightarrow> (cb \<times> mask) option \<Rightarrow> bytes \<Rightarrow> bool" where
  "link kConnecting c r out \<longleftrightarrow> r = None \<and> out = []"
| "link kDisconnected c r out \<longleftrightarrow> r = None"
| "link _ c r out \<longleftrightarrow> (\<exists>em. r = Some (c, em) \<and> (em AND EPOLLOUT \<noteq> 0 \<longleftrightarrow> out \<noteq> []))"

abbreviation out_bytes :: "world \<Rightarrow> bytes" where
  "out_bytes W \<equiv> content (c_output (w_conn W))"

definition io_ok :: "fd \<Rightarrow> bytes \<Rightarrow> world \<Rightarrow> bool" where
  "io_ok f xs W \<longleftrightarrow> conn_fd W = f \<and>
     link (c_state (w_conn W)) (c_cb (w_conn W)) (conn_regs W f) (out_bytes W) \<and>
     w_accepted W = sent f (sys_trace (w_os W)) @ out_bytes W @ xs"

text \<open>A functor that sends has been queued by an established connection.\<close>

definition functors_ok :: "world \<Rightarrow> bool" where
  "functors_ok W \<longleftrightarrow>
     (\<forall>d. FSendInLoop d \<in> set (w_queued W) \<longrightarrow> c_state (w_conn W) \<noteq> kConnecting \<and> length d \<le> vector_max_size)"

text \<open>\<open>xs\<close> are bytes that the running operation still has to store. After an error the socket is closed, and
  only the first three parts remain.\<close>

definition conn_ok :: "fd \<Rightarrow> bytes \<Rightarrow> world \<Rightarrow> bool" where
  "conn_ok f xs W \<longleftrightarrow> srv_ok (conn_server W) \<and> buffer_inv (c_output (w_conn W)) \<and> functors_ok W \<and>
     (s_error (c_socket (w_conn W)) \<or> io_ok f xs W)"

text \<open>An operation that calls no callback, and closes nothing.\<close>

definition silent :: "world \<Rightarrow> world \<Rightarrow> bool" where
  "silent W W' \<longleftrightarrow> w_calls W' = w_calls W \<and> w_in_loop W' = w_in_loop W \<and>
     (c_state (w_conn W') = c_state (w_conn W) \<or>
      c_state (w_conn W) \<in> {kConnected, kDisconnecting} \<and> c_state (w_conn W') = kDisconnecting)"

lemma silent_refl [simp]: "silent W W"
  by (simp add: silent_def)

lemma silent_trans: "silent W W1 \<Longrightarrow> silent W1 W2 \<Longrightarrow> silent W W2"
  by (auto simp: silent_def)

lemma same_conn_silent: "same_conn W W' \<Longrightarrow> silent W W'"
  by (simp add: same_conn_def silent_def)

lemma same_conn_io:
  "same_conn W W' \<Longrightarrow> conn_regs W' f = conn_regs W f \<Longrightarrow> io_ok f xs W' = io_ok f xs W"
  by (simp add: same_conn_def io_ok_def conn_fd_def)

lemma conn_ok_queue:
  assumes "conn_ok f xs W" "queue E g W = Inr W'"
    and "\<And>d. g = FSendInLoop d \<Longrightarrow> c_state (w_conn W) \<noteq> kConnecting \<and> length d \<le> vector_max_size"
  shows "conn_ok f xs W'" "same_conn W W'" "conn_regs W' = conn_regs W"
proof -
  note q = queue_law [OF _ assms(2)]
  have W: "srv_ok (conn_server W)" using assms(1) by (simp add: conn_ok_def)
  show s: "same_conn W W'" "conn_regs W' = conn_regs W" using q [OF W] by simp_all
  have "functors_ok W'" using assms(1,3) q(4) [OF W] s by (auto simp: conn_ok_def functors_ok_def same_conn_def)
  then show "conn_ok f xs W'"
    using assms(1) q(1) [OF W] s same_conn_io [OF s(1)] by (simp add: conn_ok_def same_conn_def)
qed

lemma conn_ok_srv:
  assumes "conn_ok f xs W" "srv E op W = Inr W'"
    and "io_ok f xs W \<Longrightarrow> link (c_state (w_conn W)) (c_cb (w_conn W)) (regs_after op (conn_regs W) f) (out_bytes W)"
  shows "conn_ok f xs W'" "same_conn W W'"
proof -
  have W: "srv_ok (conn_server W)" using assms(1) by (simp add: conn_ok_def)
  note s = srv_law [OF W assms(2)]
  show "same_conn W W'" by (rule s)
  have "functors_ok W'" using assms(1) s(3,4) by (simp add: conn_ok_def functors_ok_def same_conn_def)
  moreover have "io_ok f xs W'" if "io_ok f xs W"
    using that assms(3) [OF that] s(2,3) by (simp add: io_ok_def same_conn_def conn_fd_def)
  ultimately show "conn_ok f xs W'" using assms(1) s(1,3) by (auto simp: conn_ok_def same_conn_def)
qed

section \<open>Sending\<close>

lemma with_out_mask [simp]: "EPOLLOUT \<noteq> 0" "(em OR EPOLLOUT) AND EPOLLOUT \<noteq> 0" "(em AND NOT EPOLLOUT) AND EPOLLOUT = 0"
  for em :: mask
proof -
  show "EPOLLOUT \<noteq> 0" by (simp add: EPOLLOUT_def)
  show "(em OR EPOLLOUT) AND EPOLLOUT \<noteq> 0"
    by (simp add: EPOLLOUT_def word_bw_comms bit.conj_disj_distrib)
  show "(em AND NOT EPOLLOUT) AND EPOLLOUT = 0" by (simp add: and.assoc)
qed

lemma link_start_write:
  assumes "link st c (r f) out" "st \<in> {kConnected, kDisconnecting}"
  shows "\<exists>em. regs_after (OpStartWrite f) r f = Some (c, em) \<and> em AND EPOLLOUT \<noteq> 0"
  using assms by (auto simp: change_mask_def)

lemma store_rest_ok:
  assumes W: "conn_ok f rest W" and rest: "rest \<noteq> []" "length rest \<le> vector_max_size"
    and st: "c_state (w_conn W) \<in> {kConnected, kDisconnecting}" and run: "store_rest E rest W = Inr W'"
  shows "conn_ok f [] W' \<and> silent W W'"
proof -
  let ?step = "\<lambda>W1. if c_high_water_mark (w_conn W) \<le> int (ReadableBytes (c_output (w_conn W)) + length rest) \<and>
      int (ReadableBytes (c_output (w_conn W))) < c_high_water_mark (w_conn W) \<and> c_high_water (w_conn W)
    then queue E (FHighWaterMark (ReadableBytes (c_output (w_conn W)) + length rest)) W = Inr W1 else W1 = W"
  obtain W1 b where step: "?step W1" and b: "Write rest (c_output (w_conn W1)) = Inr b"
    and fin: "let W2 = W1\<lparr>w_conn := (w_conn W1)\<lparr>c_output := b\<rparr>\<rparr>
      in (if \<not> writing W2 then srv E (OpStartWrite (conn_fd W2)) W2 else Inr W2) = Inr W'"
    using run by (auto simp: store_rest_def Let_def res_simps split: if_splits)
  have W1: "conn_ok f rest W1" and same1: "same_conn W W1"
    using step conn_ok_queue [OF W, of E _ W1] W by (auto simp: same_conn_def split: if_splits)
  define W2 where "W2 = W1\<lparr>w_conn := (w_conn W1)\<lparr>c_output := b\<rparr>\<rparr>"
  have b': "buffer_inv b" "content b = out_bytes W1 @ rest"
    using Write_appends [OF _ rest(2) b] W1 by (simp_all add: conn_ok_def)
  have W2: "srv_ok (conn_server W2)" "buffer_inv (c_output (w_conn W2))" "functors_ok W2" "conn_regs W2 = conn_regs W1"
    using W1 b' by (simp_all add: W2_def conn_ok_def conn_server_def functors_ok_def)
  have st2: "c_state (w_conn W2) \<in> {kConnected, kDisconnecting}" and q2: "silent W W2"
    using st same1 by (auto simp: W2_def same_conn_def silent_def)
  let ?pre = "s_error (c_socket (w_conn W2)) \<or> conn_fd W2 = f \<and>
     link (c_state (w_conn W2)) (c_cb (w_conn W2)) (conn_regs W2 f) (out_bytes W1) \<and>
     w_accepted W2 = sent f (sys_trace (w_os W2)) @ out_bytes W2"
  have pre: "?pre"
    using W1 b' by (auto simp: conn_ok_def io_ok_def W2_def conn_server_def conn_fd_def)
  show ?thesis
  proof (cases "writing W2")
    case True
    then have "W' = W2" using fin by (simp add: W2_def Let_def)
    moreover have "io_ok f [] W2" if "\<not> s_error (c_socket (w_conn W2))"
      using that pre True st2 writing_law [of W2] rest(1) b'(2) by (auto simp: io_ok_def W2_def)
    ultimately show ?thesis using W2 q2 by (auto simp: conn_ok_def)
  next
    case False
    then have s: "srv E (OpStartWrite (conn_fd W2)) W2 = Inr W'" using fin by (simp add: W2_def Let_def)
    note law = srv_law [OF W2(1) s]
    have "io_ok f [] W'" if "\<not> s_error (c_socket (w_conn W2))"
      using that pre law(2,3) link_start_write [OF _ st2, of "c_cb (w_conn W2)" "conn_regs W2" f "out_bytes W1"]
        st2 rest(1) b'(2) by (auto simp: io_ok_def same_conn_def conn_fd_def W2_def)
    then show ?thesis using W2 law q2 same_conn_silent [OF law(3)] silent_trans [of W W2 W']
      by (auto simp: conn_ok_def same_conn_def functors_ok_def)
  qed
qed

text \<open>The direct write of \<open>sendInLoop\<close>.\<close>

lemma direct_write_ok:
  assumes W: "conn_ok f [] W" and env: "send_ok (e_sock E)" and empty: "ReadableBytes (c_output (w_conn W)) = 0"
    and wr: "sock_write E d W = Inr (n, W1)"
  shows "silent W W1" "c_state (w_conn W1) = c_state (w_conn W)"
    "conn_ok f (drop (nat n) d) (W1\<lparr>w_accepted := w_accepted W1 @ d\<rparr>)" "nat n \<le> length d"
    "n < 0 \<Longrightarrow> s_error (c_socket (w_conn W1))"
proof -
  let ?W2 = "W1\<lparr>w_accepted := w_accepted W1 @ d\<rparr>"
  have "length (out_bytes W) = 0" using W empty by (simp add: conn_ok_def)
  then have out: "out_bytes W = []" by simp
  have "silent W W1 \<and> c_state (w_conn W1) = c_state (w_conn W) \<and> conn_ok f (drop (nat n) d) ?W2 \<and> nat n \<le> length d \<and>
    (n < 0 \<longrightarrow> s_error (c_socket (w_conn W1)))"
    using env wr
  proof (cases rule: sock_write_law)
    case (accepted w)
    have "io_ok f (drop (nat n) d) ?W2" if "io_ok f [] W"
      using that accepted(4) out unfolding accepted(3) by (simp add: io_ok_def conn_fd_def conn_server_def)
    with accepted W show ?thesis by (auto simp: conn_ok_def silent_def conn_server_def functors_ok_def)
  next
    case (failed sk w)
    with W show ?thesis by (simp add: conn_ok_def silent_def conn_server_def functors_ok_def)
  qed
  then show "silent W W1" "c_state (w_conn W1) = c_state (w_conn W)" "conn_ok f (drop (nat n) d) ?W2"
    "nat n \<le> length d" "n < 0 \<Longrightarrow> s_error (c_socket (w_conn W1))" by simp_all
qed

lemma conn_ok_accept:
  assumes "queue E g W = Inr W'" "conn_ok f xs (W\<lparr>w_accepted := a\<rparr>)" "\<And>d. g \<noteq> FSendInLoop d"
  shows "conn_ok f xs (W'\<lparr>w_accepted := a\<rparr>)" "same_conn W W'"
proof -
  have "srv_ok (conn_server W)" using assms(2) by (simp add: conn_ok_def conn_server_def)
  note q = queue_law [OF this assms(1)]
  have "queue E g (W\<lparr>w_accepted := a\<rparr>) = Inr (W'\<lparr>w_accepted := a\<rparr>)"
    using assms(1) by (auto simp: queue_def res_simps)
  from conn_ok_queue(1) [OF assms(2) this] assms(3) show "conn_ok f xs (W'\<lparr>w_accepted := a\<rparr>)" by blast
  show "same_conn W W'" by (rule q)
qed

definition send_rest :: "conn_env \<Rightarrow> nat \<Rightarrow> bytes \<Rightarrow> world \<Rightarrow> world res" where
  "send_rest E k d V =
     (if drop k d \<noteq> [] then store_rest E (drop k d) (V\<lparr>w_accepted := w_accepted V @ d\<rparr>)
      else Inr (V\<lparr>w_accepted := w_accepted V @ d\<rparr>))"

lemma sendInLoop_cases:
  assumes run: "sendInLoop E d W = Inr W'"
  obtains (down) "c_state (w_conn W) = kDisconnected" "W' = W"
  | (behind) "c_state (w_conn W) \<noteq> kDisconnected" "send_rest E 0 d W = Inr W'"
  | (written) n W1 V where "c_state (w_conn W) \<noteq> kDisconnected" "ReadableBytes (c_output (w_conn W)) = 0"
      "sock_write E d W = Inr (n, W1)" "V = W1 \<or> queue E FWriteComplete W1 = Inr V" "send_rest E (nat n) d V = Inr W'"
  | (failed) n where "c_state (w_conn W) \<noteq> kDisconnected" "ReadableBytes (c_output (w_conn W)) = 0"
      "sock_write E d W = Inr (n, W')" "n < 0" "errno (w_os W') \<in> {EPIPE, ECONNRESET}"
proof (cases "c_state (w_conn W) = kDisconnected \<or> writing W \<or> ReadableBytes (c_output (w_conn W)) \<noteq> 0")
  case True
  then show ?thesis
    using run that(1,2)
    by (auto simp: sendInLoop_def send_rest_def in_loop_thread_def AssertInLoopThread_def Let_def res_simps
        split: if_splits)
next
  case False
  then have c: "\<not> writing W \<and> ReadableBytes (c_output (w_conn W)) = 0" "c_state (w_conn W) \<noteq> kDisconnected" by auto
  let ?pre = "\<lambda>n W1. if 0 \<le> n
         then guard AssertFailed (nat n \<le> length d)
           (mapr (\<lambda>W2. (nat n, False, W2))
             (if nat n = length d \<and> c_write_complete (w_conn W1) then queue E FWriteComplete W1 else Inr W1))
         else Inr (0, errno (w_os W1) \<noteq> EWOULDBLOCK \<and> errno (w_os W1) \<in> {EPIPE, ECONNRESET}, W1)"
  have "\<exists>n W1 k fe V. sock_write E d W = Inr (n, W1) \<and> ?pre n W1 = Inr (k, fe, V) \<and>
      (if \<not> fe then send_rest E k d V = Inr W' else W' = V)"
    using run c
    unfolding sendInLoop_def send_rest_def in_loop_thread_def AssertInLoopThread_def Let_def
    apply (simp only: bindr_eq_Inr guard_eq_Inr split_paired_Ex if_True if_False prod.case simp_thms)
    apply (elim exE conjE)
    apply (intro exI conjI, assumption+)
    apply (simp split: if_splits)
    done
  then obtain n W1 k fe V where wr: "sock_write E d W = Inr (n, W1)" and pre: "?pre n W1 = Inr (k, fe, V)"
    and fin: "if \<not> fe then send_rest E k d V = Inr W' else W' = V" by blast
  show ?thesis
  proof (cases "\<not> fe")
    case True
    have "k = nat n \<and> (V = W1 \<or> queue E FWriteComplete W1 = Inr V)"
      using pre by (auto simp: res_simps split: if_splits)
    with True fin c wr show ?thesis by (intro that(3) [of n W1 V]) simp_all
  next
    case False
    then have "V = W1 \<and> n < 0 \<and> errno (w_os W1) \<in> {EPIPE, ECONNRESET}" using pre by (auto simp: res_simps split: if_splits)
    with False fin c wr show ?thesis by (intro that(4) [of n]) simp_all
  qed
qed

lemma send_rest_ok:
  assumes ok: "conn_ok f (drop k d) (V\<lparr>w_accepted := w_accepted V @ d\<rparr>)" and d: "length d \<le> vector_max_size"
    and st: "c_state (w_conn V) \<in> {kConnected, kDisconnecting}" and run: "send_rest E k d V = Inr W'"
  shows "conn_ok f [] W' \<and> silent V W'"
proof (cases "drop k d = []")
  case True
  then have W': "W' = V\<lparr>w_accepted := w_accepted V @ d\<rparr>" using run by (auto simp: send_rest_def split: if_splits)
  show ?thesis using ok unfolding W' True by (simp add: silent_def)
next
  case False
  then have s: "store_rest E (drop k d) (V\<lparr>w_accepted := w_accepted V @ d\<rparr>) = Inr W'"
    using run by (simp add: send_rest_def)
  have "length (drop k d) \<le> vector_max_size" using d by simp
  from store_rest_ok [OF ok False this _ s] st show ?thesis by (simp add: silent_def)
qed

lemma sendInLoop_ok:
  assumes W: "conn_ok f [] W" and env: "send_ok (e_sock E)" and d: "length d \<le> vector_max_size"
    and st: "c_state (w_conn W) \<noteq> kConnecting" and run: "sendInLoop E d W = Inr W'"
  shows "conn_ok f [] W' \<and> silent W W'"
proof -
  have st': "c_state (w_conn W) \<in> {kConnected, kDisconnecting}" if "c_state (w_conn W) \<noteq> kDisconnected"
    using st that by (cases "c_state (w_conn W)") auto
  from run show ?thesis
  proof (cases rule: sendInLoop_cases)
    case down
    then show ?thesis using W by simp
  next
    case behind
    have "conn_ok f (drop 0 d) (W\<lparr>w_accepted := w_accepted W @ d\<rparr>)"
      using W by (auto simp: conn_ok_def io_ok_def conn_server_def conn_fd_def functors_ok_def)
    then show ?thesis by (rule send_rest_ok [OF _ d st' [OF behind(1)] behind(2)])
  next
    case (written n W1 V)
    note dw = direct_write_ok [OF W env written(2,3)]
    have V: "conn_ok f (drop (nat n) d) (V\<lparr>w_accepted := w_accepted V @ d\<rparr>)" "same_conn W1 V"
      using written(4) dw(3) conn_ok_accept [OF _ dw(3), of E FWriteComplete V] by (auto simp: same_conn_def)
    then have "c_state (w_conn V) \<in> {kConnected, kDisconnecting}"
      using st' [OF written(1)] dw(2) by (simp add: same_conn_def)
    from send_rest_ok [OF V(1) d this written(5)] dw(1) same_conn_silent [OF V(2)] show ?thesis
      using silent_trans by blast
  next
    case (failed n)
    from direct_write_ok [OF W env failed(2,3)] failed(4) show ?thesis
      by (simp add: conn_ok_def conn_server_def functors_ok_def)
  qed
qed

section \<open>The user's operations\<close>

text \<open>The part of the world that the invariant is about.\<close>

definition conn_view ::
  "world \<Rightarrow> epoll_server \<times> conn_functor list \<times> byte_buffer \<times> conn_state \<times> cb \<times> socket \<times> bytes \<times> (fd \<Rightarrow> bytes)" where
  "conn_view W = (conn_server W, w_queued W, c_output (w_conn W), c_state (w_conn W), c_cb (w_conn W),
     c_socket (w_conn W), w_accepted W, \<lambda>f. sent f (sys_trace (w_os W)))"

lemma conn_ok_view: "conn_view W' = conn_view W \<Longrightarrow> conn_ok f xs W' = conn_ok f xs W"
  by (auto simp: conn_view_def conn_ok_def io_ok_def functors_ok_def conn_fd_def fun_eq_iff)

lemma sent_PRESERVE:
  assumes "PRESERVE_ERRNO_HANDLE_EINTR se c w = Inr w'" "\<And>g d. c \<noteq> SockSend g d"
  shows "sent f (sys_trace w') = sent f (sys_trace w)"
proof -
  obtain n r w1 where h: "HANDLE_EINTR se c w = Inr (n, r, w1)" and w': "sys_trace w' = sys_trace w1"
    using assms(1) by (auto simp: PRESERVE_ERRNO_HANDLE_EINTR_def res_simps Let_def split: if_splits)
  from h obtain pre where "sys_trace w1 = (c, r) # pre @ sys_trace w" "interrupted c pre"
    by (rule HANDLE_EINTR_trace)
  then show ?thesis using w' assms(2) by (simp add: sent_other sent_interrupted)
qed

lemma shutdownInLoop_view:
  assumes "shutdownInLoop E W = Inr W'"
  shows "conn_view W' = conn_view W" "silent W W'"
proof -
  have *: "conn_view W' = conn_view W \<and> silent W W'"
  proof (cases "writing W")
    case True
    then show ?thesis
      using assms by (auto simp: shutdownInLoop_def in_loop_thread_def AssertInLoopThread_def res_simps)
  next
    case False
    then obtain sk w where sw: "ShutdownWrite (e_sock E) (c_socket (w_conn W), w_os W) = Inr (sk, w)"
      and W': "W' = W\<lparr>w_conn := (w_conn W)\<lparr>c_socket := sk\<rparr>, w_os := w\<rparr>"
      using assms by (auto simp: shutdownInLoop_def in_loop_thread_def AssertInLoopThread_def res_simps)
    have "sk = c_socket (w_conn W) \<and> sent g (sys_trace w) = sent g (sys_trace (w_os W))" for g
      using sw sent_PRESERVE [of "e_sock E" _ "w_os W" w g] by (auto simp: ShutdownWrite_def res_simps split: if_splits)
    then show ?thesis unfolding W' by (auto simp: conn_view_def conn_server_def silent_def)
  qed
  then show "conn_view W' = conn_view W" "silent W W'" by simp_all
qed

lemma setState_ok:
  assumes "conn_ok f xs W" "c_state (w_conn W) \<in> {kConnected, kDisconnecting}"
  shows "conn_ok f xs (setState kDisconnecting W)" "silent W (setState kDisconnecting W)"
  using assms by (auto simp: conn_ok_def io_ok_def functors_ok_def setState_def conn_fd_def conn_server_def silent_def)

lemma in_mask [simp]:
  "(em OR EPOLLIN) AND EPOLLOUT = em AND EPOLLOUT" "(em AND NOT EPOLLIN) AND EPOLLOUT = em AND EPOLLOUT" for em :: mask
proof -
  have "EPOLLIN AND EPOLLOUT = (0 :: mask)" "NOT EPOLLIN AND EPOLLOUT = (EPOLLOUT :: mask)"
    by (simp_all add: EPOLLIN_def EPOLLOUT_def)
  then show "(em OR EPOLLIN) AND EPOLLOUT = em AND EPOLLOUT" "(em AND NOT EPOLLIN) AND EPOLLOUT = em AND EPOLLOUT"
    by (simp_all add: and.assoc bit.conj_disj_distrib2)
qed

lemma read_mask_ok:
  assumes W: "conn_ok f xs W" and op: "op = OpStartRead g \<or> op = OpStopRead g"
    and run: "mapr (\<lambda>W1. W1\<lparr>w_conn := (w_conn W1)\<lparr>c_reading := v\<rparr>\<rparr>) (srv E op W) = Inr W'"
  shows "conn_ok f xs W' \<and> silent W W'"
proof -
  obtain W1 where s: "srv E op W = Inr W1" and W': "W' = W1\<lparr>w_conn := (w_conn W1)\<lparr>c_reading := v\<rparr>\<rparr>"
    using run by (auto simp: res_simps)
  have "link st c (regs_after op r f) out" if "link st c (r f) out" for st c r out
    using that op by (cases st) (auto simp: change_mask_def split: option.splits)
  then have "conn_ok f xs W1" "same_conn W W1"
    using conn_ok_srv [OF W s] by (auto simp: io_ok_def)
  moreover have "conn_view W' = conn_view W1" unfolding W' by (simp add: conn_view_def conn_server_def)
  ultimately show ?thesis using conn_ok_view [of W' W1] by (auto simp: silent_def same_conn_def W')
qed

text \<open>The clock and the timers leave the registrations alone.\<close>

definition keeps_regs :: "epoll_server \<Rightarrow> epoll_server \<Rightarrow> bool" where
  "keeps_regs s s' \<longleftrightarrow> (srv_ok s \<longrightarrow> srv_ok s' \<and> regs s' = regs s)"

lemma keeps_regs_refl [simp]: "keeps_regs s s"
  by (simp add: keeps_regs_def)

lemma keeps_regs_trans: "keeps_regs s s1 \<Longrightarrow> keeps_regs s1 s2 \<Longrightarrow> keeps_regs s s2"
  by (auto simp: keeps_regs_def)

lemma NowInUsec_regs: "keeps_regs s (snd (NowInUsec env s))"
proof -
  have "safety.good U K T (snd (NowInUsec env s))" if "safety.good U K T s" for U K T
    using alarm_inv_part [of "snd (NowInUsec env s)" s K] that
    by (intro safety.good_quiet [OF that]) (auto simp: NowInUsec_def Let_def safety.good_def server_inv_def)
  then have "srv_ok s \<Longrightarrow> srv_ok (snd (NowInUsec env s))" unfolding srv_ok_def by blast
  then show ?thesis by (simp add: keeps_regs_def NowInUsec_def regs_def Let_def fun_eq_iff)
qed

lemma alarm_op_regs:
  assumes "exec_op env op s = Inr s'" "\<And>r. regs_after op r = r"
  shows "keeps_regs s s'"
  using registry.exec_reg [OF _ assms(1)] assms(2) by (simp add: keeps_regs_def)

lemma setImpl_regs: "setImpl env tm s = Inr s' \<Longrightarrow> keeps_regs s s'"
  using alarm_op_regs [of env "OpRegisterAlarm t (epoll_timer_impl tm)" s s' for t]
  by (auto simp: setImpl_def dcheck_def res_simps split: if_splits)

lemma cancelImpl_regs: "cancelImpl env tm s = Inr s' \<Longrightarrow> keeps_regs s s'"
  using alarm_op_regs [of env "OpUnregisterIfRegistered (epoll_timer_impl tm)" s s']
  by (auto simp: cancelImpl_def dcheck_def res_simps split: if_splits)

lemma Timer_Update_regs: "Timer_Update env dl tm s = Inr (tm', s') \<Longrightarrow> keeps_regs s s'"
  by (auto simp: Timer_Update_def Timer_Cancel_def updateImpl_def Let_def res_simps
      dest!: setImpl_regs cancelImpl_regs intro: keeps_regs_trans split: if_splits)

lemma conn_ok_regs:
  assumes "conn_ok f xs W" "keeps_regs (conn_server W) (conn_server W')" "same_conn (W\<lparr>w_conn := w_conn W'\<rparr>) W'"
    "w_queued W' = w_queued W" "w_conn W' = (w_conn W)\<lparr>c_timer := tm\<rparr>"
  shows "conn_ok f xs W'" "silent W W'"
  using assms by (auto simp: conn_ok_def io_ok_def keeps_regs_def same_conn_def conn_fd_def functors_ok_def silent_def)

lemma ForceCloseWithDelay_ok:
  assumes W: "conn_ok f xs W" and run: "ForceCloseWithDelay E ac d W = Inr W'"
  shows "conn_ok f xs W' \<and> silent W W'"
proof (cases "c_state (w_conn W) \<in> {kConnected, kDisconnecting}")
  case True
  define W1 where "W1 = setState kDisconnecting W"
  have W1: "conn_ok f xs W1" "silent W W1" unfolding W1_def by (rule setState_ok [OF W True])+
  obtain W2 tm s' dl where old: "(case c_timer (w_conn W1) of None \<Rightarrow> Inr W1
       | Some old \<Rightarrow> srv E (OpUnregisterIfRegistered (epoll_timer_impl old)) W1) = Inr W2"
    and up: "Timer_Update (e_epoll E) dl (CreateTimer ac (Some 0)) (snd (NowInUsec (e_epoll E) (conn_server W2))) = Inr (tm, s')"
    and W': "W' = W2\<lparr>w_conn := (w_conn W2)\<lparr>c_timer := Some tm\<rparr>, w_loop := (w_loop W2)\<lparr>loop_server := s'\<rparr>\<rparr>"
    using run True unfolding ForceCloseWithDelay_def Let_def W1_def [symmetric]
    by (auto simp: res_simps case_prod_beta)
  have W2: "conn_ok f xs W2 \<and> same_conn W1 W2"
  proof (cases "c_timer (w_conn W1)")
    case None
    then show ?thesis using old W1(1) by (simp add: same_conn_def)
  next
    case (Some tm1)
    then have "srv E (OpUnregisterIfRegistered (epoll_timer_impl tm1)) W1 = Inr W2" using old by simp
    from conn_ok_srv [OF W1(1) this] show ?thesis by (simp add: io_ok_def)
  qed
  have "keeps_regs (conn_server W2) s'"
    using keeps_regs_trans [OF NowInUsec_regs Timer_Update_regs [OF up]] .
  then have "conn_ok f xs W'" "silent W2 W'"
    using conn_ok_regs [of f xs W2 W' "Some tm"] W2 by (simp_all add: W' conn_server_def same_conn_def)
  then show ?thesis using W1(2) W2 same_conn_silent silent_trans by blast
qed (use run W in \<open>auto simp: ForceCloseWithDelay_def\<close>)

text \<open>What is sent is a \<open>std::string\<close> or the content of a \<open>ByteBuffer\<close>.\<close>

fun op_ok :: "conn_op \<Rightarrow> bool" where
  "op_ok (UserSend d) \<longleftrightarrow> length d \<le> vector_max_size"
| "op_ok _ \<longleftrightarrow> True"

lemma Send_ok:
  assumes W: "conn_ok f [] W" and env: "send_ok (e_sock E)" and d: "length d \<le> vector_max_size"
    and run: "Send E d W = Inr W'"
  shows "conn_ok f [] W' \<and> silent W W'"
proof (cases "c_state (w_conn W) = kConnected")
  case True
  show ?thesis
  proof (cases "w_in_loop W")
    case in_loop: True
    then show ?thesis using sendInLoop_ok [OF W env d, of W'] run True by (simp add: Send_def)
  next
    case False
    then have "queue E (FSendInLoop d) W = Inr W'" using run True by (simp add: Send_def)
    from conn_ok_queue [OF W this] d True show ?thesis by (auto intro: same_conn_silent)
  qed
qed (use W run in \<open>auto simp: Send_def\<close>)

lemma Shutdown_ok:
  assumes W: "conn_ok f xs W" and run: "Shutdown E W = Inr W'"
  shows "conn_ok f xs W' \<and> silent W W'"
proof (cases "c_state (w_conn W) = kConnected")
  case True
  define W1 where "W1 = setState kDisconnecting W"
  have W1: "conn_ok f xs W1" "silent W W1" unfolding W1_def using setState_ok [OF W] True by simp_all
  have "shutdownInLoop E W1 = Inr W' \<or> queue E FShutdownInLoop W1 = Inr W'"
    using run True by (auto simp: Shutdown_def W1_def Let_def split: if_splits)
  then have "conn_ok f xs W' \<and> silent W1 W'"
    using W1(1) conn_ok_queue [OF W1(1)] conn_ok_view [of W' W1] shutdownInLoop_view [of E W1 W'] same_conn_silent
    by blast
  then show ?thesis using W1(2) silent_trans by blast
qed (use W run in \<open>auto simp: Shutdown_def\<close>)

lemma ForceClose_ok:
  assumes W: "conn_ok f xs W" and run: "ForceClose E W = Inr W'"
  shows "conn_ok f xs W' \<and> silent W W'"
proof (cases "c_state (w_conn W) \<in> {kConnected, kDisconnecting}")
  case True
  note W1 = setState_ok [OF W True]
  have "queue E FForceCloseInLoop (setState kDisconnecting W) = Inr W'"
    using run True by (auto simp: ForceClose_def ForceClose_test_def ForceClose_set_def)
  from conn_ok_queue [OF W1(1) this] W1(2) show ?thesis using same_conn_silent silent_trans by blast
qed (use W run in \<open>auto simp: ForceClose_def ForceClose_test_def\<close>)

lemma readInLoop_ok:
  assumes W: "conn_ok f xs W" and run: "startReadInLoop E W = Inr W' \<or> stopReadInLoop E W = Inr W'"
  shows "conn_ok f xs W' \<and> silent W W'"
proof -
  have "W' = W \<or> (\<exists>op v. (op = OpStartRead (conn_fd W) \<or> op = OpStopRead (conn_fd W)) \<and>
      mapr (\<lambda>W1. W1\<lparr>w_conn := (w_conn W1)\<lparr>c_reading := v\<rparr>\<rparr>) (srv E op W) = Inr W')"
    using run by (auto simp: startReadInLoop_def stopReadInLoop_def in_loop_thread_def AssertInLoopThread_def
        guard_eq_Inr split: if_splits)
  then show ?thesis using read_mask_ok [OF W] W silent_refl by blast
qed

lemma run_conn_op_ok:
  assumes W: "conn_ok f [] W" and env: "send_ok (e_sock E)" and op: "op_ok op" and run: "run_conn_op E op W = Inr W'"
  shows "conn_ok f [] W' \<and> silent W W'"
proof (cases op)
  case (UserSkip n)
  then obtain b where "W' = W\<lparr>w_conn := (w_conn W)\<lparr>c_input := b\<rparr>\<rparr>" using run by (auto simp: res_simps)
  then have "conn_view W' = conn_view W" "silent W W'"
    by (simp_all add: conn_view_def conn_server_def silent_def)
  then show ?thesis using conn_ok_view W by blast
next
  case UserStartRead
  then have "startReadInLoop E W = Inr W' \<or> queue E FStartReadInLoop W = Inr W'"
    using run by (auto simp: Conn_StartRead_def split: if_splits)
  then show ?thesis using readInLoop_ok [OF W] conn_ok_queue [OF W] same_conn_silent by blast
next
  case UserStopRead
  then have "stopReadInLoop E W = Inr W' \<or> queue E FStopReadInLoop W = Inr W'"
    using run by (auto simp: Conn_StopRead_def split: if_splits)
  then show ?thesis using readInLoop_ok [OF W] conn_ok_queue [OF W] same_conn_silent by blast
qed (use run op Send_ok [OF W env] Shutdown_ok [OF W] ForceClose_ok [OF W] ForceCloseWithDelay_ok [OF W] in simp_all)

end
