(* ===== verification/Conn_Correct.thy ===== *)
theory Conn_Correct
  imports Conn_Inv
begin

text \<open>
  What a connection promises, for every interleaving of its events, its functors, the calls of its users in the
  loop's and in other threads, and the activity of the rest of the program.
\<close>

section \<open>Callbacks and the life of a connection\<close>

definition conn_env_ok :: "conn_env \<Rightarrow> bool" where
  "conn_env_ok E \<longleftrightarrow> send_ok (e_sock E) \<and> (\<forall>c W. list_all op_ok (e_user E c W))"

fun is_phase :: "conn_call \<Rightarrow> bool" where
  "is_phase (OnConnection _) \<longleftrightarrow> True"
| "is_phase OnClose \<longleftrightarrow> True"
| "is_phase _ \<longleftrightarrow> False"

definition phases :: "world \<Rightarrow> conn_call list" where
  "phases W = filter is_phase (rev (w_calls W))"

text \<open>The calls of the connection callback and of the close callback, oldest first, go with the state.\<close>

fun life :: "conn_state \<Rightarrow> conn_call list \<Rightarrow> bool" where
  "life kConnecting cs \<longleftrightarrow> cs = []"
| "life kDisconnected cs \<longleftrightarrow>
     cs = [OnConnection True, OnConnection False] \<or> cs = [OnConnection True, OnConnection False, OnClose]"
| "life _ cs \<longleftrightarrow> cs = [OnConnection True]"

definition conn_inv :: "fd \<Rightarrow> world \<Rightarrow> bool" where
  "conn_inv f W \<longleftrightarrow> conn_ok f [] W \<and> life (c_state (w_conn W)) (phases W)"

lemma silent_phases: "silent W W' \<Longrightarrow> phases W' = phases W"
  by (simp add: silent_def phases_def)

lemma silent_life: "silent W W' \<Longrightarrow> life (c_state (w_conn W)) cs \<Longrightarrow> life (c_state (w_conn W')) cs"
  by (auto simp: silent_def)

lemma conn_inv_silent: "conn_inv f W \<Longrightarrow> conn_ok f [] W' \<and> silent W W' \<Longrightarrow> conn_inv f W'"
  using silent_life [of W W' "phases W"] silent_phases [of W W'] by (simp add: conn_inv_def)

lemma user_call_ok:
  assumes W: "conn_ok f [] W" and env: "conn_env_ok E" and run: "user_call E c W = Inr W'"
  shows "conn_ok f [] W'" "silent (W\<lparr>w_calls := c # w_calls W\<rparr>) W'"
proof -
  let ?W1 = "W\<lparr>w_calls := c # w_calls W\<rparr>"
  let ?I = "\<lambda>X. conn_ok f [] X \<and> silent ?W1 X"
  have "conn_view ?W1 = conn_view W" by (simp add: conn_view_def conn_server_def)
  from conn_ok_view [OF this] W have W1: "?I ?W1" by simp
  have op: "?I X'" if "?I X" "op \<in> set (e_user E c ?W1)" "run_conn_op E op X = Inr X'" for X X' op
  proof -
    have "op_ok op" using env that(2) by (auto simp: conn_env_ok_def list_all_iff)
    with that(1,3) env have "conn_ok f [] X' \<and> silent X X'"
      by (intro run_conn_op_ok [of f X E op X']) (simp_all add: conn_env_ok_def)
    then show ?thesis using that(1) silent_trans by blast
  qed
  have "res_inv ?I (fold_res (run_conn_op E) ops X)" if "?I X" "set ops \<subseteq> set (e_user E c ?W1)" for ops X
    using that
  proof (induction ops arbitrary: X)
    case (Cons o1 ops)
    then show ?case using op [OF Cons.prems(1), of o1] by (cases "run_conn_op E o1 X") auto
  qed simp
  from this [OF W1 subset_refl] run show "conn_ok f [] W'" "silent ?W1 W'"
    by (simp_all add: user_call_def Let_def)
qed

lemma user_call_inv:
  assumes "conn_inv f W" "conn_env_ok E" "user_call E c W = Inr W'" "\<not> is_phase c"
  shows "conn_inv f W'"
proof -
  have ok: "conn_ok f [] W" using assms(1) by (simp add: conn_inv_def)
  note u = user_call_ok [OF ok assms(2,3)]
  from silent_phases [OF u(2)] have "phases W' = phases W" using assms(4) by (simp add: phases_def)
  moreover have "life (c_state (w_conn W')) (phases W)"
    using silent_life [OF u(2), of "phases W"] assms(1) by (simp add: conn_inv_def)
  ultimately show ?thesis using u(1) by (simp add: conn_inv_def)
qed

lemma conn_inv_view:
  "conn_inv f W \<Longrightarrow> conn_view W' = conn_view W \<Longrightarrow> w_calls W' = w_calls W \<Longrightarrow> conn_inv f W'"
  using conn_ok_view [of W' W f "[]"] by (auto simp: conn_inv_def phases_def conn_view_def)

lemma close_calls_inv:
  assumes W: "conn_ok f [] W" and env: "conn_env_ok E" and st: "c_state (w_conn W) = kDisconnected"
    and ph: "phases W = [OnConnection True]" and run: "connection_callback E W = Inr W'"
  shows "conn_inv f W'" "c_state (w_conn W') = kDisconnected" "phases W' = [OnConnection True, OnConnection False]"
proof -
  have run': "user_call E (OnConnection False) W = Inr W'" using run st by (simp add: connection_callback_def)
  note u = user_call_ok [OF W env run']
  show "c_state (w_conn W') = kDisconnected" using u(2) st by (simp add: silent_def)
  moreover show "phases W' = [OnConnection True, OnConnection False]"
    using silent_phases [OF u(2)] ph by (simp add: phases_def)
  ultimately show "conn_inv f W'" using u(1) by (simp add: conn_inv_def)
qed

section \<open>Events\<close>

text \<open>The connection goes down: the state, the registration, the callback.\<close>

lemma go_down_inv:
  assumes W: "conn_inv f W" and env: "conn_env_ok E" and st: "c_state (w_conn W) \<in> {kConnected, kDisconnecting}"
    and un: "srv E (OpUnregisterFD (conn_fd W)) (setState kDisconnected W) = Inr W1"
    and run: "connection_callback E W1 = Inr W'"
  shows "conn_inv f W'" "c_state (w_conn W') = kDisconnected" "phases W' = [OnConnection True, OnConnection False]"
proof -
  let ?W0 = "setState kDisconnected W"
  have ph: "phases W = [OnConnection True]" using W st by (auto simp: conn_inv_def)
  have ok: "conn_ok f [] W" using W by (simp add: conn_inv_def)
  have W0: "srv_ok (conn_server ?W0)" "functors_ok ?W0" "conn_regs ?W0 = conn_regs W"
    using ok by (auto simp: conn_ok_def setState_def conn_server_def functors_ok_def)
  note law = srv_law [OF W0(1) un]
  have same: "w_conn W1 = (w_conn W)\<lparr>c_state := kDisconnected\<rparr>" "w_os W1 = w_os W" "w_accepted W1 = w_accepted W"
    "w_calls W1 = w_calls W"
    using law(3) by (simp_all add: same_conn_def setState_def)
  have "functors_ok W1" using W0(2) law(4) same by (simp add: functors_ok_def setState_def)
  moreover have "io_ok f [] W1" if "io_ok f [] W"
    using that same law(2) W0(3) by (simp add: io_ok_def conn_fd_def)
  ultimately have "conn_ok f [] W1" using ok law(1) same by (auto simp: conn_ok_def)
  then show "conn_inv f W'" "c_state (w_conn W') = kDisconnected" "phases W' = [OnConnection True, OnConnection False]"
    using close_calls_inv [OF _ env _ _ run] same ph by (simp_all add: phases_def)
qed

lemma handleClose_inv:
  assumes W: "conn_inv f W" and env: "conn_env_ok E" and run: "handleClose E W = Inr W'"
  shows "conn_inv f W'"
proof -
  obtain W1 W2 where st: "c_state (w_conn W) \<in> {kConnected, kDisconnecting}"
    and un: "srv E (OpUnregisterFD (conn_fd W)) (setState kDisconnected W) = Inr W1"
    and cc: "connection_callback E W1 = Inr W2" and cl: "user_call E OnClose W2 = Inr W'"
    using run by (auto simp: handleClose_def in_loop_thread_def AssertInLoopThread_def res_simps)
  note down = go_down_inv [OF W env st un cc]
  have "conn_ok f [] W2" using down(1) by (simp add: conn_inv_def)
  note u = user_call_ok [OF this env cl]
  have "c_state (w_conn W') = kDisconnected" using u(2) down(2) by (simp add: silent_def)
  moreover have "phases W' = [OnConnection True, OnConnection False, OnClose]"
    using silent_phases [OF u(2)] down(3) by (simp add: phases_def)
  ultimately show ?thesis using u(1) by (simp add: conn_inv_def)
qed

lemma handleError_view: "conn_view (handleError E W) = conn_view W" "w_calls (handleError E W) = w_calls W"
  by (auto simp: handleError_def conn_view_def conn_server_def GetSocketError_def syscall_def Let_def)

lemma handleRead_inv:
  assumes W: "conn_inv f W" and env: "conn_env_ok E" and run: "handleRead E W = Inr W'"
  shows "conn_inv f W'"
proof -
  define w1 where "w1 = snd (syscall (e_sock E) (SockRead (conn_fd W) (read_capacity (c_input (w_conn W)))) (w_os W))"
  have tr: "sent g (sys_trace w1) = sent g (sys_trace (w_os W))" for g
    by (simp add: w1_def syscall_def Let_def)
  obtain n :: "int + nat" and b1 where next_W: "(case n of
      Inl e \<Rightarrow> Inr (handleError E (W\<lparr>w_conn := (w_conn W)\<lparr>c_input := b1\<rparr>, w_os := w1, w_os := w1\<lparr>errno := e\<rparr>\<rparr>))
    | Inr k \<Rightarrow> if 0 < k then user_call E OnMessage_call (W\<lparr>w_conn := (w_conn W)\<lparr>c_input := b1\<rparr>, w_os := w1\<rparr>)
        else handleClose E (W\<lparr>w_conn := (w_conn W)\<lparr>c_input := b1\<rparr>, w_os := w1\<rparr>)) = Inr W'"
    using run unfolding handleRead_def in_loop_thread_def AssertInLoopThread_def Let_def w1_def [symmetric]
    by (auto simp: bindr_eq_Inr guard_eq_Inr)
  let ?W1 = "W\<lparr>w_conn := (w_conn W)\<lparr>c_input := b1\<rparr>, w_os := w1\<rparr>"
  let ?W2 = "\<lambda>e. W\<lparr>w_conn := (w_conn W)\<lparr>c_input := b1\<rparr>, w_os := w1, w_os := w1\<lparr>errno := e\<rparr>\<rparr>"
  have W1: "conn_inv f ?W1" "conn_inv f (?W2 e)" for e
    using tr by (intro conn_inv_view [OF W]; simp add: conn_view_def conn_server_def)+
  show ?thesis
  proof (cases n)
    case (Inl e)
    then have "W' = handleError E (?W2 e)" using next_W by simp
    then show ?thesis using conn_inv_view [OF W1(2)] handleError_view by blast
  next
    case (Inr k)
    then have "user_call E OnMessage_call ?W1 = Inr W' \<or> handleClose E ?W1 = Inr W'"
      using next_W by (simp split: if_splits)
    then show ?thesis
      using user_call_inv [OF W1(1) env, of OnMessage_call W'] handleClose_inv [OF W1(1) env] by auto
  qed
qed

text \<open>The output buffer gives up what was written.\<close>

lemma written_ok:
  assumes W: "conn_ok f [] W" and n: "n \<le> length (out_bytes W)"
    and tr: "sent (conn_fd W) (sys_trace w) = sent (conn_fd W) (sys_trace (w_os W)) @ take n (out_bytes W)"
    and b: "SkipReadBytes n (c_output (w_conn W)) = Inr b"
  defines "W2 \<equiv> W\<lparr>w_os := w, w_conn := (w_conn W)\<lparr>c_output := b\<rparr>\<rparr>"
  shows "ReadableBytes b \<noteq> 0 \<Longrightarrow> conn_ok f [] W2"
    "ReadableBytes b = 0 \<Longrightarrow> srv E (OpStopWrite (conn_fd W2)) W2 = Inr W' \<Longrightarrow> conn_ok f [] W' \<and> silent W W'"
proof -
  have inv: "buffer_inv (c_output (w_conn W))" using W by (simp add: conn_ok_def)
  with n SkipReadBytes_ok [OF inv, of n] b have b': "buffer_inv b" "content b = drop n (out_bytes W)" by simp_all
  then have rd: "ReadableBytes b = length (drop n (out_bytes W))" using length_content [OF b'(1)] by simp
  have W2: "srv_ok (conn_server W2)" "buffer_inv (c_output (w_conn W2))" "functors_ok W2" "conn_regs W2 = conn_regs W"
    "out_bytes W2 = drop n (out_bytes W)" "conn_fd W2 = conn_fd W" "c_state (w_conn W2) = c_state (w_conn W)"
    "c_cb (w_conn W2) = c_cb (w_conn W)" "c_socket (w_conn W2) = c_socket (w_conn W)" "w_accepted W2 = w_accepted W"
    "w_os W2 = w" "silent W W2"
    using W b' by (simp_all add: W2_def conn_ok_def conn_server_def functors_ok_def conn_fd_def silent_def)
  have stream: "w_accepted W2 = sent f (sys_trace (w_os W2)) @ out_bytes W2" if "io_ok f [] W"
    using that tr W2 by (simp add: io_ok_def)
  {
    assume "ReadableBytes b \<noteq> 0"
    then have ne: "out_bytes W2 \<noteq> []" "out_bytes W \<noteq> []" using rd W2(5) by auto
    have "io_ok f [] W2" if "io_ok f [] W"
      using that stream [OF that] ne W2 by (cases "c_state (w_conn W)") (auto simp: io_ok_def)
    then show "conn_ok f [] W2" using W W2 by (auto simp: conn_ok_def)
  next
    assume "ReadableBytes b = 0" and s: "srv E (OpStopWrite (conn_fd W2)) W2 = Inr W'"
    then have emp: "out_bytes W2 = []" using rd W2(5) by simp
    note law = srv_law [OF W2(1) s]
    have "link st c (regs_after (OpStopWrite f) r f) []" if "link st c (r f) out" for st c r out
      using that by (cases st) (auto simp: change_mask_def split: option.splits)
    then have "io_ok f [] W'" if "io_ok f [] W"
      using that stream [OF that] emp W2 law(2,3) by (auto simp: io_ok_def same_conn_def conn_fd_def)
    then show "conn_ok f [] W' \<and> silent W W'"
      using W W2 law same_conn_silent [OF law(3)] silent_trans [of W W2 W']
      by (auto simp: conn_ok_def same_conn_def functors_ok_def)
  }
qed

lemma after_write_ok:
  assumes W: "conn_ok f [] W3"
    and run: "bindr (if c_write_complete (w_conn W3) then queue E FWriteComplete W3 else Inr W3) (\<lambda>W4.
       if c_state (w_conn W4) = kDisconnecting then shutdownInLoop E W4 else Inr W4) = Inr W'"
  shows "conn_ok f [] W' \<and> silent W3 W'"
proof -
  obtain W4 where q: "W4 = W3 \<or> queue E FWriteComplete W3 = Inr W4"
    and s: "W' = W4 \<or> shutdownInLoop E W4 = Inr W'"
    using run by (auto simp: bindr_eq_Inr split: if_splits)
  have W4: "conn_ok f [] W4 \<and> silent W3 W4" 
    using q W conn_ok_queue [OF W, of E FWriteComplete W4] same_conn_silent [of W3 W4] by auto
  have "conn_ok f [] W' \<and> silent W4 W'"
    using s W4 conn_ok_view [of W' W4 f "[]"] shutdownInLoop_view [of E W4 W'] by auto
  then show ?thesis using W4 silent_trans by blast
qed

lemma handleWrite_cases:
  assumes run: "handleWrite E W = Inr W'"
  obtains (idle) "W' = W"
  | (blocked) n where "sock_write E (out_bytes W) W = Inr (n, W')" "n \<le> 0"
  | (part) n W1 b where "sock_write E (out_bytes W) W = Inr (n, W1)" "0 < n"
      "SkipReadBytes (nat n) (c_output (w_conn W1)) = Inr b" "ReadableBytes b \<noteq> 0"
      "W' = W1\<lparr>w_conn := (w_conn W1)\<lparr>c_output := b\<rparr>\<rparr>"
  | (all) n W1 b W3 where "sock_write E (out_bytes W) W = Inr (n, W1)" "0 < n"
      "SkipReadBytes (nat n) (c_output (w_conn W1)) = Inr b" "ReadableBytes b = 0"
      "srv E (OpStopWrite (conn_fd (W1\<lparr>w_conn := (w_conn W1)\<lparr>c_output := b\<rparr>\<rparr>)))
         (W1\<lparr>w_conn := (w_conn W1)\<lparr>c_output := b\<rparr>\<rparr>) = Inr W3"
      "bindr (if c_write_complete (w_conn W3) then queue E FWriteComplete W3 else Inr W3) (\<lambda>W4.
         if c_state (w_conn W4) = kDisconnecting then shutdownInLoop E W4 else Inr W4) = Inr W'"
proof (cases "writing W")
  case False
  then show ?thesis
    using run that(1) by (auto simp: handleWrite_def in_loop_thread_def AssertInLoopThread_def guard_eq_Inr)
next
  case True
  then obtain n W1 where wr: "sock_write E (out_bytes W) W = Inr (n, W1)"
    and next_W: "(if 0 < n
      then bindr (SkipReadBytes (nat n) (c_output (w_conn W1))) (\<lambda>b.
        if ReadableBytes b = 0
        then bindr (srv E (OpStopWrite (conn_fd (W1\<lparr>w_conn := (w_conn W1)\<lparr>c_output := b\<rparr>\<rparr>)))
               (W1\<lparr>w_conn := (w_conn W1)\<lparr>c_output := b\<rparr>\<rparr>)) (\<lambda>W3.
             bindr (if c_write_complete (w_conn W3) then queue E FWriteComplete W3 else Inr W3) (\<lambda>W4.
             if c_state (w_conn W4) = kDisconnecting then shutdownInLoop E W4 else Inr W4))
        else Inr (W1\<lparr>w_conn := (w_conn W1)\<lparr>c_output := b\<rparr>\<rparr>))
      else Inr W1) = Inr W'"
    using run unfolding handleWrite_def in_loop_thread_def AssertInLoopThread_def Let_def
    by (auto simp only: bindr_eq_Inr guard_eq_Inr if_True split_paired_Ex prod.case)
  show ?thesis
  proof (cases "0 < n")
    case False
    then have "n \<le> 0" by simp
    with wr next_W show ?thesis by (intro that(2)) simp_all
  next
    case True
    then obtain b where b: "SkipReadBytes (nat n) (c_output (w_conn W1)) = Inr b"
      using next_W by (auto simp: bindr_eq_Inr)
    show ?thesis
    proof (cases "ReadableBytes b = 0")
      case True
      with \<open>0 < n\<close> next_W b that(4) [OF wr \<open>0 < n\<close> b] show ?thesis by (auto simp: bindr_eq_Inr)
    next
      case False
      with \<open>0 < n\<close> next_W b that(3) [OF wr \<open>0 < n\<close> b] show ?thesis by auto
    qed
  qed
qed

lemma flushed_ok:
  assumes W: "conn_ok f [] W" and env: "send_ok (e_sock E)" and wr: "sock_write E (out_bytes W) W = Inr (n, W1)" "0 < n"
    and b: "SkipReadBytes (nat n) (c_output (w_conn W1)) = Inr b" "ReadableBytes b = 0"
    and sw: "srv E (OpStopWrite (conn_fd (W1\<lparr>w_conn := (w_conn W1)\<lparr>c_output := b\<rparr>\<rparr>)))
         (W1\<lparr>w_conn := (w_conn W1)\<lparr>c_output := b\<rparr>\<rparr>) = Inr W3"
  shows "conn_ok f [] W3 \<and> silent W W3" "w_conn W3 = (w_conn W)\<lparr>c_output := b\<rparr>"
proof -
  from env wr(1) obtain w where w: "W1 = W\<lparr>w_os := w\<rparr>" "nat n \<le> length (out_bytes W)"
    "sent (conn_fd W) (sys_trace w) = sent (conn_fd W) (sys_trace (w_os W)) @ take (nat n) (out_bytes W)"
    by (rule sock_write_law) (use wr(2) in auto)
  have "SkipReadBytes (nat n) (c_output (w_conn W)) = Inr b" using b(1) w(1) by simp
  from written_ok(2) [OF W w(2,3) this b(2)] sw show "conn_ok f [] W3 \<and> silent W W3" by (simp add: w(1))
  have "srv_ok (conn_server (W1\<lparr>w_conn := (w_conn W1)\<lparr>c_output := b\<rparr>\<rparr>))"
    using W w(1) by (simp add: conn_ok_def conn_server_def)
  from srv_law(3) [OF this sw] show "w_conn W3 = (w_conn W)\<lparr>c_output := b\<rparr>" by (simp add: same_conn_def w(1))
qed

lemma handleWrite_ok:
  assumes W: "conn_ok f [] W" and env: "send_ok (e_sock E)" and run: "handleWrite E W = Inr W'"
  shows "conn_ok f [] W' \<and> silent W W'"
  using run
proof (cases rule: handleWrite_cases)
  case idle
  then show ?thesis using W by simp
next
  case (blocked n)
  from env blocked(1) show ?thesis
  proof (cases rule: sock_write_law)
    case (accepted w)
    with blocked(2) have W': "W' = W\<lparr>w_os := w\<rparr>" "sent (conn_fd W) (sys_trace w) = sent (conn_fd W) (sys_trace (w_os W))"
      by simp_all
    then have "io_ok f [] W'" if "io_ok f [] W"
      using that by (simp add: io_ok_def conn_fd_def conn_server_def)
    then show ?thesis using W W' by (auto simp: conn_ok_def conn_server_def functors_ok_def silent_def)
  qed (use W in \<open>simp add: conn_ok_def conn_server_def functors_ok_def silent_def\<close>)
next
  case (part n W1 b)
  from env part(1) obtain w where w: "W1 = W\<lparr>w_os := w\<rparr>" "nat n \<le> length (out_bytes W)"
    "sent (conn_fd W) (sys_trace w) = sent (conn_fd W) (sys_trace (w_os W)) @ take (nat n) (out_bytes W)"
    by (rule sock_write_law) (use part(2) in auto)
  have "SkipReadBytes (nat n) (c_output (w_conn W)) = Inr b" using part(3) w(1) by simp
  from written_ok(1) [OF W w(2,3) this part(4)] show ?thesis by (simp add: part(5) w(1) silent_def)
next
  case (all n W1 b W3)
  from flushed_ok(1) [OF W env all(1-5)] show ?thesis using after_write_ok [OF _ all(6)] silent_trans by blast
qed

lemma Conn_OnEvent_inv:
  assumes W: "conn_inv f W" and env: "conn_env_ok E" and run: "Conn_OnEvent E ev W = Inr W'"
  shows "conn_inv f W'"
proof -
  obtain W1 W2 where r: "W1 = W \<or> handleRead E W = Inr W1" and w: "W2 = W1 \<or> handleWrite E W1 = Inr W2"
    and e: "W' = W2 \<or> W' = handleError E W2"
    using run by (auto simp: Conn_OnEvent_def in_loop_thread_def AssertInLoopThread_def res_simps split: if_splits)
  have W1: "conn_inv f W1" using r W handleRead_inv [OF W env] by blast
  have env': "send_ok (e_sock E)" using env by (simp add: conn_env_ok_def)
  have W2: "conn_inv f W2"
    using w W1 conn_inv_silent [OF W1 handleWrite_ok [OF _ env']] by (auto simp: conn_inv_def)
  then show ?thesis using e conn_inv_view [OF W2] handleError_view by blast
qed

section \<open>Beginning, end and functors\<close>

lemma ConnectEstablished_inv:
  assumes W: "conn_inv f W" and env: "conn_env_ok E" and run: "ConnectEstablished E W = Inr W'"
  shows "conn_inv f W'"
proof -
  let ?W0 = "setState kConnected W"
  obtain W1 where st: "c_state (w_conn W) = kConnecting"
    and reg: "srv E (OpRegisterFD (conn_fd W) (c_cb (w_conn W)) kEpollFlags) ?W0 = Inr W1"
    and cc: "connection_callback E W1 = Inr W'"
    using run by (auto simp: ConnectEstablished_def in_loop_thread_def AssertInLoopThread_def res_simps)
  have ok: "conn_ok f [] W" and ph: "phases W = []" using W st by (simp_all add: conn_inv_def)
  have W0: "srv_ok (conn_server ?W0)" "conn_regs ?W0 = conn_regs W"
    using ok by (simp_all add: conn_ok_def setState_def conn_server_def)
  note law = srv_law [OF W0(1) reg]
  have same: "w_conn W1 = (w_conn W)\<lparr>c_state := kConnected\<rparr>" "w_os W1 = w_os W" "w_accepted W1 = w_accepted W"
    "w_calls W1 = w_calls W" "w_queued W1 = w_queued W"
    using law(3,4) by (simp_all add: same_conn_def setState_def)
  have "functors_ok W1" using ok st same by (auto simp: conn_ok_def functors_ok_def)
  moreover have "kEpollFlags AND EPOLLOUT = 0" by (simp add: kEpollFlags_def EPOLLIN_def EPOLLOUT_def)
  then have "io_ok f [] W1" if "io_ok f [] W"
    using that same law(2) W0(2) st by (simp add: io_ok_def conn_fd_def)
  ultimately have ok1: "conn_ok f [] W1" using ok law(1) same by (auto simp: conn_ok_def)
  have cc': "user_call E (OnConnection True) W1 = Inr W'" using cc same by (simp add: connection_callback_def)
  note u = user_call_ok [OF ok1 env cc']
  have "phases W' = [OnConnection True]" using silent_phases [OF u(2)] ph same by (simp add: phases_def)
  moreover have "c_state (w_conn W') \<in> {kConnected, kDisconnecting}" using u(2) same by (auto simp: silent_def)
  ultimately show ?thesis using u(1) by (auto simp: conn_inv_def)
qed

lemma ConnectDestroyed_inv:
  assumes W: "conn_inv f W" and env: "conn_env_ok E" and run: "ConnectDestroyed E W = Inr W'"
  shows "conn_inv f W'"
proof (cases "c_state (w_conn W) = kConnected")
  case True
  then obtain W1 where "srv E (OpUnregisterFD (conn_fd W)) (setState kDisconnected W) = Inr W1"
    "connection_callback E W1 = Inr W'"
    using run by (auto simp: ConnectDestroyed_def in_loop_thread_def AssertInLoopThread_def res_simps)
  with True go_down_inv(1) [OF W env] show ?thesis by simp
qed (use W run in \<open>auto simp: ConnectDestroyed_def in_loop_thread_def AssertInLoopThread_def res_simps\<close>)

lemma run_functor_inv:
  assumes W: "conn_inv f W" and env: "conn_env_ok E" and g: "g \<in> set (w_queued W)" and run: "run_functor E g W = Inr W'"
  shows "conn_inv f W'"
proof -
  have ok: "conn_ok f [] W" and env': "send_ok (e_sock E)" using W env by (simp_all add: conn_inv_def conn_env_ok_def)
  show ?thesis
  proof (cases g)
    case (FSendInLoop d)
    then have "c_state (w_conn W) \<noteq> kConnecting" "length d \<le> vector_max_size"
      using ok g by (auto simp: conn_ok_def functors_ok_def)
    then show ?thesis using sendInLoop_ok [OF ok env'] run FSendInLoop conn_inv_silent [OF W] by simp
  next
    case FShutdownInLoop
    then have "conn_view W' = conn_view W" "w_calls W' = w_calls W"
      using shutdownInLoop_view [of E W W'] run by (simp_all add: silent_def)
    then show ?thesis by (rule conn_inv_view [OF W])
  next
    case FForceCloseInLoop
    then have "W' = W \<or> handleClose E W = Inr W'"
      using run by (auto simp: forceCloseInLoop_def in_loop_thread_def AssertInLoopThread_def res_simps split: if_splits)
    then show ?thesis using W handleClose_inv [OF W env] by blast
  qed (use run readInLoop_ok [OF ok, of E W'] user_call_inv [OF W env] conn_inv_silent [OF W, of W'] in auto)
qed

section \<open>Runs\<close>

text \<open>A connection just constructed on an open socket. The bytes are counted per descriptor number, so those that
  went through the number before count as taken over.\<close>

definition conn_start :: "fd \<Rightarrow> world \<Rightarrow> bool" where
  "conn_start f W \<longleftrightarrow> 0 \<le> f \<and> srv_ok (conn_server W) \<and> conn_regs W f = None \<and>
     (\<exists>se c sk w. s_fd sk = f \<and> \<not> s_error sk \<and> (w_conn W, w_os W) = TCPConnection se c sk w) \<and>
     w_calls W = [] \<and> w_queued W = [] \<and> w_accepted W = sent f (sys_trace (w_os W))"

text \<open>One step. \<open>thread\<close> says which thread runs next; \<open>other\<close> is the rest of the program, which shares the loop,
  the server and the system, but neither the descriptor nor its registration.\<close>

inductive conn_step :: "conn_env \<Rightarrow> fd \<Rightarrow> world \<Rightarrow> world \<Rightarrow> bool" for E f where
  establish: "ConnectEstablished E W = Inr W' \<Longrightarrow> conn_step E f W W'"
| event: "conn_regs W f = Some (c_cb (w_conn W), em) \<Longrightarrow> Conn_OnEvent E ev W = Inr W' \<Longrightarrow> conn_step E f W W'"
| functor_call: "g \<in> set (w_queued W) \<Longrightarrow> run_functor E g W = Inr W' \<Longrightarrow> conn_step E f W W'"
| user: "op_ok op \<Longrightarrow> run_conn_op E op W = Inr W' \<Longrightarrow> conn_step E f W W'"
| destroy: "ConnectDestroyed E W = Inr W' \<Longrightarrow> conn_step E f W W'"
| set_write_complete: "conn_step E f W (SetWriteCompleteCallback cb W)"
| set_high_water: "conn_step E f W (SetHighWaterMarkCallback cb mark W)"
| no_delay: "conn_step E f W (Conn_SetTCPNoDelay E W)"
| thread: "conn_step E f W (W\<lparr>w_in_loop := b\<rparr>)"
| other: "srv_ok (loop_server L) \<Longrightarrow> regs (loop_server L) f = conn_regs W f \<Longrightarrow>
    sent f (sys_trace w) = sent f (sys_trace (w_os W)) \<Longrightarrow> conn_step E f W (W\<lparr>w_loop := L, w_os := w\<rparr>)"

inductive conn_run :: "conn_env \<Rightarrow> fd \<Rightarrow> world \<Rightarrow> bool" for E f where
  start: "conn_start f W \<Longrightarrow> conn_run E f W"
| step: "conn_run E f W \<Longrightarrow> conn_step E f W W' \<Longrightarrow> conn_run E f W'"

lemma conn_start_inv:
  assumes "conn_start f W"
  shows "conn_inv f W"
proof -
  obtain se c sk w where "s_fd sk = f" "(w_conn W, w_os W) = TCPConnection se c sk w"
    using assms by (auto simp: conn_start_def)
  then have c: "c_socket (w_conn W) = sk" "c_state (w_conn W) = kConnecting" "c_output (w_conn W) = ByteBuffer kInitialSize"
    "s_fd sk = f" by (auto simp: TCPConnection_def)
  have "kInitialSize \<le> vector_max_size" by (simp add: kInitialSize_def vector_max_size_def)
  with assms c show ?thesis
    by (simp add: conn_start_def conn_inv_def conn_ok_def io_ok_def functors_ok_def phases_def conn_fd_def)
qed

lemma sent_no_delay: "sent f (sys_trace (w_os (Conn_SetTCPNoDelay E W))) = sent f (sys_trace (w_os W))"
  by (simp add: Conn_SetTCPNoDelay_def SetTCPNoDelay_def DisableNagle_def setsockopt_def syscall_def Let_def)

lemma setters_view:
  "conn_view (SetWriteCompleteCallback cb W) = conn_view W" "w_calls (SetWriteCompleteCallback cb W) = w_calls W"
  "conn_view (SetHighWaterMarkCallback cb mark W) = conn_view W" "w_calls (SetHighWaterMarkCallback cb mark W) = w_calls W"
  "conn_view (Conn_SetTCPNoDelay E W) = conn_view W" "w_calls (Conn_SetTCPNoDelay E W) = w_calls W"
  using sent_no_delay [of _ E W]
  by (simp_all add: conn_view_def conn_server_def SetWriteCompleteCallback_def SetHighWaterMarkCallback_def)
    (simp_all add: Conn_SetTCPNoDelay_def)

lemma conn_step_inv:
  assumes "conn_step E f W W'" "conn_env_ok E" "conn_inv f W"
  shows "conn_inv f W'"
  using assms(1)
proof cases
  case (user op)
  have "conn_ok f [] W' \<and> silent W W'"
    using assms(2,3) user by (intro run_conn_op_ok [of f W E op]) (simp_all add: conn_inv_def conn_env_ok_def)
  then show ?thesis by (rule conn_inv_silent [OF assms(3)])
next
  case (set_write_complete cb)
  then show ?thesis using conn_inv_view [OF assms(3), of W'] by (simp add: setters_view)
next
  case (set_high_water cb mark)
  then show ?thesis using conn_inv_view [OF assms(3), of W'] by (simp add: setters_view)
next
  case no_delay
  then show ?thesis using conn_inv_view [OF assms(3), of W'] by (simp add: setters_view)
next
  case (thread b)
  then show ?thesis using conn_inv_view [OF assms(3), of W'] by (simp add: conn_view_def conn_server_def)
next
  case (other L w)
  then show ?thesis using assms(3)
    by (auto simp: conn_inv_def conn_ok_def io_ok_def functors_ok_def phases_def conn_fd_def conn_server_def)
qed (use assms(2,3) ConnectEstablished_inv Conn_OnEvent_inv run_functor_inv ConnectDestroyed_inv in blast)+

lemma conn_run_inv: "conn_run E f W \<Longrightarrow> conn_env_ok E \<Longrightarrow> conn_inv f W"
  by (induction rule: conn_run.induct) (use conn_start_inv conn_step_inv in blast)+

lemma conn_run_io:
  assumes "conn_run E f W" "conn_env_ok E" "\<not> s_error (c_socket (w_conn W))"
  shows "io_ok f [] W"
  using conn_run_inv [OF assms(1,2)] assms(3) by (simp add: conn_inv_def conn_ok_def)

section \<open>A connection in a concrete environment\<close>

text \<open>The kernel takes three bytes at a time; when the connection is up the user sends five.\<close>

definition demo_conn_env :: conn_env where
  "demo_conn_env = \<lparr>e_epoll = demo_env, e_sock = slow_env,
     e_user = \<lambda>c W. if c = OnConnection True then [UserSend [1, 2, 3, 4, 5], UserShutdown] else []\<rparr>"

definition demo_conn_loop :: "conn_functor event_loop" where
  "demo_conn_loop = projr (EventLoop demo_env False 3 (Some (4, 5)) (\<lambda>_. EpollAlarm) [])"

definition demo_world :: world where
  "demo_world = \<lparr>w_in_loop = True, w_loop = demo_conn_loop,
     w_os = snd (TCPConnection slow_env 1 (Socket\<lparr>s_fd := 9\<rparr>) idle_os),
     w_conn = fst (TCPConnection slow_env 1 (Socket\<lparr>s_fd := 9\<rparr>) idle_os),
     w_calls = [], w_accepted = [], w_queued = []\<rparr>"

definition demo_up :: world where
  "demo_up = projr (ConnectEstablished demo_conn_env demo_world)"

lemma demo_conn_loop_ok: "EventLoop demo_env False 3 (Some (4, 5)) (\<lambda>_. EpollAlarm) [] = Inr demo_conn_loop"
proof -
  have "isl (EventLoop demo_env False 3 (Some (4, 5)) (\<lambda>_. EpollAlarm) [] :: conn_functor event_loop res) = False"
    by code_simp
  then show ?thesis by (simp add: demo_conn_loop_def)
qed

lemma demo_world_start: "conn_start 9 demo_world"
proof -
  have "loop_reachable demo_env (initial_state demo_conn_loop)" by (rule loop_reachable.construct [OF demo_conn_loop_ok])
  from reachable_srv_ok [OF demo_bounded loop_server_reachable [OF this]]
  have "srv_ok (conn_server demo_world)" by (simp add: initial_state_def conn_server_def demo_world_def)
  moreover have "node (conn_server demo_world) 9 = None" "sent 9 (sys_trace (w_os demo_world)) = []" by code_simp+
  from this have "conn_regs demo_world 9 = None" "sent 9 (sys_trace (w_os demo_world)) = []"
    by (simp_all add: regs_def)
  moreover have "s_fd (Socket\<lparr>s_fd := 9\<rparr>) = 9 \<and> \<not> s_error (Socket\<lparr>s_fd := 9\<rparr>) \<and>
    (w_conn demo_world, w_os demo_world) = TCPConnection slow_env 1 (Socket\<lparr>s_fd := 9\<rparr>) idle_os"
    by (simp add: demo_world_def Socket_def)
  then have "\<exists>se c sk w. s_fd sk = 9 \<and> \<not> s_error sk \<and> (w_conn demo_world, w_os demo_world) = TCPConnection se c sk w"
    by blast
  moreover have "w_calls demo_world = []" "w_queued demo_world = []" "w_accepted demo_world = []"
    by (simp_all add: demo_world_def)
  ultimately show ?thesis unfolding conn_start_def by simp
qed

lemma demo_conn_env_ok: "conn_env_ok demo_conn_env"
proof -
  have "send_ok slow_env" by (auto simp: send_ok_def slow_env_def reply_def min_def)
  moreover have "5 \<le> vector_max_size" by (simp add: vector_max_size_def)
  ultimately show ?thesis by (simp add: conn_env_ok_def demo_conn_env_def)
qed

lemma demo_up_ok: "ConnectEstablished demo_conn_env demo_world = Inr demo_up"
proof -
  have "isl (ConnectEstablished demo_conn_env demo_world) = False" by code_simp
  then show ?thesis by (simp add: demo_up_def)
qed

lemma demo_up_run: "conn_run demo_conn_env 9 demo_up"
  by (rule conn_run.step [OF conn_run.start [OF demo_world_start] conn_step.establish [OF demo_up_ok]])

lemma demo_up_fields:
  "\<not> s_error (c_socket (w_conn demo_up))" "c_state (w_conn demo_up) = kDisconnecting"
  "content (c_output (w_conn demo_up)) = [4, 5]" "sent 9 (sys_trace (w_os demo_up)) = [1, 2, 3]"
  by code_simp+

section \<open>Correctness\<close>

text \<open>C3: while no error closes the socket, the bytes that \<open>sendInLoop\<close> took over are exactly the bytes the kernel
  accepted, in order, followed by the bytes in the output buffer: nothing is lost, repeated or reordered, whatever
  the partial writes and the interleaving.\<close>

theorem send_stream:
  assumes "conn_run E f W" "conn_env_ok E" "\<not> s_error (c_socket (w_conn W))"
  shows "w_accepted W = sent f (sys_trace (w_os W)) @ content (c_output (w_conn W))"
  using conn_run_io [OF assms] by (simp add: io_ok_def)

theorem send_stream_witness: "w_accepted demo_up = [1, 2, 3, 4, 5]"
  using send_stream [OF demo_up_run demo_conn_env_ok demo_up_fields(1)] demo_up_fields(3,4) by simp





section \<open>Shutting down\<close>

lemma conn_run_fd: "conn_run E f W \<Longrightarrow> 0 \<le> f"
  by (induction rule: conn_run.induct) (simp_all add: conn_start_def)

lemma shutdownInLoop_trace:
  assumes "shutdownInLoop E W = Inr W'" "\<not> writing W" "0 \<le> conn_fd W"
  shows "\<exists>r tr. sys_trace (w_os W') = (SockShutdown (conn_fd W) SHUT_WR, r) # tr"
proof -
  obtain w where p: "PRESERVE_ERRNO_HANDLE_EINTR (e_sock E) (SockShutdown (conn_fd W) SHUT_WR) (w_os W) = Inr w"
    and W': "w_os W' = w"
    using assms by (auto simp: shutdownInLoop_def in_loop_thread_def AssertInLoopThread_def ShutdownWrite_def IsClosed_def
        conn_fd_def res_simps)
  obtain n r w1 where h: "HANDLE_EINTR (e_sock E) (SockShutdown (conn_fd W) SHUT_WR) (w_os W) = Inr (n, r, w1)"
    and w1: "sys_trace w = sys_trace w1"
    using p by (auto simp: PRESERVE_ERRNO_HANDLE_EINTR_def res_simps Let_def split: if_splits)
  from h obtain pre where "sys_trace w1 = (SockShutdown (conn_fd W) SHUT_WR, r) # pre @ sys_trace (w_os W)"
    by (rule HANDLE_EINTR_trace)
  then show ?thesis using W' w1 by simp
qed

lemma io_writing:
  assumes "io_ok f [] W" "c_state (w_conn W) \<in> {kConnected, kDisconnecting}"
  shows "writing W \<longleftrightarrow> out_bytes W \<noteq> []"
  using assms writing_law [of W "c_cb (w_conn W)"] by (auto simp: io_ok_def)



text \<open>When the write handler of a connection that is shutting down empties the output buffer, the sending side is
  closed in the same call: the shutdown that was put off is not forgotten.\<close>

theorem flush_shuts_down:
  assumes "conn_run E f W" "conn_env_ok E" "\<not> s_error (c_socket (w_conn W))"
    and st: "c_state (w_conn W) = kDisconnecting" and run: "handleWrite E W = Inr W'"
    and out: "content (c_output (w_conn W)) \<noteq> []" "content (c_output (w_conn W')) = []"
  shows "\<exists>r tr. sys_trace (w_os W') = (SockShutdown f SHUT_WR, r) # tr"
  using run
proof (cases rule: handleWrite_cases)
  case idle
  then show ?thesis using out by simp
next
  case (blocked n)
  then show ?thesis using out by (auto simp: sock_write_def res_simps)
next
  case (part n W1 b)
  have "conn_ok f [] W'" using handleWrite_ok [OF _ _ run] conn_run_inv [OF assms(1,2)] assms(2)
    by (simp add: conn_inv_def conn_env_ok_def)
  then have "buffer_inv b" by (simp add: part(5) conn_ok_def)
  from length_content [OF this] part(4,5) out(2) show ?thesis by simp
next
  case (all n W1 b W3)
  have ok: "conn_ok f [] W" "send_ok (e_sock E)" using conn_run_inv [OF assms(1,2)] assms(2)
    by (simp_all add: conn_inv_def conn_env_ok_def)
  note fl = flushed_ok [OF ok all(1-5)]
  obtain W4 where "(if c_write_complete (w_conn W3) then queue E FWriteComplete W3 else Inr W3) = Inr W4"
    and W': "(if c_state (w_conn W4) = kDisconnecting then shutdownInLoop E W4 else Inr W4) = Inr W'"
    using all(6) unfolding bindr_eq_Inr by blast
  then have q: "W4 = W3 \<or> queue E FWriteComplete W3 = Inr W4" by (auto split: if_splits)
  have W4: "conn_ok f [] W4" "w_conn W4 = w_conn W3"
    using q fl(1) conn_ok_queue [of f "[]" W3 E FWriteComplete W4] by (auto simp: same_conn_def)
  then have io: "io_ok f [] W4" and st4: "c_state (w_conn W4) = kDisconnecting"
    using fl(2) assms(3) st by (simp_all add: conn_ok_def)
  have "shutdownInLoop E W4 = Inr W'" using W' st4 by simp
  moreover have "length (out_bytes W4) = 0" using W4 all(4) fl(2) by (simp add: conn_ok_def)
  then have "\<not> writing W4" using io_writing [OF io] st4 by simp
  ultimately show ?thesis
    using shutdownInLoop_trace [of E W4 W'] conn_run_fd [OF assms(1)] io by (simp add: io_ok_def)
qed

definition demo_flushed :: world where
  "demo_flushed = projr (handleWrite demo_conn_env demo_up)"

theorem flush_shuts_down_witness:
  "handleWrite demo_conn_env demo_up = Inr demo_flushed \<and>
   (\<exists>r tr. sys_trace (w_os demo_flushed) = (SockShutdown 9 SHUT_WR, r) # tr)"
proof -
  have "isl (handleWrite demo_conn_env demo_up) = False" by code_simp
  then have run: "handleWrite demo_conn_env demo_up = Inr demo_flushed" by (simp add: demo_flushed_def)
  moreover have "content (c_output (w_conn demo_flushed)) = []" by code_simp
  ultimately show ?thesis
    using flush_shuts_down [OF demo_up_run demo_conn_env_ok demo_up_fields(1,2) run] by (simp add: demo_up_fields)
qed

end
