(* ===== verification/Conn_Faults.thy ===== *)
theory Conn_Faults
  imports Conn_Correct
begin

text \<open>
  Where a connection does not do what its code means to: a full send buffer, a force-close that races with the
  loop, and a connection destroyed while it shuts down.
\<close>

section \<open>A full send buffer\<close>

lemma store_rest_elsewhere:
  assumes W: "srv_ok (conn_server W)" "buffer_inv (c_output (w_conn W))" and rest: "length rest \<le> vector_max_size"
    and f: "conn_fd W \<noteq> f" and run: "store_rest E rest W = Inr W'"
  shows "conn_regs W' f = conn_regs W f" "c_state (w_conn W') = c_state (w_conn W)"
    "c_socket (w_conn W') = c_socket (w_conn W)" "out_bytes W' = out_bytes W @ rest"
proof -
  obtain W1 b where step: "W1 = W \<or> (\<exists>k. queue E (FHighWaterMark k) W = Inr W1)"
    and b: "Write rest (c_output (w_conn W1)) = Inr b"
    and fin: "W' = W1\<lparr>w_conn := (w_conn W1)\<lparr>c_output := b\<rparr>\<rparr> \<or>
      srv E (OpStartWrite (conn_fd W1)) (W1\<lparr>w_conn := (w_conn W1)\<lparr>c_output := b\<rparr>\<rparr>) = Inr W'"
    using run by (auto simp: store_rest_def Let_def conn_fd_def res_simps split: if_splits)
  have W1: "srv_ok (conn_server W1)" "conn_regs W1 = conn_regs W" "w_conn W1 = w_conn W"
    using step W(1) queue_law [OF W(1), of E _ W1] by (auto simp: same_conn_def)
  have b': "content b = out_bytes W @ rest"
    using Write_appends [OF W(2) rest] b W1(3) by simp
  let ?W2 = "W1\<lparr>w_conn := (w_conn W1)\<lparr>c_output := b\<rparr>\<rparr>"
  have W2: "srv_ok (conn_server ?W2)" "conn_regs ?W2 = conn_regs W" using W1 by (simp_all add: conn_server_def)
  have "conn_regs W' f = conn_regs W f \<and> w_conn W' = w_conn ?W2"
  proof (cases "W' = ?W2")
    case True
    with W2(2) show ?thesis by simp
  next
    case False
    then have s: "srv E (OpStartWrite (conn_fd W1)) ?W2 = Inr W'" using fin by blast
    have "conn_fd W1 \<noteq> f" using f W1(3) by (simp add: conn_fd_def)
    then show ?thesis using srv_law [OF W2(1) s] W2(2)
      by (auto simp: same_conn_def change_mask_def split: option.splits)
  qed
  then show "conn_regs W' f = conn_regs W f" "c_state (w_conn W') = c_state (w_conn W)"
    "c_socket (w_conn W') = c_socket (w_conn W)" "out_bytes W' = out_bytes W @ rest"
    using W1(3) b' by simp_all
qed

lemma with_out_nothing: "buffer_inv b \<Longrightarrow> content b = [] \<Longrightarrow> ReadableBytes b = 0"
  using length_content [of b] by simp

text \<open>C38: \<open>sendInLoop\<close> means to keep what the kernel has no room for, but \<open>Socket::Write\<close> has closed the socket
  by then: the connection stays up, with the message in its buffer, the old descriptor registered for reading only,
  and no descriptor to write it to.\<close>

theorem send_would_block:
  assumes run: "conn_run E f W" "conn_env_ok E" "\<not> s_error (c_socket (w_conn W))"
    and st: "c_state (w_conn W) = kConnected" "w_in_loop W" "content (c_output (w_conn W)) = []"
    and d: "d \<noteq> []" "length d \<le> vector_max_size"
    and full: "Socket_Write (e_sock E) d (c_socket (w_conn W), w_os W) = Inr (-1, sk, w)" "errno w = EAGAIN"
    and send: "Send E d W = Inr W'"
  shows "c_state (w_conn W') = kConnected \<and> IsClosed (c_socket (w_conn W')) \<and> content (c_output (w_conn W')) = d \<and>
     (\<exists>em. conn_regs W' f = Some (c_cb (w_conn W), em) \<and> em AND EPOLLOUT = 0)"
proof -
  have io: "io_ok f [] W" by (rule conn_run_io [OF run])
  have ok: "srv_ok (conn_server W)" "buffer_inv (c_output (w_conn W))" "send_ok (e_sock E)"
    using conn_run_inv [OF run(1,2)] run(2) by (simp_all add: conn_inv_def conn_ok_def conn_env_ok_def)
  have closed: "IsClosed sk" using ok(3) full(1) by (rule Socket_Write_cases) simp_all
  let ?W1 = "W\<lparr>w_conn := (w_conn W)\<lparr>c_socket := sk\<rparr>, w_os := w\<rparr>"
  have wr: "sock_write E d W = Inr (-1, ?W1)" by (simp add: sock_write_def full(1))
  have nw: "\<not> writing W" "ReadableBytes (c_output (w_conn W)) = 0"
    using io_writing [OF io] st with_out_nothing [OF ok(2)] by simp_all
  have "store_rest E d (?W1\<lparr>w_accepted := w_accepted W @ d\<rparr>) = Inr W'"
    using send st nw wr d(1) full(2)
    by (simp add: Send_def sendInLoop_def in_loop_thread_def AssertInLoopThread_def EWOULDBLOCK_def EAGAIN_def Let_def)
  moreover have "conn_fd ?W1 \<noteq> f" using closed conn_run_fd [OF run(1)] by (simp add: conn_fd_def IsClosed_def)
  ultimately have "conn_regs W' f = conn_regs W f \<and> c_state (w_conn W') = kConnected \<and> c_socket (w_conn W') = sk \<and>
      out_bytes W' = d"
    using store_rest_elsewhere [of "?W1\<lparr>w_accepted := w_accepted W @ d\<rparr>" d f E W'] ok(1,2) d(2) st
    by (simp add: conn_server_def conn_fd_def)
  then show ?thesis using closed io st by (auto simp: io_ok_def)
qed

definition full_env :: conn_env where
  "full_env = \<lparr>e_epoll = demo_env, e_sock = blocked_env, e_user = \<lambda>_ _. []\<rparr>"

definition full_up :: world where
  "full_up = projr (ConnectEstablished full_env demo_world)"

lemma full_env_ok: "conn_env_ok full_env"
  by (simp add: conn_env_ok_def full_env_def send_ok_def blocked_env_def reply_def)

lemma full_up_run: "conn_run full_env 9 full_up"
proof -
  have "isl (ConnectEstablished full_env demo_world) = False" by code_simp
  then have "ConnectEstablished full_env demo_world = Inr full_up" by (simp add: full_up_def)
  then show ?thesis by (rule conn_run.step [OF conn_run.start [OF demo_world_start] conn_step.establish])
qed

lemma full_up_fields:
  "\<not> s_error (c_socket (w_conn full_up))" "c_state (w_conn full_up) = kConnected" "w_in_loop full_up"
  "content (c_output (w_conn full_up)) = []" "isl (Send full_env [7] full_up) = False"
  "mapr (\<lambda>(n, sk, w). (n, errno w)) (Socket_Write (e_sock full_env) [7] (c_socket (w_conn full_up), w_os full_up)) =
     Inr (-1, EAGAIN)"
  by code_simp+

theorem send_would_block_witness:
  "\<exists>W'. Send full_env [7] full_up = Inr W' \<and> c_state (w_conn W') = kConnected \<and> IsClosed (c_socket (w_conn W')) \<and>
     content (c_output (w_conn W')) = [7]"
proof -
  obtain sk w where full: "Socket_Write (e_sock full_env) [7] (c_socket (w_conn full_up), w_os full_up) = Inr (-1, sk, w)"
    "errno w = EAGAIN" using full_up_fields(6) by (auto simp: mapr_eq_Inr)
  obtain W' where W': "Send full_env [7] full_up = Inr W'"
    using full_up_fields(5) by (cases "Send full_env [7] full_up") auto
  have "length [7 :: 8 word] \<le> vector_max_size" by (simp add: vector_max_size_def)
  from send_would_block [OF full_up_run full_env_ok full_up_fields(1-4) _ this full W'] W' show ?thesis by simp
qed

section \<open>A force-close that races with the loop\<close>

definition race_closed :: world where
  "race_closed = projr (handleClose demo_conn_env demo_up)"

definition race_set :: world where
  "race_set = projr (ForceClose_set demo_conn_env (race_closed\<lparr>w_in_loop := False\<rparr>))"

definition race_end :: world where
  "race_end = projr (forceCloseInLoop demo_conn_env (race_set\<lparr>w_in_loop := True\<rparr>))"

text \<open>The test and the assignment in \<open>ForceClose\<close> are not one step. Between them the loop may close the
  connection; the assignment then brings it back to life, and it is closed a second time: the connection callback
  and the close callback are called again.\<close>

theorem ForceClose_race:
  "ForceClose_test demo_up \<and> handleClose demo_conn_env demo_up = Inr race_closed \<and>
   ForceClose_set demo_conn_env (race_closed\<lparr>w_in_loop := False\<rparr>) = Inr race_set \<and>
   forceCloseInLoop demo_conn_env (race_set\<lparr>w_in_loop := True\<rparr>) = Inr race_end \<and>
   phases race_end = [OnConnection True, OnConnection False, OnClose, OnConnection False, OnClose]"
proof (intro conjI)
  have "isl (handleClose demo_conn_env demo_up) = False"
    "isl (ForceClose_set demo_conn_env (race_closed\<lparr>w_in_loop := False\<rparr>)) = False"
    "isl (forceCloseInLoop demo_conn_env (race_set\<lparr>w_in_loop := True\<rparr>)) = False" by code_simp+
  then show "handleClose demo_conn_env demo_up = Inr race_closed"
    "ForceClose_set demo_conn_env (race_closed\<lparr>w_in_loop := False\<rparr>) = Inr race_set"
    "forceCloseInLoop demo_conn_env (race_set\<lparr>w_in_loop := True\<rparr>) = Inr race_end"
    by (simp_all add: race_closed_def race_set_def race_end_def)
  show "ForceClose_test demo_up" by code_simp
  show "phases race_end = [OnConnection True, OnConnection False, OnClose, OnConnection False, OnClose]"
    by code_simp
qed

section \<open>A connection destroyed while it shuts down\<close>

text \<open>\<open>ConnectDestroyed\<close> takes only an established connection down. One that is shutting down stays registered
  with the server, and its destructor finds it not disconnected.\<close>

theorem destroyed_while_disconnecting:
  assumes "conn_run E f W" "conn_env_ok E" "\<not> s_error (c_socket (w_conn W))"
    and "c_state (w_conn W) = kDisconnecting" "w_in_loop W"
  shows "ConnectDestroyed E W = Inr W \<and> (\<exists>em. conn_regs W f = Some (c_cb (w_conn W), em)) \<and>
     TCPConnection_destroy E W = Inl AssertFailed"
  using conn_run_io [OF assms(1-3)] assms(4,5)
  by (auto simp: io_ok_def ConnectDestroyed_def TCPConnection_destroy_def in_loop_thread_def AssertInLoopThread_def)

theorem destroyed_while_disconnecting_witness:
  "ConnectDestroyed demo_conn_env demo_up = Inr demo_up \<and> TCPConnection_destroy demo_conn_env demo_up = Inl AssertFailed"
proof -
  have "w_in_loop demo_up" by code_simp
  from destroyed_while_disconnecting [OF demo_up_run demo_conn_env_ok demo_up_fields(1,2) this] show ?thesis by simp
qed

end
