(* ===== verification/TCP_Server.thy ===== *)
theory TCP_Server
  imports TCP_Connection "HOL-Library.AList" "HOL-Library.List_Lexorder" "HOL-Library.Char_ord"
begin

text \<open>
  \<open>raner::TCPServer\<close> (\<open>raner/tcp_server.h\<close>, \<open>raner/tcp_server.cc\<close>): the listening socket, the accepted connections
  by name, and their way through the loops of the pool.

  The loops are known by their numbers, each with the functors it has still to call. What a connection does is the
  subject of \<open>TCP_Connection\<close>; here the calls \<open>ConnectEstablished\<close> and \<open>ConnectDestroyed\<close> on it are recorded.
\<close>

section \<open>State\<close>

type_synonym conn_id = nat

record conn_obj =
  o_name :: string
  o_loop :: loop_id
  o_conn :: tcp_connection

record tcp_server =
  ts_cb :: cb                        \<comment> \<open>\<open>this\<close>, as the server's callback\<close>
  ts_loop :: loop_id
  ts_host :: string
  ts_port :: int
  ts_name :: string
  ts_socket :: "socket option"
  listenning :: bool
  idle_fd :: int
  ts_pool :: loop_pool
  ts_write_complete :: bool          \<comment> \<open>\<open>write_complete_callback_\<close> is set\<close>
  ts_started :: int
  next_conn_id :: int
  connections :: "(string \<times> conn_id) list"

datatype srv_functor =
    SListen
  | SEstablish conn_id
  | SDestroy conn_id
  | SRemove conn_id

datatype conn_event = Established loop_id conn_id | Destroyed loop_id conn_id

record srv_world =
  sw_thread :: loop_id               \<comment> \<open>the loop whose thread runs\<close>
  sw_server :: tcp_server
  sw_epoll :: epoll_server           \<comment> \<open>of the server's loop\<close>
  sw_os :: os
  sw_objs :: "conn_obj list"         \<comment> \<open>the connections ever made\<close>
  sw_queue :: "loop_id \<Rightarrow> srv_functor list"
  sw_log :: "conn_event list"        \<comment> \<open>newest first\<close>
  sw_removed :: "conn_id list"

record srv_env =
  v_epoll :: env
  v_sock :: sock_env
  v_ntop :: "bytes \<Rightarrow> string"
  v_thread :: "nat \<Rightarrow> loop_id"       \<comment> \<open>the loop of the pool's thread\<close>
  v_init_cb :: bool                  \<comment> \<open>\<open>thread_init_callback_\<close> is set\<close>

definition EMFILE :: int where "EMFILE = 24"

definition kServerEpollFlags :: mask where
  "kServerEpollFlags = EPOLLIN"

text \<open>\<open>::open\<close>, \<open>::close\<close> and \<open>::accept\<close>, called directly.\<close>

definition os_call :: "srv_env \<Rightarrow> sys_call \<Rightarrow> os \<Rightarrow> int \<times> os" where
  "os_call E c w = (case syscall (v_sock E) c w of (r, w1) \<Rightarrow> (to_int (r_ret r), w1))"

definition TCPServer :: "srv_env \<Rightarrow> cb \<Rightarrow> loop_id \<Rightarrow> string \<Rightarrow> int \<Rightarrow> string \<Rightarrow> os \<Rightarrow> (tcp_server \<times> os) res" where
  "TCPServer E c loop host port name w =
     (case os_call E (SockOpen ''/dev/null'') w of (fd, w1) \<Rightarrow>
      guard AssertFailed (0 \<le> fd)
        (Inr (\<lparr>ts_cb = c, ts_loop = loop, ts_host = host, ts_port = port, ts_name = name, ts_socket = None,
               listenning = False, idle_fd = fd, ts_pool = EventLoopThreadPool loop,
               ts_write_complete = False, ts_started = 0, next_conn_id = 1, connections = []\<rparr>, w1)))"

section \<open>Loops\<close>

definition in_thread :: "loop_id \<Rightarrow> srv_world \<Rightarrow> 'a res \<Rightarrow> 'a res" where
  "in_thread l W k = AssertInLoopThread (sw_thread W = l) k"

definition queue_in :: "loop_id \<Rightarrow> srv_functor \<Rightarrow> srv_world \<Rightarrow> srv_world" where
  "queue_in l g W = W\<lparr>sw_queue := (sw_queue W)(l := sw_queue W l @ [g])\<rparr>"

definition record_event :: "conn_event \<Rightarrow> srv_world \<Rightarrow> srv_world" where
  "record_event e W = W\<lparr>sw_log := e # sw_log W\<rparr>"

definition base_epoll :: "srv_env \<Rightarrow> server_op \<Rightarrow> srv_world \<Rightarrow> srv_world res" where
  "base_epoll E op W = mapr (\<lambda>s. W\<lparr>sw_epoll := s\<rparr>) (exec_op (v_epoll E) op (sw_epoll W))"

definition upd_server :: "(tcp_server \<Rightarrow> tcp_server) \<Rightarrow> srv_world \<Rightarrow> srv_world" where
  "upd_server g W = W\<lparr>sw_server := g (sw_server W)\<rparr>"

section \<open>Listening\<close>

definition createSocketAndListen :: "srv_env \<Rightarrow> srv_world \<Rightarrow> srv_world res" where
  "createSocketAndListen E W =
     in_thread (ts_loop (sw_server W)) W
      (bindr (BindAndListen (v_sock E) (ts_host (sw_server W)) (ts_port (sw_server W)) (Socket, sw_os W)) (\<lambda>(ok, sk, w).
       guard LogFatal ok
        (base_epoll E (OpRegisterFD (s_fd sk) (ts_cb (sw_server W)) kServerEpollFlags)
          (upd_server (\<lambda>s. s\<lparr>ts_socket := Some sk, listenning := True\<rparr>) (W\<lparr>sw_os := w\<rparr>)))))"

definition Server_SetThreadNum :: "int \<Rightarrow> srv_world \<Rightarrow> srv_world res" where
  "Server_SetThreadNum n W =
     guard AssertFailed (0 \<le> n) (Inr (upd_server (\<lambda>s. s\<lparr>ts_pool := SetThreadNum n (ts_pool s)\<rparr>) W))"

definition Server_SetWriteCompleteCallback :: "bool \<Rightarrow> srv_world \<Rightarrow> srv_world" where
  "Server_SetWriteCompleteCallback cb W = upd_server (\<lambda>s. s\<lparr>ts_write_complete := cb\<rparr>) W"

text \<open>\<open>started_\<close> is atomic and wraps around.\<close>

definition Server_Start :: "srv_env \<Rightarrow> srv_world \<Rightarrow> srv_world res" where
  "Server_Start E W =
     (let old = ts_started (sw_server W); W1 = upd_server (\<lambda>s. s\<lparr>ts_started := to_int (old + 1)\<rparr>) W
      in if old = 0
         then bindr (Pool_Start (sw_thread W = ts_loop (sw_server W)) (v_thread E) (v_init_cb E) (ts_pool (sw_server W1)))
                (\<lambda>(p, _).
              let W2 = upd_server (\<lambda>s. s\<lparr>ts_pool := p\<rparr>) W1
              in guard AssertFailed (\<not> listenning (sw_server W2))
                   (if sw_thread W2 = ts_loop (sw_server W2) then createSocketAndListen E W2
                    else Inr (queue_in (ts_loop (sw_server W2)) SListen W2)))
         else Inr W1)"

section \<open>Connections\<close>

definition conn_name :: "tcp_server \<Rightarrow> int \<Rightarrow> string" where
  "conn_name s i =
     ts_name s @ snprintf 64 (''-'' @ c_str (ts_host s) @ '':'' @ show_int (ts_port s) @ ''#'' @ show_int i)"

definition add_connection :: "string \<Rightarrow> loop_id \<Rightarrow> loop_pool \<Rightarrow> tcp_connection \<Rightarrow> os \<Rightarrow> srv_world \<Rightarrow> srv_world" where
  "add_connection name io_loop p conn w W =
     (let s = sw_server W
      in W\<lparr>sw_server := s\<lparr>ts_pool := p, next_conn_id := next_conn_id s + 1,
             connections := AList.update name (length (sw_objs W)) (connections s)\<rparr>,
           sw_os := w,
           sw_objs := sw_objs W @
             [\<lparr>o_name = name, o_loop = io_loop, o_conn = conn\<lparr>c_write_complete := ts_write_complete s\<rparr>\<rparr>]\<rparr>)"

definition establish_conn :: "loop_id \<Rightarrow> conn_id \<Rightarrow> srv_world \<Rightarrow> srv_world" where
  "establish_conn l i W =
     (if sw_thread W = l then record_event (Established l i) W else queue_in l (SEstablish i) W)"

definition newConnection :: "srv_env \<Rightarrow> socket \<Rightarrow> srv_world \<Rightarrow> srv_world res" where
  "newConnection E client_socket W =
     in_thread (ts_loop (sw_server W)) W
      (bindr (GetNextLoop (sw_thread W = base_loop (ts_pool (sw_server W))) (ts_pool (sw_server W))) (\<lambda>(io_loop, p).
       let s = sw_server W; name = conn_name s (next_conn_id s)
       in guard SignedOverflow (next_conn_id s + 1 < 2 ^ 31)
         (bindr (GetPeerAddr (v_sock E) (v_ntop E) (client_socket, sw_os W)) (\<lambda>(_, sk, w).
          case TCPConnection (v_sock E) (length (sw_objs W)) sk w of (conn, w1) \<Rightarrow>
          Inr (establish_conn io_loop (length (sw_objs W)) (add_connection name io_loop p conn w1 W))))))"

text \<open>\<open>client_socket\<close> is destroyed at the end when it was not handed over.\<close>

definition accept_failed :: "srv_env \<Rightarrow> socket \<Rightarrow> socket \<Rightarrow> srv_world \<Rightarrow> srv_world" where
  "accept_failed E client lsk W =
     (let W1 = (if errno (sw_os W) = EMFILE
         then case os_call E (SockClose (idle_fd (sw_server W))) (sw_os W) of (_, w1) \<Rightarrow>
              case os_call E (SockAccept (s_fd lsk)) w1 of (fd, w2) \<Rightarrow>
              case os_call E (SockClose fd) w2 of (_, w3) \<Rightarrow>
              case os_call E (SockOpen ''/dev/null'') w3 of (fd', w4) \<Rightarrow>
              upd_server (\<lambda>s. s\<lparr>idle_fd := fd'\<rparr>) (W\<lparr>sw_os := w4\<rparr>)
         else W)
      in W1\<lparr>sw_os := snd (Close (v_sock E) (client, sw_os W1))\<rparr>)"

definition Server_handleRead :: "srv_env \<Rightarrow> srv_world \<Rightarrow> srv_world res" where
  "Server_handleRead E W =
     in_thread (ts_loop (sw_server W)) W
      (case ts_socket (sw_server W) of None \<Rightarrow> Inl InvalidAccess
       | Some lsk \<Rightarrow>
           bindr (Accept (v_sock E) Socket (lsk, sw_os W)) (\<lambda>(res, client, lsk1, w).
           let W1 = upd_server (\<lambda>s. s\<lparr>ts_socket := Some lsk1\<rparr>) (W\<lparr>sw_os := w\<rparr>)
           in if res then newConnection E client W1 else Inr (accept_failed E client lsk1 W1)))"

definition Server_OnEvent :: "srv_env \<Rightarrow> mask \<Rightarrow> srv_world \<Rightarrow> srv_world res" where
  "Server_OnEvent E in_events W =
     in_thread (ts_loop (sw_server W)) W
      (if in_events AND EPOLLIN \<noteq> 0 then Server_handleRead E W else Inr W)"

definition removeConnectionInLoop :: "conn_id \<Rightarrow> srv_world \<Rightarrow> srv_world res" where
  "removeConnectionInLoop i W =
     in_thread (ts_loop (sw_server W)) W
      (let name = o_name (sw_objs W ! i); cs = connections (sw_server W);
           W1 = upd_server (\<lambda>s. s\<lparr>connections := AList.delete name cs\<rparr>) W
       in guard AssertFailed (map_of cs name \<noteq> None)
         (Inr (queue_in (o_loop (sw_objs W ! i)) (SDestroy i) (W1\<lparr>sw_removed := i # sw_removed W\<rparr>))))"

definition removeConnection :: "conn_id \<Rightarrow> srv_world \<Rightarrow> srv_world res" where
  "removeConnection i W =
     (if sw_thread W = ts_loop (sw_server W) then removeConnectionInLoop i W
      else Inr (queue_in (ts_loop (sw_server W)) (SRemove i) W))"

section \<open>The end\<close>

definition destroy_conn :: "conn_id \<Rightarrow> srv_world \<Rightarrow> srv_world" where
  "destroy_conn i W =
     (let l = o_loop (sw_objs W ! i)
      in if sw_thread W = l then record_event (Destroyed l i) W else queue_in l (SDestroy i) W)"

text \<open>\<open>std::map\<close> is ordered by name. The socket is the last thing that is destroyed.\<close>

definition TCPServer_destroy :: "srv_env \<Rightarrow> srv_world \<Rightarrow> srv_world res" where
  "TCPServer_destroy E W =
     in_thread (ts_loop (sw_server W)) W
      (let W1 = fold (\<lambda>(_, i) V. destroy_conn i V) (sort_key fst (connections (sw_server W))) W
       in case ts_socket (sw_server W1) of None \<Rightarrow> Inl InvalidAccess
          | Some sk \<Rightarrow> bindr (base_epoll E (OpUnregisterFD (s_fd sk)) W1) (\<lambda>W2.
              case os_call E (SockClose (idle_fd (sw_server W2))) (sw_os W2) of (_, w) \<Rightarrow>
              Inr (W2\<lparr>sw_os := snd (Close (v_sock E) (sk, w))\<rparr>)))"

text \<open>A functor, called by the loop \<open>l\<close>.\<close>

fun call_srv_functor :: "srv_env \<Rightarrow> loop_id \<Rightarrow> srv_functor \<Rightarrow> srv_world \<Rightarrow> srv_world res" where
  "call_srv_functor E l SListen W = createSocketAndListen E W"
| "call_srv_functor E l (SEstablish i) W = Inr (record_event (Established l i) W)"
| "call_srv_functor E l (SDestroy i) W = Inr (record_event (Destroyed l i) W)"
| "call_srv_functor E l (SRemove i) W = removeConnectionInLoop i W"

end
