(* ===== verification/Server_Inv.thy ===== *)
theory Server_Inv
  imports TCP_Server Conn_Correct
begin

text \<open>
  The runs of a server, over every interleaving of the threads of its loops, and their invariant: how often each call
  on a connection has been made or is queued, and what the map of the connections holds.
\<close>

section \<open>What a connection promises its server\<close>

text \<open>The close callback is called at most once, and only of a connection that has been up and is down.\<close>

locale closing_connection =
  fixes runs :: "'w \<Rightarrow> bool" and phase_calls :: "'w \<Rightarrow> conn_call list"
  assumes close_law: "runs W \<Longrightarrow> OnClose \<in> set (phase_calls W) \<Longrightarrow>
    phase_calls W = [OnConnection True, OnConnection False, OnClose]"
begin

lemma close_once: "runs W \<Longrightarrow> count_list (phase_calls W) OnClose \<le> 1"
  using close_law [of W] by (cases "OnClose \<in> set (phase_calls W)") (auto simp: count_list_0_iff)

lemma close_after_up: "runs W \<Longrightarrow> OnClose \<in> set (phase_calls W) \<Longrightarrow> hd (phase_calls W) = OnConnection True"
  using close_law [of W] by simp

end

interpretation conn_close: closing_connection "\<lambda>W. conn_run E f W \<and> conn_env_ok E" phases for E f
proof unfold_locales
  show "phases W = [OnConnection True, OnConnection False, OnClose]"
    if "conn_run E f W \<and> conn_env_ok E" "OnClose \<in> set (phases W)" for W E f
  proof -
    have "life (c_state (w_conn W)) (phases W)" using conn_run_inv [of E f W] that(1) by (simp add: conn_inv_def)
    then show ?thesis using that(2) by (cases "c_state (w_conn W)") auto
  qed
qed

section \<open>Runs\<close>

definition srv_start :: "srv_env \<Rightarrow> srv_world \<Rightarrow> bool" where
  "srv_start E W \<longleftrightarrow> (\<exists>c l h p n w. TCPServer E c l h p n w = Inr (sw_server W, sw_os W)) \<and>
     sw_objs W = [] \<and> sw_queue W = (\<lambda>_. []) \<and> sw_log W = [] \<and> sw_removed W = []"

text \<open>The close callback of a connection runs in its loop, and only of a connection that is established
  (\<open>conn_close.close_after_up\<close>), once (\<open>conn_close.close_once\<close>).\<close>

definition may_close :: "conn_id \<Rightarrow> srv_world \<Rightarrow> bool" where
  "may_close i W \<longleftrightarrow> i < length (sw_objs W) \<and> sw_thread W = o_loop (sw_objs W ! i) \<and>
     Established (o_loop (sw_objs W ! i)) i \<in> set (sw_log W) \<and>
     i \<notin> set (sw_removed W) \<and> SRemove i \<notin> set (sw_queue W (ts_loop (sw_server W)))"

inductive srv_step :: "srv_env \<Rightarrow> srv_world \<Rightarrow> srv_world \<Rightarrow> bool" for E where
  threads: "Server_SetThreadNum n W = Inr W' \<Longrightarrow> srv_step E W W'"
| set_write_complete: "srv_step E W (Server_SetWriteCompleteCallback cb W)"
| start: "Server_Start E W = Inr W' \<Longrightarrow> srv_step E W W'"
| event: "Server_OnEvent E ev W = Inr W' \<Longrightarrow> srv_step E W W'"
| call: "sw_queue W l = g # gs \<Longrightarrow> sw_thread W = l \<Longrightarrow>
    call_srv_functor E l g (W\<lparr>sw_queue := (sw_queue W)(l := gs)\<rparr>) = Inr W' \<Longrightarrow> srv_step E W W'"
| close: "may_close i W \<Longrightarrow> removeConnection i W = Inr W' \<Longrightarrow> srv_step E W W'"
| thread: "srv_step E W (W\<lparr>sw_thread := l\<rparr>)"
| other: "srv_step E W (W\<lparr>sw_os := w, sw_epoll := s\<rparr>)"

inductive srv_run :: "srv_env \<Rightarrow> srv_world \<Rightarrow> bool" for E where
  init: "srv_start E W \<Longrightarrow> srv_run E W"
| step: "srv_run E W \<Longrightarrow> srv_step E W W' \<Longrightarrow> srv_run E W'"

section \<open>The invariant\<close>

text \<open>How often the loop \<open>l\<close> has made, or will make, a call on the connection \<open>i\<close>.\<close>

definition establishes :: "srv_world \<Rightarrow> loop_id \<Rightarrow> conn_id \<Rightarrow> nat" where
  "establishes W l i = count_list (sw_log W) (Established l i) + count_list (sw_queue W l) (SEstablish i)"

definition destroys :: "srv_world \<Rightarrow> loop_id \<Rightarrow> conn_id \<Rightarrow> nat" where
  "destroys W l i = count_list (sw_log W) (Destroyed l i) + count_list (sw_queue W l) (SDestroy i)"

text \<open>How often the connection \<open>i\<close> has been, or will be, removed.\<close>

definition removals :: "srv_world \<Rightarrow> conn_id \<Rightarrow> nat" where
  "removals W i = count_list (sw_removed W) i + count_list (sw_queue W (ts_loop (sw_server W))) (SRemove i)"

definition owned_by :: "srv_world \<Rightarrow> loop_id \<Rightarrow> conn_id \<Rightarrow> bool" where
  "owned_by W l i \<longleftrightarrow> i < length (sw_objs W) \<and> o_loop (sw_objs W ! i) = l"

definition conn_calls_ok :: "srv_world \<Rightarrow> bool" where
  "conn_calls_ok W \<longleftrightarrow>
     (\<forall>l i. establishes W l i = (if owned_by W l i then 1 else 0)) \<and>
     (\<forall>l i. destroys W l i = (if owned_by W l i \<and> i \<in> set (sw_removed W) then 1 else 0)) \<and>
     (\<forall>i. removals W i \<le> 1) \<and>
     (\<forall>i. 0 < removals W i \<longrightarrow> i < length (sw_objs W) \<and> Established (o_loop (sw_objs W ! i)) i \<in> set (sw_log W)) \<and>
     (\<forall>l i. l \<noteq> ts_loop (sw_server W) \<longrightarrow> SRemove i \<notin> set (sw_queue W l))"

text \<open>The map of the connections.\<close>

definition names_ok :: "srv_world \<Rightarrow> bool" where
  "names_ok W \<longleftrightarrow> next_conn_id (sw_server W) = int (length (sw_objs W)) + 1 \<and>
     (\<forall>i < length (sw_objs W). o_name (sw_objs W ! i) = conn_name (sw_server W) (int i + 1))"

definition live_conns :: "srv_world \<Rightarrow> (string \<times> conn_id) set" where
  "live_conns W = (\<lambda>i. (o_name (sw_objs W ! i), i)) ` ({..<length (sw_objs W)} - set (sw_removed W))"

definition conns_ok :: "srv_world \<Rightarrow> bool" where
  "conns_ok W \<longleftrightarrow> (distinct (map o_name (sw_objs W)) \<longrightarrow>
     (\<forall>nm i. map_of (connections (sw_server W)) nm = Some i \<longleftrightarrow> (nm, i) \<in> live_conns W))"

definition srv_inv :: "srv_world \<Rightarrow> bool" where
  "srv_inv W \<longleftrightarrow> conn_calls_ok W \<and> names_ok W \<and> conns_ok W"

definition same_srv :: "srv_world \<Rightarrow> srv_world \<Rightarrow> bool" where
  "same_srv W W' \<longleftrightarrow> sw_objs W' = sw_objs W \<and> sw_queue W' = sw_queue W \<and> sw_log W' = sw_log W \<and>
     sw_removed W' = sw_removed W \<and> ts_loop (sw_server W') = ts_loop (sw_server W) \<and>
     ts_host (sw_server W') = ts_host (sw_server W) \<and> ts_port (sw_server W') = ts_port (sw_server W) \<and>
     ts_name (sw_server W') = ts_name (sw_server W) \<and> next_conn_id (sw_server W') = next_conn_id (sw_server W) \<and>
     connections (sw_server W') = connections (sw_server W)"

lemmas count_defs = establishes_def destroys_def removals_def owned_by_def

lemma same_srv_inv: "same_srv W W' \<Longrightarrow> srv_inv W \<Longrightarrow> srv_inv W'"
  by (simp add: same_srv_def srv_inv_def conn_calls_ok_def names_ok_def conns_ok_def live_conns_def count_defs conn_name_def)

lemma same_srv_trans: "same_srv W W1 \<Longrightarrow> same_srv W1 W2 \<Longrightarrow> same_srv W W2"
  by (simp add: same_srv_def)

lemma count_queue_in:
  "establishes (queue_in l g W) l' i = establishes W l' i + (if l' = l \<and> g = SEstablish i then 1 else 0)"
  "destroys (queue_in l g W) l' i = destroys W l' i + (if l' = l \<and> g = SDestroy i then 1 else 0)"
  "removals (queue_in l g W) i = removals W i + (if ts_loop (sw_server W) = l \<and> g = SRemove i then 1 else 0)"
  by (auto simp: count_defs queue_in_def)

lemma count_record_event:
  "establishes (record_event e W) l' i = establishes W l' i + (if e = Established l' i then 1 else 0)"
  "destroys (record_event e W) l' i = destroys W l' i + (if e = Destroyed l' i then 1 else 0)"
  "removals (record_event e W) i = removals W i"
  by (auto simp: count_defs record_event_def)

lemma fields_queue_in [simp]:
  "sw_objs (queue_in l g W) = sw_objs W" "sw_log (queue_in l g W) = sw_log W" "sw_removed (queue_in l g W) = sw_removed W"
  "sw_server (queue_in l g W) = sw_server W" "owned_by (queue_in l g W) = owned_by W" "live_conns (queue_in l g W) = live_conns W"
  "set (sw_queue (queue_in l g W) l') = set (sw_queue W l') \<union> (if l' = l then {g} else {})"
  by (auto simp: queue_in_def owned_by_def live_conns_def fun_eq_iff)

lemma fields_record_event [simp]:
  "sw_objs (record_event e W) = sw_objs W" "sw_log (record_event e W) = e # sw_log W"
  "sw_removed (record_event e W) = sw_removed W" "sw_server (record_event e W) = sw_server W"
  "sw_queue (record_event e W) = sw_queue W"
  "owned_by (record_event e W) = owned_by W" "live_conns (record_event e W) = live_conns W"
  by (auto simp: record_event_def owned_by_def live_conns_def fun_eq_iff)

section \<open>Operations that make no calls\<close>

lemma base_epoll_same: "base_epoll E op W = Inr W' \<Longrightarrow> same_srv W W'"
  by (auto simp: base_epoll_def same_srv_def res_simps)

lemma createSocketAndListen_same:
  assumes "createSocketAndListen E W = Inr W'"
  shows "same_srv W W'"
proof -
  obtain sk w op where "base_epoll E op (upd_server (\<lambda>s. s\<lparr>ts_socket := Some sk, listenning := True\<rparr>) (W\<lparr>sw_os := w\<rparr>)) = Inr W'"
    using assms by (auto simp: createSocketAndListen_def in_thread_def AssertInLoopThread_def res_simps)
  from base_epoll_same [OF this] show ?thesis by (simp add: same_srv_def upd_server_def)
qed

lemma names_queue_in: "names_ok (queue_in l g W) = names_ok W" "conns_ok (queue_in l g W) = conns_ok W"
  by (simp_all only: names_ok_def conns_ok_def fields_queue_in)

lemma calls_queue_listen: "conn_calls_ok W \<Longrightarrow> conn_calls_ok (queue_in l SListen W)"
  unfolding conn_calls_ok_def count_queue_in fields_queue_in by (elim conjE) (intro conjI; simp)

lemma queue_listen_inv:
  assumes "srv_inv W"
  shows "srv_inv (queue_in l SListen W)"
proof -
  have "conn_calls_ok W" "names_ok W" "conns_ok W" using assms unfolding srv_inv_def by blast+
  then show ?thesis unfolding srv_inv_def names_queue_in by (intro conjI calls_queue_listen)
qed

lemma Server_Start_inv:
  assumes W: "srv_inv W" and run: "Server_Start E W = Inr W'"
  shows "srv_inv W'"
proof (cases "ts_started (sw_server W) = 0")
  case False
  then have "same_srv W W'"
    using run by (simp add: Server_Start_def Let_def same_srv_def upd_server_def) auto
  then show ?thesis by (rule same_srv_inv [OF _ W])
next
  case True
  define V where "V p = upd_server (\<lambda>s. s\<lparr>ts_pool := p\<rparr>) (upd_server (\<lambda>s. s\<lparr>ts_started := to_int (0 + 1)\<rparr>) W)" for p
  have V: "same_srv W (V p)" for p by (simp add: V_def same_srv_def upd_server_def)
  have "\<exists>p. (if sw_thread (V p) = ts_loop (sw_server (V p)) then createSocketAndListen E (V p)
      else Inr (queue_in (ts_loop (sw_server (V p))) SListen (V p))) = Inr W'"
    using run True unfolding Server_Start_def Let_def V_def
    by (simp only: simp_thms if_True bindr_eq_Inr guard_eq_Inr split_paired_Ex prod.case)
      (elim exE conjE, intro exI, assumption)
  then obtain p where p: "(if sw_thread (V p) = ts_loop (sw_server (V p)) then createSocketAndListen E (V p)
      else Inr (queue_in (ts_loop (sw_server (V p))) SListen (V p))) = Inr W'" ..
  show ?thesis
  proof (cases "sw_thread (V p) = ts_loop (sw_server (V p))")
    case True
    with p have "createSocketAndListen E (V p) = Inr W'" by (simp only: if_True simp_thms)
    from same_srv_trans [OF V createSocketAndListen_same [OF this]] show ?thesis by (rule same_srv_inv [OF _ W])
  next
    case False
    with p have W': "W' = queue_in (ts_loop (sw_server (V p))) SListen (V p)" by (simp only: if_False sum.inject)
    show ?thesis unfolding W' by (rule queue_listen_inv [OF same_srv_inv [OF V W]])
  qed
qed

section \<open>A new connection\<close>

lemma removed_bound:
  assumes "conn_calls_ok W" "i \<in> set (sw_removed W)"
  shows "i < length (sw_objs W)"
proof -
  have "0 < removals W i" using assms(2) by (simp add: removals_def count_list_0_iff zero_less_iff_neq_zero)
  then show ?thesis using assms(1) unfolding conn_calls_ok_def by blast
qed

text \<open>The world after the connection has been made and before it is established.\<close>

lemma add_conn_ok:
  assumes inv: "conn_calls_ok W" "names_ok W" "conns_ok W"
    and objs: "sw_objs V = sw_objs W @ [\<lparr>o_name = nm, o_loop = l, o_conn = c\<rparr>]"
    and nm: "nm = conn_name (sw_server W) (next_conn_id (sw_server W))"
    and s: "ts_loop (sw_server V) = ts_loop (sw_server W)" "ts_host (sw_server V) = ts_host (sw_server W)"
      "ts_port (sw_server V) = ts_port (sw_server W)" "ts_name (sw_server V) = ts_name (sw_server W)"
      "next_conn_id (sw_server V) = next_conn_id (sw_server W) + 1"
      "connections (sw_server V) = AList.update nm (length (sw_objs W)) (connections (sw_server W))"
    and rest: "sw_removed V = sw_removed W" "sw_log V = sw_log W" "sw_queue V = sw_queue W"
  shows "names_ok V" "conns_ok V"
proof -
  let ?n = "length (sw_objs W)"
  have cn: "conn_name (sw_server V) = conn_name (sw_server W)" by (simp add: conn_name_def s fun_eq_iff)
  have next_id: "next_conn_id (sw_server W) = int ?n + 1" using inv(2) by (simp add: names_ok_def)
  have "o_name (sw_objs V ! i) = conn_name (sw_server V) (int i + 1)" if "i < length (sw_objs V)" for i
  proof (cases "i < ?n")
    case True
    then show ?thesis using inv(2) by (simp add: names_ok_def objs cn nth_append)
  next
    case False
    with that have "i = ?n" by (simp add: objs)
    then show ?thesis by (simp add: objs cn nm next_id)
  qed
  moreover have "next_conn_id (sw_server V) = int (length (sw_objs V)) + 1" by (simp add: s(5) next_id objs)
  ultimately show "names_ok V" unfolding names_ok_def by blast
  have "?n \<notin> set (sw_removed W)"
  proof
    assume "?n \<in> set (sw_removed W)"
    from removed_bound [OF inv(1) this] show False by simp
  qed
  then have ids: "{..<length (sw_objs V)} - set (sw_removed V) = insert ?n ({..<?n} - set (sw_removed W))"
    by (simp add: objs rest lessThan_Suc insert_Diff_if)
  have "(\<lambda>i. (o_name (sw_objs V ! i), i)) ` ({..<?n} - set (sw_removed W)) = live_conns W"
    unfolding live_conns_def by (rule image_cong) (simp_all add: objs nth_append)
  then have live: "live_conns V = insert (nm, ?n) (live_conns W)"
    unfolding live_conns_def [of V] ids image_insert by (simp add: objs)
  show "conns_ok V"
    unfolding conns_ok_def
  proof (intro impI allI)
    fix x i
    assume "distinct (map o_name (sw_objs V))"
    then have d: "distinct (map o_name (sw_objs W))" "nm \<notin> o_name ` set (sw_objs W)" by (auto simp: objs)
    then have "map_of (connections (sw_server W)) x = Some i \<longleftrightarrow> (x, i) \<in> live_conns W"
      using inv(3) by (simp add: conns_ok_def)
    moreover have "(nm, j) \<notin> live_conns W" for j using d(2) by (auto simp: live_conns_def)
    ultimately show "map_of (connections (sw_server V)) x = Some i \<longleftrightarrow> (x, i) \<in> live_conns V"
      by (auto simp: s(6) live AList.update_conv')
  qed
qed

lemma conn_calls_okD:
  assumes "conn_calls_ok W"
  shows "establishes W l i = (if owned_by W l i then 1 else 0)"
    "destroys W l i = (if owned_by W l i \<and> i \<in> set (sw_removed W) then 1 else 0)"
    "removals W i \<le> 1" "0 < removals W i \<Longrightarrow> i < length (sw_objs W)"
    "0 < removals W i \<Longrightarrow> Established (o_loop (sw_objs W ! i)) i \<in> set (sw_log W)"
    "l \<noteq> ts_loop (sw_server W) \<Longrightarrow> SRemove i \<notin> set (sw_queue W l)"
  using assms unfolding conn_calls_ok_def by blast+

lemma add_conn_calls:
  assumes W: "conn_calls_ok W" and objs: "sw_objs V = sw_objs W @ [ob]" "o_loop ob = l"
    and same: "ts_loop (sw_server V) = ts_loop (sw_server W)" "sw_removed V = sw_removed W" "sw_log V = sw_log W"
      "sw_queue V = sw_queue W"
    and W': "W' = record_event (Established l (length (sw_objs W))) V \<or> W' = queue_in l (SEstablish (length (sw_objs W))) V"
  shows "conn_calls_ok W'"
proof -
  let ?n = "length (sw_objs W)"
  note D = conn_calls_okD [OF W]
  have fresh: "?n \<notin> set (sw_removed W)" using removed_bound [OF W, of ?n] by (meson less_irrefl)
  have own: "owned_by V l' i \<longleftrightarrow> owned_by W l' i \<or> l' = l \<and> i = ?n" for l' i
    using objs(2) by (auto simp: owned_by_def objs(1) nth_append less_Suc_eq)
  have new: "\<not> owned_by W l' ?n" for l' by (simp add: owned_by_def)
  have cnt: "establishes V = establishes W" "destroys V = destroys W" "removals V = removals W"
    by (simp_all add: fun_eq_iff count_defs same)
  have obj: "i < ?n \<Longrightarrow> sw_objs V ! i = sw_objs W ! i" for i by (simp add: objs(1) nth_append)
  have e: "establishes W' l' i = establishes W l' i + (if l' = l \<and> i = ?n then 1 else 0)"
    "destroys W' l' i = destroys W l' i" "removals W' i = removals W i" "owned_by W' = owned_by V" for l' i
    using W' by (auto simp: count_queue_in count_record_event cnt)
  have f: "sw_removed W' = sw_removed W" "sw_objs W' = sw_objs V" "set (sw_log W) \<subseteq> set (sw_log W')"
    "sw_server W' = sw_server V" "SRemove i \<in> set (sw_queue W' l') \<longleftrightarrow> SRemove i \<in> set (sw_queue W l')" for i l'
    using W' same by (auto split: if_splits)
  show ?thesis
    unfolding conn_calls_ok_def
  proof (intro conjI allI impI)
    show "establishes W' l' i = (if owned_by W' l' i then 1 else 0)" for l' i
      using D(1) [of l' i] new [of l'] by (auto simp: e own)
    show "destroys W' l' i = (if owned_by W' l' i \<and> i \<in> set (sw_removed W') then 1 else 0)" for l' i
      using D(2) [of l' i] fresh by (auto simp: e own f(1))
    show "removals W' i \<le> 1" for i using D(3) [of i] by (simp add: e)
    show "i < length (sw_objs W')" if "0 < removals W' i" for i
      using D(4) [of i] that by (simp add: e f objs)
    show "Established (o_loop (sw_objs W' ! i)) i \<in> set (sw_log W')" if "0 < removals W' i" for i
      using D(4,5) [of i] that obj [of i] f(3) by (auto simp: e f(2))
    show "SRemove i \<notin> set (sw_queue W' l')" if "l' \<noteq> ts_loop (sw_server W')" for l' i
      using D(6) that by (simp add: f same)
  qed
qed

lemma newConnection_inv:
  assumes W: "srv_inv W" and run: "newConnection E cs W = Inr W'"
  shows "srv_inv W'"
proof -
  let ?n = "length (sw_objs W)" and ?s = "sw_server W"
  define nm where "nm = conn_name ?s (next_conn_id ?s)"
  obtain l p c w where W': "W' = establish_conn l ?n (add_connection nm l p c w W)"
    using run by (auto simp: newConnection_def nm_def in_thread_def AssertInLoopThread_def Let_def res_simps
        case_prod_beta)
  define V where "V = add_connection nm l p c w W"
  have W'V: "W' = record_event (Established l ?n) V \<or> W' = queue_in l (SEstablish ?n) V"
    unfolding W' establish_conn_def V_def [symmetric] by (cases "sw_thread V = l") simp_all
  have inv: "conn_calls_ok W" "names_ok W" "conns_ok W" using W unfolding srv_inv_def by blast+
  have V: "names_ok V" "conns_ok V"
    by (rule add_conn_ok [OF inv, where nm = nm and l = l]; simp add: V_def add_connection_def nm_def Let_def)+
  have "conn_calls_ok W'"
    by (rule add_conn_calls [OF inv(1) _ _ _ _ _ _ W'V, where
          ob = "\<lparr>o_name = nm, o_loop = l, o_conn = c\<lparr>c_write_complete := ts_write_complete ?s\<rparr>\<rparr>"]) (simp_all add: V_def add_connection_def Let_def)
  moreover have "names_ok W' \<and> conns_ok W'"
    using W'V V by (auto simp: names_ok_def conns_ok_def)
  ultimately show ?thesis by (simp add: srv_inv_def)
qed

lemma accept_failed_same: "same_srv W (accept_failed E client lsk W)"
  by (simp add: accept_failed_def same_srv_def upd_server_def Let_def case_prod_beta)

lemma Server_OnEvent_inv:
  assumes W: "srv_inv W" and run: "Server_OnEvent E ev W = Inr W'"
  shows "srv_inv W'"
proof (cases "ev AND EPOLLIN = 0")
  case True
  then have "W' = W" using run by (auto simp: Server_OnEvent_def in_thread_def AssertInLoopThread_def guard_eq_Inr)
  then show ?thesis using W by simp
next
  case False
  then have "Server_handleRead E W = Inr W'"
    using run by (auto simp: Server_OnEvent_def in_thread_def AssertInLoopThread_def guard_eq_Inr)
  then obtain lsk1 w client res where next_W:
    "(if res then newConnection E client (upd_server (\<lambda>s. s\<lparr>ts_socket := Some lsk1\<rparr>) (W\<lparr>sw_os := w\<rparr>))
      else Inr (accept_failed E client lsk1 (upd_server (\<lambda>s. s\<lparr>ts_socket := Some lsk1\<rparr>) (W\<lparr>sw_os := w\<rparr>)))) = Inr W'"
    by (auto simp: Server_handleRead_def in_thread_def AssertInLoopThread_def Let_def bindr_eq_Inr guard_eq_Inr
        split: option.splits)
  define W1 where "W1 = upd_server (\<lambda>s. s\<lparr>ts_socket := Some lsk1\<rparr>) (W\<lparr>sw_os := w\<rparr>)"
  have "same_srv W W1" by (simp add: W1_def same_srv_def upd_server_def)
  then have inv1: "srv_inv W1" by (rule same_srv_inv [OF _ W])
  show ?thesis
  proof (cases res)
    case True
    then show ?thesis using next_W newConnection_inv [OF inv1, of E client W'] by (simp add: W1_def)
  next
    case False
    then have W': "W' = accept_failed E client lsk1 W1" using next_W by (simp add: W1_def)
    show ?thesis unfolding W' by (rule same_srv_inv [OF accept_failed_same inv1])
  qed
qed

section \<open>Removing a connection\<close>

lemma conns_ok_remove:
  assumes W: "conns_ok W" and i: "i < length (sw_objs W)"
    and W': "sw_objs W' = sw_objs W" "sw_removed W' = i # sw_removed W"
      "connections (sw_server W') = AList.delete (o_name (sw_objs W ! i)) (connections (sw_server W))"
  shows "conns_ok W'"
  unfolding conns_ok_def
proof (intro impI allI)
  let ?nm = "o_name (sw_objs W ! i)"
  fix x j
  assume "distinct (map o_name (sw_objs W'))"
  then have d: "distinct (map o_name (sw_objs W))" by (simp add: W')
  then have same: "k = i" if "k < length (sw_objs W)" "o_name (sw_objs W ! k) = ?nm" for k
    using that i by (simp add: distinct_conv_nth) metis
  have live: "(x, j) \<in> live_conns W' \<longleftrightarrow> (x, j) \<in> live_conns W \<and> j \<noteq> i"
    by (auto simp: live_conns_def W')
  have m: "map_of (connections (sw_server W)) x = Some j \<longleftrightarrow> (x, j) \<in> live_conns W"
    using W d by (simp add: conns_ok_def)
  have "x = ?nm" if "(x, i) \<in> live_conns W" using that by (auto simp: live_conns_def)
  moreover have "j = i" if "(?nm, j) \<in> live_conns W" using that same by (auto simp: live_conns_def)
  ultimately show "map_of (connections (sw_server W')) x = Some j \<longleftrightarrow> (x, j) \<in> live_conns W'"
    using m live by (auto simp: W'(3) delete_conv')
qed

lemma removeConnectionInLoop_inv:
  assumes W: "srv_inv W" and i: "removals W i = 0" "i < length (sw_objs W)"
      "Established (o_loop (sw_objs W ! i)) i \<in> set (sw_log W)"
    and run: "removeConnectionInLoop i W = Inr W'"
  shows "srv_inv W'"
proof -
  let ?l = "o_loop (sw_objs W ! i)" and ?nm = "o_name (sw_objs W ! i)"
  define V where "V = (upd_server (\<lambda>s. s\<lparr>connections := AList.delete ?nm (connections (sw_server W))\<rparr>) W)
    \<lparr>sw_removed := i # sw_removed W\<rparr>"
  have W': "W' = queue_in ?l (SDestroy i) V"
    using run by (auto simp: removeConnectionInLoop_def in_thread_def AssertInLoopThread_def guard_eq_Inr Let_def
        upd_server_def V_def)
  have V: "sw_objs V = sw_objs W" "sw_log V = sw_log W" "sw_queue V = sw_queue W" "sw_removed V = i # sw_removed W"
    "owned_by V = owned_by W" "ts_loop (sw_server V) = ts_loop (sw_server W)"
    by (simp_all add: V_def upd_server_def owned_by_def fun_eq_iff)
  have notin: "i \<notin> set (sw_removed W)" using i(1) by (simp add: removals_def count_list_0_iff)
  have inv: "conn_calls_ok W" "names_ok W" "conns_ok W" using W unfolding srv_inv_def by blast+
  note D = conn_calls_okD [OF inv(1)]
  have cnt: "establishes W' l j = establishes W l j"
    "destroys W' l j = destroys W l j + (if l = ?l \<and> j = i then 1 else 0)"
    "removals W' j = removals W j + (if j = i then 1 else 0)" for l j
    unfolding W' count_queue_in by (auto simp: count_defs V)
  have own: "owned_by W l i \<longleftrightarrow> l = ?l" for l using i(2) by (auto simp: owned_by_def)
  have f: "sw_objs W' = sw_objs W" "sw_log W' = sw_log W" "sw_removed W' = i # sw_removed W" "owned_by W' = owned_by W"
    "ts_loop (sw_server W') = ts_loop (sw_server W)" "SRemove j \<in> set (sw_queue W' l) \<longleftrightarrow> SRemove j \<in> set (sw_queue W l)"
    for j l unfolding W' by (simp_all add: V)
  have "conn_calls_ok W'"
    unfolding conn_calls_ok_def
  proof (intro conjI allI impI)
    show "establishes W' l j = (if owned_by W' l j then 1 else 0)" for l j
      using D(1) [of l j] by (simp add: cnt f)
    show "destroys W' l j = (if owned_by W' l j \<and> j \<in> set (sw_removed W') then 1 else 0)" for l j
      using D(2) [of l j] notin by (cases "j = i") (simp_all add: cnt f own)
    show "removals W' j \<le> 1" for j using D(3) [of j] i(1) by (simp add: cnt)
    show "j < length (sw_objs W')" if "0 < removals W' j" for j
      using D(4) [of j] that i(2) by (cases "j = i") (simp_all add: cnt f)
    show "Established (o_loop (sw_objs W' ! j)) j \<in> set (sw_log W')" if "0 < removals W' j" for j
      using D(5) [of j] that i(3) by (cases "j = i") (simp_all add: cnt f)
    show "SRemove j \<notin> set (sw_queue W' l)" if "l \<noteq> ts_loop (sw_server W')" for l j
      using D(6) [of l j] that by (simp add: f)
  qed
  moreover have "names_ok W'"
    using inv(2) by (simp add: W' names_ok_def V) (simp add: V_def upd_server_def conn_name_def)
  moreover have "conns_ok W'"
    by (rule conns_ok_remove [OF inv(3) i(2)]) (simp_all add: W' V, simp add: V_def upd_server_def)
  ultimately show ?thesis by (simp add: srv_inv_def)
qed

lemma removeConnection_inv:
  assumes W: "srv_inv W" and i: "may_close i W" and run: "removeConnection i W = Inr W'"
  shows "srv_inv W'"
proof -
  have r: "removals W i = 0" "i < length (sw_objs W)" "Established (o_loop (sw_objs W ! i)) i \<in> set (sw_log W)"
    using i by (simp_all add: may_close_def removals_def count_list_0_iff)
  show ?thesis
  proof (cases "sw_thread W = ts_loop (sw_server W)")
    case True
    then show ?thesis using removeConnectionInLoop_inv [OF W r] run by (simp add: removeConnection_def)
  next
    case False
    then have W': "W' = queue_in (ts_loop (sw_server W)) (SRemove i) W" using run by (simp add: removeConnection_def)
    have inv: "conn_calls_ok W" "names_ok W" "conns_ok W" using W unfolding srv_inv_def by blast+
    note D = conn_calls_okD [OF inv(1)]
    have cnt: "establishes W' = establishes W" "destroys W' = destroys W"
      "removals W' j = removals W j + (if j = i then 1 else 0)" for j
      unfolding W' by (auto simp: fun_eq_iff count_queue_in)
    have f: "sw_objs W' = sw_objs W" "sw_log W' = sw_log W" "sw_removed W' = sw_removed W" "owned_by W' = owned_by W"
      "sw_server W' = sw_server W" unfolding W' by simp_all
    have "conn_calls_ok W'"
      unfolding conn_calls_ok_def
    proof (intro conjI allI impI)
      show "removals W' j \<le> 1" for j using D(3) [of j] r(1) by (simp add: cnt)
      show "j < length (sw_objs W')" if "0 < removals W' j" for j
        using D(4) [of j] that r(2) by (cases "j = i") (simp_all add: cnt f)
      show "Established (o_loop (sw_objs W' ! j)) j \<in> set (sw_log W')" if "0 < removals W' j" for j
        using D(5) [of j] that r(3) by (cases "j = i") (simp_all add: cnt f)
      show "SRemove j \<notin> set (sw_queue W' l)" if "l \<noteq> ts_loop (sw_server W')" for l j
        using D(6) [of l j] that unfolding W' by simp
    qed (simp_all add: cnt f D)
    then show ?thesis using inv(2,3) by (simp add: srv_inv_def W' names_queue_in)
  qed
qed

section \<open>Functors\<close>

text \<open>The world after a functor has been taken out of its queue.\<close>

definition pop :: "loop_id \<Rightarrow> srv_functor list \<Rightarrow> srv_world \<Rightarrow> srv_world" where
  "pop l gs W = W\<lparr>sw_queue := (sw_queue W)(l := gs)\<rparr>"

lemma fields_pop [simp]:
  "sw_objs (pop l gs W) = sw_objs W" "sw_log (pop l gs W) = sw_log W" "sw_removed (pop l gs W) = sw_removed W"
  "sw_server (pop l gs W) = sw_server W" "owned_by (pop l gs W) = owned_by W" "live_conns (pop l gs W) = live_conns W"
  by (simp_all add: pop_def owned_by_def live_conns_def fun_eq_iff)

lemma names_pop: "names_ok (pop l gs W) = names_ok W" "conns_ok (pop l gs W) = conns_ok W"
  by (simp_all only: names_ok_def conns_ok_def fields_pop)

lemma count_pop:
  assumes "sw_queue W l = g # gs"
  shows "establishes W l' i = establishes (pop l gs W) l' i + (if l' = l \<and> g = SEstablish i then 1 else 0)"
    "destroys W l' i = destroys (pop l gs W) l' i + (if l' = l \<and> g = SDestroy i then 1 else 0)"
    "removals W i = removals (pop l gs W) i + (if ts_loop (sw_server W) = l \<and> g = SRemove i then 1 else 0)"
    "set (sw_queue (pop l gs W) l') \<subseteq> set (sw_queue W l')"
  using assms by (auto simp: count_defs pop_def)

text \<open>The functor is called, and recorded when it is a call on a connection.\<close>

lemma pop_event_calls:
  assumes W: "conn_calls_ok W" and q: "sw_queue W l = g # gs"
    and W': "g = SEstablish i \<and> W' = record_event (Established l i) (pop l gs W) \<or>
      g = SDestroy i \<and> W' = record_event (Destroyed l i) (pop l gs W) \<or>
      g = SListen \<and> W' = pop l gs W \<or> g = SRemove i \<and> W' = pop l gs W"
  shows "conn_calls_ok W'"
proof -
  note D = conn_calls_okD [OF W]
  have cnt: "establishes W' = establishes W" "destroys W' = destroys W" "removals W' j \<le> removals W j" for j
    using W' by (auto simp: fun_eq_iff count_pop [OF q] count_record_event split: if_splits)
  have f: "sw_objs W' = sw_objs W" "set (sw_log W) \<subseteq> set (sw_log W')" "sw_removed W' = sw_removed W"
    "owned_by W' = owned_by W" "sw_server W' = sw_server W" "set (sw_queue W' l') \<subseteq> set (sw_queue W l')" for l'
    using W' count_pop(4) [OF q, of l'] by auto
  show ?thesis
    unfolding conn_calls_ok_def
  proof (intro conjI allI impI)
    show "removals W' j \<le> 1" for j using D(3) [of j] cnt(3) [of j] by linarith
    show "j < length (sw_objs W')" if "0 < removals W' j" for j
      using D(4) [of j] that cnt(3) [of j] by (simp add: f)
    show "Established (o_loop (sw_objs W' ! j)) j \<in> set (sw_log W')" if "0 < removals W' j" for j
      using D(5) [of j] that cnt(3) [of j] f(2) by (auto simp: f(1))
    show "SRemove j \<notin> set (sw_queue W' l')" if "l' \<noteq> ts_loop (sw_server W')" for l' j
      using D(6) [of l' j] that f(6) [of l'] by (auto simp: f(5))
  qed (simp_all add: cnt f D)
qed

lemma call_srv_functor_inv:
  assumes W: "srv_inv W" and q: "sw_queue W l = g # gs" and run: "call_srv_functor E l g (pop l gs W) = Inr W'"
  shows "srv_inv W'"
proof -
  have inv: "conn_calls_ok W" "names_ok W" "conns_ok W" using W unfolding srv_inv_def by blast+
  note D = conn_calls_okD [OF inv(1)]
  have names: "names_ok V \<and> conns_ok V" if "V = record_event e (pop l gs W) \<or> V = pop l gs W" for V e
    using that inv(2,3) names_pop [of l gs W] by (auto simp: names_ok_def conns_ok_def)
  show ?thesis
  proof (cases g)
    case SListen
    then have "conn_calls_ok (pop l gs W)" using pop_event_calls [OF inv(1) q] by blast
    then have inv0: "srv_inv (pop l gs W)" using names by (simp add: srv_inv_def)
    have "createSocketAndListen E (pop l gs W) = Inr W'" using run SListen by simp
    from same_srv_inv [OF createSocketAndListen_same [OF this] inv0] show ?thesis .
  next
    case (SRemove i)
    then have "conn_calls_ok (pop l gs W)" using pop_event_calls [OF inv(1) q] by blast
    then have inv0: "srv_inv (pop l gs W)" using names by (simp add: srv_inv_def)
    have l: "ts_loop (sw_server W) = l" using D(6) [of l i] q SRemove by auto
    have "removals W i = 1" "removals (pop l gs W) i = 0"
      using count_pop(3) [OF q, of i] D(3) [of i] SRemove l by simp_all
    with D(4,5) [of i] show ?thesis
      using removeConnectionInLoop_inv [OF inv0, of i W'] run SRemove by simp
  next
    case (SEstablish i)
    then have W': "W' = record_event (Established l i) (pop l gs W)" using run by simp
    have "conn_calls_ok W'" using pop_event_calls [OF inv(1) q, of i W'] SEstablish W' by blast
    moreover have "names_ok W' \<and> conns_ok W'" using names W' by blast
    ultimately show ?thesis by (simp add: srv_inv_def)
  next
    case (SDestroy i)
    then have W': "W' = record_event (Destroyed l i) (pop l gs W)" using run by simp
    have "conn_calls_ok W'" using pop_event_calls [OF inv(1) q, of i W'] SDestroy W' by blast
    moreover have "names_ok W' \<and> conns_ok W'" using names W' by blast
    ultimately show ?thesis by (simp add: srv_inv_def)
  qed
qed

lemma srv_step_inv:
  assumes "srv_step E W W'" "srv_inv W"
  shows "srv_inv W'"
  using assms(1)
proof cases
  case (threads n)
  then have "same_srv W W'" by (auto simp: Server_SetThreadNum_def same_srv_def upd_server_def guard_eq_Inr)
  then show ?thesis by (rule same_srv_inv [OF _ assms(2)])
next
  case (set_write_complete cb)
  then have "same_srv W W'" by (simp add: Server_SetWriteCompleteCallback_def same_srv_def upd_server_def)
  then show ?thesis by (rule same_srv_inv [OF _ assms(2)])
next
  case (call l g gs)
  then show ?thesis using call_srv_functor_inv [OF assms(2), of l g gs E W'] by (simp add: pop_def)
next
  case (thread l)
  then show ?thesis using same_srv_inv [OF _ assms(2), of W'] by (simp add: same_srv_def)
next
  case (other w s)
  then show ?thesis using same_srv_inv [OF _ assms(2), of W'] by (simp add: same_srv_def)
qed (use assms(2) Server_Start_inv Server_OnEvent_inv removeConnection_inv in blast)+

lemma TCPServer_fields:
  "TCPServer E c l h p n w = Inr (s, w') \<Longrightarrow> next_conn_id s = 1 \<and> connections s = []"
  by (auto simp: TCPServer_def guard_eq_Inr case_prod_beta)

lemma srv_start_inv:
  assumes "srv_start E W"
  shows "srv_inv W"
proof -
  obtain c l h p n w where "TCPServer E c l h p n w = Inr (sw_server W, sw_os W)"
    using assms by (auto simp: srv_start_def)
  then have "next_conn_id (sw_server W) = 1 \<and> connections (sw_server W) = []" by (rule TCPServer_fields)
  with assms show ?thesis
    by (simp add: srv_start_def srv_inv_def conn_calls_ok_def names_ok_def conns_ok_def live_conns_def count_defs)
qed

lemma srv_run_inv: "srv_run E W \<Longrightarrow> srv_inv W"
  by (induction rule: srv_run.induct) (rule srv_start_inv srv_step_inv, assumption+)+

end
