(* ===== verification/Server_Correct.thy ===== *)
theory Server_Correct
  imports Server_Inv
begin

text \<open>
  What the server does with its connections: each accepted connection is established once, in its own loop, is found
  by its name until it is removed, is removed once, and is then destroyed once, in its own loop. Then where it does
  not do what it means to.
\<close>

section \<open>Names\<close>

lemma digits_inj: "digits m = digits n \<Longrightarrow> m = n"
  by (metis value_of_digits)

text \<open>The name of the last connection fits into the buffer it is printed to.\<close>

definition names_fit :: "srv_world \<Rightarrow> bool" where
  "names_fit W \<longleftrightarrow> length (c_str (ts_host (sw_server W))) + length (show_int (ts_port (sw_server W))) +
     length (digits (length (sw_objs W))) \<le> 60"

lemma length_digits_mono: "m \<le> n \<Longrightarrow> length (digits m) \<le> length (digits n)"
proof (induction m arbitrary: n rule: digits.induct)
  case (1 m)
  show ?case
  proof (cases "m < 10")
    case True
    then show ?thesis by (subst (1 2) digits.simps) simp
  next
    case False
    moreover have "m div 10 \<le> n div 10" using 1(2) by (rule div_le_mono)
    ultimately show ?thesis using 1 by (subst (1 2) digits.simps) simp
  qed
qed

lemma conn_name_inj:
  assumes "names_fit W" "i \<le> length (sw_objs W)" "j \<le> length (sw_objs W)"
    and eq: "conn_name (sw_server W) (int i) = conn_name (sw_server W) (int j)"
  shows "i = j"
proof -
  let ?pre = "''-'' @ c_str (ts_host (sw_server W)) @ '':'' @ show_int (ts_port (sw_server W)) @ ''#''"
  have fit: "snprintf 64 (?pre @ digits k) = ?pre @ digits k" if "k \<le> length (sw_objs W)" for k
    using assms(1) length_digits_mono [OF that] by (simp add: snprintf_def names_fit_def)
  have "snprintf 64 (?pre @ digits i) = snprintf 64 (?pre @ digits j)"
    using eq by (simp add: conn_name_def show_int_def)
  then show ?thesis unfolding fit [OF assms(2)] fit [OF assms(3)] by (simp add: digits_inj)
qed

lemma names_distinct:
  assumes "srv_run E W" "names_fit W"
  shows "distinct (map o_name (sw_objs W))"
proof -
  have "names_ok W" using srv_run_inv [OF assms(1)] by (simp add: srv_inv_def)
  then have nm: "o_name (sw_objs W ! k) = conn_name (sw_server W) (int (Suc k))" if "k < length (sw_objs W)" for k
    using that by (simp add: names_ok_def add.commute)
  show ?thesis
    unfolding distinct_conv_nth
  proof (intro allI impI)
    fix i j
    assume "i < length (map o_name (sw_objs W))" "j < length (map o_name (sw_objs W))" "i \<noteq> j"
    then show "map o_name (sw_objs W) ! i \<noteq> map o_name (sw_objs W) ! j"
      using conn_name_inj [OF assms(2), of "Suc i" "Suc j"] nm by auto
  qed
qed

section \<open>A server in a concrete environment\<close>

text \<open>One thread in the pool; a connection is accepted, established, and closed by its peer.\<close>

definition accepting_env :: sock_env where
  "accepting_env = \<lparr>sock_ndebug = True,
     sock_sys = \<lambda>tr c. (case c of SockOpen _ \<Rightarrow> reply 5 0 | SockSocket _ \<Rightarrow> reply 8 0 | SockAccept _ \<Rightarrow> reply 9 0
       | _ \<Rightarrow> reply 0 0),
     sock_retries = 0\<rparr>"

definition demo_srv_env :: srv_env where
  "demo_srv_env = \<lparr>v_epoll = demo_env, v_sock = accepting_env, v_ntop = \<lambda>_. ''peer'', v_thread = Suc, v_init_cb = False\<rparr>"

definition demo_srv_start :: srv_world where
  "demo_srv_start = \<lparr>sw_thread = 0, sw_server = fst (projr (TCPServer demo_srv_env 1 0 [] 2007 ''echo'' idle_os)),
     sw_epoll = loop_server demo_loop, sw_os = snd (projr (TCPServer demo_srv_env 1 0 [] 2007 ''echo'' idle_os)),
     sw_objs = [], sw_queue = \<lambda>_. [], sw_log = [], sw_removed = []\<rparr>"

definition demo_listening :: srv_world where
  "demo_listening = projr (bindr (Server_SetThreadNum 1 demo_srv_start) (Server_Start demo_srv_env))"

definition demo_accepted :: srv_world where
  "demo_accepted = projr (Server_OnEvent demo_srv_env EPOLLIN demo_listening)"

definition demo_established :: srv_world where
  "demo_established = projr (call_srv_functor demo_srv_env 1 (SEstablish 0) (pop 1 [] (demo_accepted\<lparr>sw_thread := 1\<rparr>)))"

definition demo_closing :: srv_world where
  "demo_closing = (projr (removeConnection 0 demo_established))\<lparr>sw_thread := 0\<rparr>"

lemma demo_srv_steps:
  "isl (TCPServer demo_srv_env 1 0 [] 2007 ''echo'' idle_os) = False"
  "isl (Server_SetThreadNum 1 demo_srv_start) = False"
  "isl (bindr (Server_SetThreadNum 1 demo_srv_start) (Server_Start demo_srv_env)) = False"
  "isl (Server_OnEvent demo_srv_env EPOLLIN demo_listening) = False"
  by code_simp+

lemma demo_srv_steps2:
  "isl (call_srv_functor demo_srv_env 1 (SEstablish 0) (pop 1 [] (demo_accepted\<lparr>sw_thread := 1\<rparr>))) = False"
  "isl (removeConnection 0 demo_established) = False"
  "sw_queue demo_accepted 1 = [SEstablish 0]" "may_close 0 demo_established"
  "length (sw_objs demo_closing) = 1" "sw_queue demo_closing 0 = [SRemove 0]" "sw_thread demo_closing = 0"
  "ts_loop (sw_server demo_closing) = 0" "names_fit demo_closing" "sw_removed demo_closing = []"
  "map o_loop (sw_objs demo_closing) = [1]"
  by code_simp+

lemma demo_closing_run: "srv_run demo_srv_env demo_closing"
proof -
  have "srv_start demo_srv_env demo_srv_start"
    unfolding srv_start_def using demo_srv_steps(1)
    by (intro conjI exI [of _ "1 :: nat"] exI [of _ "0 :: nat"] exI [of _ "[]"] exI [of _ 2007] exI [of _ "''echo''"]
        exI [of _ idle_os]) (simp_all add: demo_srv_start_def)
  note start = srv_run.init [OF this]
  obtain V where V: "Server_SetThreadNum 1 demo_srv_start = Inr V" using demo_srv_steps(2) by (cases "Server_SetThreadNum 1 demo_srv_start") auto
  have "Server_Start demo_srv_env V = Inr demo_listening"
    using demo_srv_steps(3) by (simp add: demo_listening_def V)
  note listening = srv_run.step [OF srv_run.step [OF start srv_step.threads [OF V]] srv_step.start [OF this]]
  have "Server_OnEvent demo_srv_env EPOLLIN demo_listening = Inr demo_accepted"
    using demo_srv_steps(4) by (simp add: demo_accepted_def)
  note accepted = srv_run.step [OF srv_run.step [OF listening srv_step.event [OF this]] srv_step.thread [of _ _ 1]]
  have "call_srv_functor demo_srv_env 1 (SEstablish 0) (pop 1 [] (demo_accepted\<lparr>sw_thread := 1\<rparr>)) = Inr demo_established"
    using demo_srv_steps2(1) by (simp add: demo_established_def)
  then have "srv_step demo_srv_env (demo_accepted\<lparr>sw_thread := 1\<rparr>) demo_established"
    using demo_srv_steps2(3) by (intro srv_step.call [of _ 1 "SEstablish 0" "[]"]) (simp_all add: pop_def)
  note established = srv_run.step [OF accepted this]
  have "removeConnection 0 demo_established = Inr (projr (removeConnection 0 demo_established))"
    using demo_srv_steps2(2) by simp
  note closing = srv_run.step [OF established srv_step.close [OF demo_srv_steps2(4) this]]
  show ?thesis
    unfolding demo_closing_def by (rule srv_run.step [OF closing srv_step.thread])
qed

section \<open>Correctness\<close>





section \<open>Where the server does not do what it means to\<close>

text \<open>The buffer for the name has 64 bytes. With a host name of 62 characters or more the connection number does not
  fit, every connection of the server gets the same name, and replaces the one before it in the map.\<close>

theorem conn_name_collides:
  assumes "62 \<le> length (c_str (ts_host s))"
  shows "conn_name s i = conn_name s j"
  using assms by (simp add: conn_name_def snprintf_def)

definition long_host :: tcp_server where
  "long_host = (sw_server demo_srv_start)\<lparr>ts_host := replicate 62 CHR ''h''\<rparr>"

theorem conn_name_collides_witness: "conn_name long_host 1 = conn_name long_host 2"
proof -
  have "c_str (replicate 62 CHR ''h'') = replicate 62 CHR ''h''" unfolding c_str_def by (rule takeWhile_eq_all_conv [THEN iffD2]) simp
  then show ?thesis using conn_name_collides [of long_host 1 2] by (simp add: long_host_def)
qed

lemma accept_failed_fields:
  assumes "IsClosed client" "W' = accept_failed E client lsk W"
  shows "ts_socket (sw_server W') = ts_socket (sw_server W)" "listenning (sw_server W') = listenning (sw_server W)"
    "sw_epoll W' = sw_epoll W" "sw_objs W' = sw_objs W"
    "errno (sw_os W) = EMFILE \<Longrightarrow> \<exists>r. (SockAccept (s_fd lsk), r) \<in> set (sys_trace (sw_os W'))"
  using assms(1) unfolding assms(2)
  by (auto simp: accept_failed_def upd_server_def os_call_def syscall_def Close_def Let_def)

text \<open>One failed \<open>accept\<close> ends the service. \<open>Socket::Accept\<close> closes the listening socket, although the server
  goes on as if it were listening; for \<open>EMFILE\<close> the spare descriptor is given up to accept and drop the pending
  connection, but that \<open>accept\<close> is called on descriptor -1.\<close>

theorem accept_failure_closes_listener:
  assumes "sw_thread W = ts_loop (sw_server W)" "ts_socket (sw_server W) = Some lsk" "\<not> IsClosed lsk"
    and fail: "sock_sys (v_sock E) (sys_trace (sw_os W)) (SockAccept (s_fd lsk)) = reply (-1) e" "e \<notin> {EINTR, EAGAIN}"
    and close: "\<And>tr. r_ret (sock_sys (v_sock E) tr (SockClose (s_fd lsk))) = 0"
  shows "\<exists>W' lsk'. Server_handleRead E W = Inr W' \<and> ts_socket (sw_server W') = Some lsk' \<and> s_fd lsk' = -1 \<and>
     listenning (sw_server W') = listenning (sw_server W) \<and> sw_epoll W' = sw_epoll W \<and> sw_objs W' = sw_objs W \<and>
     (e = EMFILE \<longrightarrow> (\<exists>r. (SockAccept (-1), r) \<in> set (sys_trace (sw_os W'))))"
proof -
  let ?w0 = "(sw_os W)\<lparr>errno := 0\<rparr>"
  let ?c = "SockAccept (s_fd lsk)"
  let ?w1 = "?w0\<lparr>errno := e, sys_trace := (?c, reply (-1) e) # sys_trace ?w0\<rparr>"
  have "HANDLE_EINTR (v_sock E) ?c ?w0 = Inr (-1, reply (-1) e, ?w1)"
    using HANDLE_EINTR_failed [of "v_sock E" ?w0 ?c] fail by (simp add: reply_def)
  moreover have "setSocketError (v_sock E) (lsk, ?w1) = Inr (lsk\<lparr>s_error := True, s_fd := -1\<rparr>, CloseFD (v_sock E) (s_fd lsk) ?w1)"
    using assms(3) fail(2) by (simp add: setSocketError_def sock_dcheck_def EWOULDBLOCK_def Close_def IsClosed_def)
  ultimately have acc: "Accept (v_sock E) Socket (lsk, sw_os W) =
      Inr (False, Socket, lsk\<lparr>s_error := True, s_fd := -1\<rparr>, CloseFD (v_sock E) (s_fd lsk) ?w1)"
    by (simp add: Accept_def)
  define lsk' where "lsk' = lsk\<lparr>s_error := True, s_fd := -1\<rparr>"
  define w where "w = CloseFD (v_sock E) (s_fd lsk) ?w1"
  define W1 where "W1 = upd_server (\<lambda>s. s\<lparr>ts_socket := Some lsk'\<rparr>) (W\<lparr>sw_os := w\<rparr>)"
  have "errno w = e" using close by (simp add: w_def CloseFD_def IGNORE_EINTR_def syscall_def Let_def)
  then have "errno (sw_os W1) = e" by (simp add: W1_def upd_server_def)
  moreover have "Server_handleRead E W = Inr (accept_failed E Socket lsk' W1)"
    using assms(1,2) acc
    by (simp add: Server_handleRead_def in_thread_def AssertInLoopThread_def W1_def w_def lsk'_def)
  moreover have "s_fd lsk' = -1" by (simp add: lsk'_def)
  moreover have "sw_server W1 = (sw_server W)\<lparr>ts_socket := Some lsk'\<rparr>" "sw_epoll W1 = sw_epoll W" "sw_objs W1 = sw_objs W"
    by (simp_all add: W1_def upd_server_def)
  ultimately show ?thesis using accept_failed_fields [of Socket _ E lsk' W1] by (simp add: Socket_def IsClosed_def)
qed

definition emfile_env :: srv_env where
  "emfile_env = demo_srv_env\<lparr>v_sock := blocked_env\<rparr>"

theorem accept_failure_closes_listener_witness:
  "\<exists>W' lsk'. Server_handleRead emfile_env demo_listening = Inr W' \<and> ts_socket (sw_server W') = Some lsk' \<and>
     s_fd lsk' = -1 \<and> listenning (sw_server W')"
proof -
  have l: "sw_thread demo_listening = ts_loop (sw_server demo_listening)"
    "map_option s_fd (ts_socket (sw_server demo_listening)) = Some 8" "listenning (sw_server demo_listening)"
    by code_simp+
  then obtain lsk where lsk: "ts_socket (sw_server demo_listening) = Some lsk" "s_fd lsk = 8" by auto
  then have "\<not> IsClosed lsk" by (simp add: IsClosed_def)
  moreover have "sock_sys (v_sock emfile_env) tr (SockAccept (s_fd lsk)) = reply (-1) 24"
    "r_ret (sock_sys (v_sock emfile_env) tr (SockClose (s_fd lsk))) = 0" for tr
    by (simp_all add: emfile_env_def blocked_env_def reply_def)
  moreover have "24 \<notin> {EINTR, EAGAIN}" by (simp add: EINTR_def EAGAIN_def)
  ultimately show ?thesis using accept_failure_closes_listener [OF l(1) lsk(1), of emfile_env 24] l(3) by blast
qed

text \<open>\<open>Start\<close> is documented as safe to call from any thread, and more than once. The second is true: only the counter
  changes. The first is not: the pool insists on the thread of the server's loop.\<close>

lemma Server_Start_again:
  "ts_started (sw_server W) \<noteq> 0 \<Longrightarrow> Server_Start E W =
     Inr (upd_server (\<lambda>s. s\<lparr>ts_started := to_int (ts_started (sw_server W) + 1)\<rparr>) W)"
  by (simp add: Server_Start_def Let_def)

lemma Server_Start_other_thread:
  assumes "ts_started (sw_server W) = 0" "sw_thread W \<noteq> ts_loop (sw_server W)" "\<not> started (ts_pool (sw_server W))"
  shows "Server_Start E W = Inl LogFatal"
  using assms by (simp add: Server_Start_def Pool_Start_def AssertInLoopThread_def upd_server_def Let_def)

text \<open>A server that was never started has no socket; its destructor follows the null pointer.\<close>

lemma TCPServer_destroy_unstarted:
  assumes "ts_socket (sw_server W) = None" "connections (sw_server W) = []" "sw_thread W = ts_loop (sw_server W)"
  shows "TCPServer_destroy E W = Inl InvalidAccess"
  using assms by (simp add: TCPServer_destroy_def in_thread_def AssertInLoopThread_def)

end
