(* ===== verification/TCP_Client.thy ===== *)
theory TCP_Client
  imports TCP_Connection
begin

text \<open>
  \<open>raner::TCPClient\<close> (\<open>raner/tcp_client.h\<close>, \<open>raner/tcp_client.cc\<close>): a socket that is being connected, the retries, and
  the connection that comes out of it.

  Everything runs in one loop, of which the world has the epoll server and the functors still to be called. The calls
  on a connection are recorded; what they do is the subject of \<open>TCP_Connection\<close>.
\<close>

section \<open>State\<close>

datatype client_state = Client_kDisconnected | Client_kConnecting | Client_kConnected

definition kMaxRetryIntervalMs :: int where "kMaxRetryIntervalMs = 30 * 1000"
definition kInitRetryIntervalMs :: int where "kInitRetryIntervalMs = 500"

definition kClientEpollFlags :: mask where
  "kClientEpollFlags = EPOLLOUT"

record tcp_client =
  cl_cb :: cb                              \<comment> \<open>\<open>this\<close>, as the server's callback\<close>
  cl_host :: string
  cl_port :: int
  cl_name :: string
  cl_connect :: bool                       \<comment> \<open>\<open>connect_\<close>\<close>
  cl_state :: client_state
  retry_interval_ms :: int
  cl_socket :: "socket option"
  reconnect_timer :: "epoll_timer option"
  cl_write_complete :: bool                \<comment> \<open>\<open>write_complete_callback_\<close> is set\<close>
  cl_retry :: bool                         \<comment> \<open>\<open>retry_\<close>\<close>
  cl_next_conn_id :: int
  cl_connection :: "nat option"            \<comment> \<open>\<open>connection_\<close>\<close>

datatype client_functor = KStart | KStop | KDestroy nat | KSetClose nat

datatype client_event =
    CEstablished nat
  | CShutdown nat
  | CForceClose nat
  | CDestroyed nat
  | CSetClose nat

record client_world =
  cw_in_loop :: bool
  cw_client :: tcp_client
  cw_epoll :: epoll_server
  cw_os :: os
  cw_objs :: "(string \<times> tcp_connection) list"   \<comment> \<open>the connections ever made\<close>
  cw_queue :: "client_functor list"
  cw_log :: "client_event list"                    \<comment> \<open>newest first\<close>

record client_env =
  k_epoll :: env
  k_sock :: sock_env
  k_alarm :: alarm                         \<comment> \<open>the alarm object of the timer\<close>

definition TCPClient :: "cb \<Rightarrow> string \<Rightarrow> int \<Rightarrow> string \<Rightarrow> tcp_client" where
  "TCPClient c host port name =
     \<lparr>cl_cb = c, cl_host = host, cl_port = port, cl_name = name, cl_connect = False, cl_state = Client_kDisconnected,
      retry_interval_ms = kInitRetryIntervalMs, cl_socket = None, reconnect_timer = None, cl_write_complete = False,
      cl_retry = False, cl_next_conn_id = 1, cl_connection = None\<rparr>"

section \<open>Helpers\<close>

definition upd_client :: "(tcp_client \<Rightarrow> tcp_client) \<Rightarrow> client_world \<Rightarrow> client_world" where
  "upd_client g W = W\<lparr>cw_client := g (cw_client W)\<rparr>"

definition client_in_loop :: "client_world \<Rightarrow> 'a res \<Rightarrow> 'a res" where
  "client_in_loop W k = AssertInLoopThread (cw_in_loop W) k"

definition client_queue :: "client_functor \<Rightarrow> client_world \<Rightarrow> client_world" where
  "client_queue g W = W\<lparr>cw_queue := cw_queue W @ [g]\<rparr>"

definition client_record :: "client_event \<Rightarrow> client_world \<Rightarrow> client_world" where
  "client_record e W = W\<lparr>cw_log := e # cw_log W\<rparr>"

definition client_epoll :: "client_env \<Rightarrow> server_op \<Rightarrow> client_world \<Rightarrow> client_world res" where
  "client_epoll E op W = mapr (\<lambda>s. W\<lparr>cw_epoll := s\<rparr>) (exec_op (k_epoll E) op (cw_epoll W))"

definition Client_setState :: "client_state \<Rightarrow> client_world \<Rightarrow> client_world" where
  "Client_setState st = upd_client (\<lambda>c. c\<lparr>cl_state := st\<rparr>)"

text \<open>\<open>socket_->\<close>: a null pointer is a fault.\<close>

definition with_socket :: "client_world \<Rightarrow> (socket \<Rightarrow> 'a res) \<Rightarrow> 'a res" where
  "with_socket W k = (case cl_socket (cw_client W) of None \<Rightarrow> Inl InvalidAccess | Some sk \<Rightarrow> k sk)"

definition close_socket :: "client_env \<Rightarrow> client_world \<Rightarrow> client_world res" where
  "close_socket E W =
     with_socket W (\<lambda>sk. case Close (k_sock E) (sk, cw_os W) of (sk', w) \<Rightarrow>
       Inr (upd_client (\<lambda>c. c\<lparr>cl_socket := Some sk'\<rparr>) (W\<lparr>cw_os := w\<rparr>)))"

definition unregister_socket :: "client_env \<Rightarrow> client_world \<Rightarrow> client_world res" where
  "unregister_socket E W = with_socket W (\<lambda>sk. client_epoll E (OpUnregisterFD (s_fd sk)) W)"

section \<open>Connecting\<close>

definition client_retry :: "client_env \<Rightarrow> client_world \<Rightarrow> client_world res" where
  "client_retry E W =
     bindr (close_socket E W) (\<lambda>W1.
     let W2 = Client_setState Client_kDisconnected W1; c = cw_client W2
     in if cl_connect c
        then let tm = (case reconnect_timer c of Some tm \<Rightarrow> tm | None \<Rightarrow> CreateTimer (k_alarm E) (Some 0))
             in case NowInUsec (k_epoll E) (cw_epoll W2) of (now, s) \<Rightarrow>
                bindr (time_add now (retry_interval_ms c * 1000)) (\<lambda>deadline.
                mapr (\<lambda>(tm', s'). upd_client (\<lambda>c. c\<lparr>reconnect_timer := Some tm',
                          retry_interval_ms := min (retry_interval_ms c * 2) kMaxRetryIntervalMs\<rparr>) (W2\<lparr>cw_epoll := s'\<rparr>))
                  (Timer_Update (k_epoll E) deadline tm s))
        else Inr W2)"

definition connecting :: "client_env \<Rightarrow> client_world \<Rightarrow> client_world res" where
  "connecting E W =
     (let W1 = Client_setState Client_kConnecting W
      in with_socket W1 (\<lambda>sk. client_epoll E (OpRegisterFD (s_fd sk) (cl_cb (cw_client W1)) kClientEpollFlags) W1))"

text \<open>\<open>socket_.reset\<close> destroys the old socket after the new one has been made.\<close>

definition client_connect :: "client_env \<Rightarrow> client_world \<Rightarrow> client_world res" where
  "client_connect E W =
     (let w0 = (case cl_socket (cw_client W) of None \<Rightarrow> cw_os W | Some old \<Rightarrow> snd (Close (k_sock E) (old, cw_os W)))
      in bindr (Socket_Connect (k_sock E) (cl_host (cw_client W)) (cl_port (cw_client W)) (Socket, w0)) (\<lambda>(ok, sk, w).
         let W1 = upd_client (\<lambda>c. c\<lparr>cl_socket := Some sk\<rparr>) (W\<lparr>cw_os := w\<rparr>)
         in if \<not> ok then client_retry E W1 else connecting E W1))"

definition startInLoop :: "client_env \<Rightarrow> client_world \<Rightarrow> client_world res" where
  "startInLoop E W =
     client_in_loop W (guard AssertFailed (cl_state (cw_client W) = Client_kDisconnected)
       (if cl_connect (cw_client W) then client_connect E W else Inr W))"

definition restart :: "client_env \<Rightarrow> client_world \<Rightarrow> client_world res" where
  "restart E W =
     client_in_loop W (startInLoop E
       (upd_client (\<lambda>c. c\<lparr>cl_state := Client_kDisconnected, retry_interval_ms := kInitRetryIntervalMs, cl_connect := True\<rparr>) W))"

definition stopInLoop :: "client_env \<Rightarrow> client_world \<Rightarrow> client_world res" where
  "stopInLoop E W =
     client_in_loop W
      (if cl_state (cw_client W) = Client_kConnecting
       then bindr (unregister_socket E (Client_setState Client_kDisconnected W)) (client_retry E)
       else Inr W)"

definition Connect :: "client_env \<Rightarrow> client_world \<Rightarrow> client_world res" where
  "Connect E W =
     (let W1 = upd_client (\<lambda>c. c\<lparr>cl_connect := True\<rparr>) W
      in if cw_in_loop W1 then startInLoop E W1 else Inr (client_queue KStart W1))"

definition Stop :: "client_world \<Rightarrow> client_world" where
  "Stop W = client_queue KStop (upd_client (\<lambda>c. c\<lparr>cl_connect := False\<rparr>) W)"

definition Disconnect :: "client_world \<Rightarrow> client_world" where
  "Disconnect W =
     (let W1 = upd_client (\<lambda>c. c\<lparr>cl_connect := False\<rparr>) W
      in case cl_connection (cw_client W1) of None \<Rightarrow> W1 | Some i \<Rightarrow> client_record (CShutdown i) W1)"

definition EnableRetry :: "client_world \<Rightarrow> client_world" where
  "EnableRetry = upd_client (\<lambda>c. c\<lparr>cl_retry := True\<rparr>)"

definition Client_SetWriteCompleteCallback :: "bool \<Rightarrow> client_world \<Rightarrow> client_world" where
  "Client_SetWriteCompleteCallback cb = upd_client (\<lambda>c. c\<lparr>cl_write_complete := cb\<rparr>)"

section \<open>The connection\<close>

definition client_conn_name :: "tcp_client \<Rightarrow> string" where
  "client_conn_name c =
     cl_name c @ snprintf 32 ('':'' @ c_str (cl_host c) @ '':'' @ digits (nat (cl_port c mod 2 ^ 32)) @ ''#'' @
       show_int (cl_next_conn_id c))"

definition Client_newConnection :: "client_env \<Rightarrow> client_world \<Rightarrow> client_world res" where
  "Client_newConnection E W =
     client_in_loop W
      (guard SignedOverflow (cl_next_conn_id (cw_client W) + 1 < 2 ^ 31)
        (with_socket W (\<lambda>sk.
          let c = cw_client W; i = length (cw_objs W); name = client_conn_name c
          in case TCPConnection (k_sock E) i sk (cw_os W) of (conn, w) \<Rightarrow>
             Inr (client_record (CEstablished i)
               (W\<lparr>cw_client := c\<lparr>cl_next_conn_id := cl_next_conn_id c + 1, cl_socket := None, cl_connection := Some i\<rparr>,
                  cw_os := w, cw_objs := cw_objs W @ [(name, conn\<lparr>c_write_complete := cl_write_complete c\<rparr>)]\<rparr>)))))"

definition Client_removeConnection :: "client_env \<Rightarrow> nat \<Rightarrow> client_world \<Rightarrow> client_world res" where
  "Client_removeConnection E i W =
     client_in_loop W (guard AssertFailed (cl_connection (cw_client W) = Some i)
       (let W1 = client_queue (KDestroy i) (upd_client (\<lambda>c. c\<lparr>cl_connection := None\<rparr>) W)
        in if cl_retry (cw_client W1) \<and> cl_connect (cw_client W1) then restart E W1 else Inr W1))"

section \<open>Events\<close>

definition client_error :: "client_env \<Rightarrow> client_world \<Rightarrow> (int \<times> client_world) res" where
  "client_error E W =
     with_socket W (\<lambda>sk. case GetSocketError (k_sock E) (sk, cw_os W) of (err, w) \<Rightarrow> Inr (err, W\<lparr>cw_os := w\<rparr>))"

definition Client_handleWrite :: "client_env \<Rightarrow> client_world \<Rightarrow> client_world res" where
  "Client_handleWrite E W =
     (if cl_state (cw_client W) = Client_kConnecting
      then bindr (unregister_socket E W) (\<lambda>W1.
           bindr (client_error E W1) (\<lambda>(err, W2).
           if err \<noteq> 0 then client_retry E W2
           else let W3 = Client_setState Client_kConnected W2
                in if cl_connect (cw_client W3) then Client_newConnection E W3 else close_socket E W3))
      else guard AssertFailed (cl_state (cw_client W) = Client_kDisconnected) (Inr W))"

definition Client_handleError :: "client_env \<Rightarrow> client_world \<Rightarrow> client_world res" where
  "Client_handleError E W =
     (if cl_state (cw_client W) = Client_kConnecting
      then bindr (unregister_socket E W) (\<lambda>W1.
           bindr (client_error E W1) (\<lambda>(err, W2). if err \<noteq> 0 then client_retry E W2 else Inr W2))
      else Inr W)"

definition Client_OnEvent :: "client_env \<Rightarrow> mask \<Rightarrow> client_world \<Rightarrow> client_world res" where
  "Client_OnEvent E in_events W =
     bindr (if in_events AND EPOLLOUT \<noteq> 0 then Client_handleWrite E W else Inr W) (\<lambda>W1.
     if in_events AND EPOLLERR \<noteq> 0 then Client_handleError E W1 else Inr W1)"

section \<open>The end\<close>

text \<open>The close callback that the destructor gives the connection.\<close>

definition detail_removeConnection :: "nat \<Rightarrow> client_world \<Rightarrow> client_world" where
  "detail_removeConnection i W = client_queue (KDestroy i) W"

text \<open>The members, last declared first: the alarm of the timer unregisters itself, then the socket closes.\<close>

definition destroy_members :: "client_env \<Rightarrow> client_world \<Rightarrow> client_world res" where
  "destroy_members E W =
     mapr (\<lambda>s. W\<lparr>cw_epoll := s,
            cw_os := (case cl_socket (cw_client W) of None \<Rightarrow> cw_os W | Some sk \<Rightarrow> snd (Close (k_sock E) (sk, cw_os W)))\<rparr>)
       (case reconnect_timer (cw_client W) of None \<Rightarrow> Inr (cw_epoll W)
        | Some tm \<Rightarrow> UnregisterIfRegistered (epoll_timer_impl tm) (cw_epoll W))"

text \<open>\<open>unique\<close>: the client holds the only reference to the connection.\<close>

definition TCPClient_destroy :: "client_env \<Rightarrow> bool \<Rightarrow> client_world \<Rightarrow> client_world res" where
  "TCPClient_destroy E unique W =
     (case cl_connection (cw_client W) of
        Some i \<Rightarrow>
          let W1 = (if cw_in_loop W then client_record (CSetClose i) W else client_queue (KSetClose i) W)
          in destroy_members E (if unique then client_record (CForceClose i) W1 else W1)
      | None \<Rightarrow>
          bindr (if cl_state (cw_client W) = Client_kConnecting
                 then unregister_socket E (Client_setState Client_kDisconnected W) else Inr W) (destroy_members E))"

text \<open>A functor, called by the loop.\<close>

fun call_client_functor :: "client_env \<Rightarrow> client_functor \<Rightarrow> client_world \<Rightarrow> client_world res" where
  "call_client_functor E KStart W = startInLoop E W"
| "call_client_functor E KStop W = stopInLoop E W"
| "call_client_functor E (KDestroy i) W = Inr (client_record (CDestroyed i) W)"
| "call_client_functor E (KSetClose i) W = Inr (client_record (CSetClose i) W)"

end
