(* ===== verification/Client_Correct.thy ===== *)
theory Client_Correct
  imports TCP_Client
begin

text \<open>
  The runs of a client and their invariant; the intervals of the retries; what becomes of a client whose connection
  ends or whose attempt fails without an error.
\<close>

section \<open>Attempts\<close>

definition backoff :: "nat \<Rightarrow> int" where
  "backoff k = min (kInitRetryIntervalMs * 2 ^ k) kMaxRetryIntervalMs"

lemma backoff_0: "backoff 0 = kInitRetryIntervalMs"
  by (simp add: backoff_def kInitRetryIntervalMs_def kMaxRetryIntervalMs_def)

lemma backoff_Suc: "min (backoff k * 2) kMaxRetryIntervalMs = backoff (Suc k)"
  by (simp add: backoff_def kInitRetryIntervalMs_def kMaxRetryIntervalMs_def min_def)

lemma backoff_bounds: "kInitRetryIntervalMs \<le> backoff k" "backoff k \<le> kMaxRetryIntervalMs"
  by (simp_all add: backoff_def kInitRetryIntervalMs_def kMaxRetryIntervalMs_def)

lemmas client_upd_defs = upd_client_def Client_setState_def client_queue_def client_record_def

lemma client_in_loop_eq [res_simps]: "client_in_loop W k = Inr x \<longleftrightarrow> cw_in_loop W \<and> k = Inr x"
  by (auto simp: client_in_loop_def AssertInLoopThread_def guard_def split: if_splits)

lemma with_socket_eq [res_simps]:
  "with_socket W k = Inr x \<longleftrightarrow> (\<exists>sk. cl_socket (cw_client W) = Some sk \<and> k sk = Inr x)"
  by (auto simp: with_socket_def split: option.splits)

lemma close_socket_eq:
  "close_socket E W = Inr W' \<longleftrightarrow> (\<exists>sk. cl_socket (cw_client W) = Some sk \<and>
     W' = W\<lparr>cw_os := snd (Close (k_sock E) (sk, cw_os W)), cw_client := (cw_client W)\<lparr>
       cl_socket := Some (fst (Close (k_sock E) (sk, cw_os W)))\<rparr>\<rparr>)"
  by (auto simp: close_socket_def res_simps upd_client_def case_prod_beta)

lemma client_epoll_eq:
  "client_epoll E op W = Inr W' \<longleftrightarrow> (\<exists>s. exec_op (k_epoll E) op (cw_epoll W) = Inr s \<and> W' = W\<lparr>cw_epoll := s\<rparr>)"
  by (cases "exec_op (k_epoll E) op (cw_epoll W)") (auto simp: client_epoll_def mapr_def)

lemma unregister_socket_eq:
  "unregister_socket E W = Inr W' \<longleftrightarrow> (\<exists>sk s. cl_socket (cw_client W) = Some sk \<and>
     exec_op (k_epoll E) (OpUnregisterFD (s_fd sk)) (cw_epoll W) = Inr s \<and> W' = W\<lparr>cw_epoll := s\<rparr>)"
  by (auto simp: unregister_socket_def with_socket_eq client_epoll_eq)

lemma client_error_eq:
  "client_error E W = Inr (err, W') \<longleftrightarrow> (\<exists>sk. cl_socket (cw_client W) = Some sk \<and>
     err = fst (GetSocketError (k_sock E) (sk, cw_os W)) \<and>
     W' = W\<lparr>cw_os := snd (GetSocketError (k_sock E) (sk, cw_os W))\<rparr>)"
  by (auto simp: client_error_def with_socket_eq case_prod_beta)

text \<open>What an attempt to connect, and giving one up, leave alone, and the states they end in.\<close>

definition attempt :: "client_world \<Rightarrow> client_world \<Rightarrow> bool" where
  "attempt W W' \<longleftrightarrow> cw_objs W' = cw_objs W \<and> cw_log W' = cw_log W \<and> cw_queue W' = cw_queue W \<and>
     cl_connection (cw_client W') = cl_connection (cw_client W) \<and>
     cl_next_conn_id (cw_client W') = cl_next_conn_id (cw_client W) \<and>
     cl_state (cw_client W') \<noteq> Client_kConnected \<and>
     (cl_state (cw_client W') = Client_kConnecting \<longrightarrow> cl_socket (cw_client W') \<noteq> None) \<and>
     (retry_interval_ms (cw_client W) \<in> range backoff \<longrightarrow> retry_interval_ms (cw_client W') \<in> range backoff)"

lemma client_retry_eq:
  assumes "client_retry E W = Inr W'"
  obtains sk W1 where "cl_socket (cw_client W) = Some sk"
    "W1 = W\<lparr>cw_os := snd (Close (k_sock E) (sk, cw_os W)), cw_client := (cw_client W)\<lparr>
       cl_socket := Some (fst (Close (k_sock E) (sk, cw_os W))), cl_state := Client_kDisconnected\<rparr>\<rparr>"
    "\<not> cl_connect (cw_client W) \<Longrightarrow> W' = W1"
    "cl_connect (cw_client W) \<Longrightarrow> \<exists>now s d tm' s'. NowInUsec (k_epoll E) (cw_epoll W) = (now, s) \<and>
       time_add now (retry_interval_ms (cw_client W) * 1000) = Inr d \<and>
       Timer_Update (k_epoll E) d (case reconnect_timer (cw_client W) of Some tm \<Rightarrow> tm
         | None \<Rightarrow> CreateTimer (k_alarm E) (Some 0)) s = Inr (tm', s') \<and>
       W' = W1\<lparr>cw_epoll := s', cw_client := (cw_client W1)\<lparr>reconnect_timer := Some tm',
         retry_interval_ms := min (retry_interval_ms (cw_client W) * 2) kMaxRetryIntervalMs\<rparr>\<rparr>"
proof -
  obtain sk where sk: "cl_socket (cw_client W) = Some sk"
    using assms by (auto simp: client_retry_def bindr_eq_Inr close_socket_eq)
  show thesis
  proof (rule that [OF sk refl])
    show "W' = W\<lparr>cw_os := snd (Close (k_sock E) (sk, cw_os W)), cw_client := (cw_client W)\<lparr>
       cl_socket := Some (fst (Close (k_sock E) (sk, cw_os W))), cl_state := Client_kDisconnected\<rparr>\<rparr>"
      if "\<not> cl_connect (cw_client W)"
      using assms sk that
      by (simp add: client_retry_def close_socket_def with_socket_def client_upd_defs case_prod_beta Let_def)
  qed (use assms sk in \<open>auto simp: client_retry_def close_socket_def with_socket_def client_upd_defs case_prod_beta
        Let_def res_simps prod_eq_iff\<close>)
qed

lemma client_retry_attempt: "client_retry E W = Inr W' \<Longrightarrow> attempt W W'"
  by (erule client_retry_eq, cases "cl_connect (cw_client W)") (auto simp: attempt_def backoff_Suc)

lemma connecting_attempt: "connecting E W = Inr W' \<Longrightarrow> attempt W W'"
  by (auto simp: connecting_def Let_def with_socket_eq client_epoll_eq attempt_def client_upd_defs)

lemma attempt_trans_os:
  "attempt (upd_client (\<lambda>c. c\<lparr>cl_socket := sk\<rparr>) (W\<lparr>cw_os := w\<rparr>)) W' \<Longrightarrow> attempt W W'"
  by (simp add: attempt_def upd_client_def)

lemma client_connect_attempt: "client_connect E W = Inr W' \<Longrightarrow> attempt W W'"
  by (auto simp: client_connect_def Let_def bindr_eq_Inr split: if_splits
      dest!: client_retry_attempt connecting_attempt intro: attempt_trans_os)

lemma attempt_refl: "cl_state (cw_client W) = Client_kDisconnected \<Longrightarrow> attempt W W"
  by (simp add: attempt_def)

lemma startInLoop_attempt:
  "startInLoop E W = Inr W' \<Longrightarrow> cl_state (cw_client W) = Client_kDisconnected \<and> attempt W W'"
  by (auto simp: startInLoop_def client_in_loop_eq guard_def attempt_refl split: if_splits
      dest: client_connect_attempt)

section \<open>Runs\<close>

definition client_start :: "client_world \<Rightarrow> bool" where
  "client_start W \<longleftrightarrow> (\<exists>c h p n. cw_client W = TCPClient c h p n) \<and> cw_objs W = [] \<and> cw_queue W = [] \<and> cw_log W = []"

text \<open>The calls of the program, in the loop's thread or outside; the events, the timer and the functors of the loop;
  the close callback of the connection; and whatever else happens to the loop's server and in the kernel.\<close>

inductive client_step :: "client_env \<Rightarrow> client_world \<Rightarrow> client_world \<Rightarrow> bool" for E where
  user_connect: "Connect E W = Inr W' \<Longrightarrow> client_step E W W'"
| user_stop: "client_step E W (Stop W)"
| user_disconnect: "client_step E W (Disconnect W)"
| user_retry: "client_step E W (EnableRetry W)"
| set_write_complete: "client_step E W (Client_SetWriteCompleteCallback cb W)"
| event: "cw_in_loop W \<Longrightarrow> Client_OnEvent E ev W = Inr W' \<Longrightarrow> client_step E W W'"
| timer: "cw_in_loop W \<Longrightarrow> reconnect_timer (cw_client W) = Some tm \<Longrightarrow>
    EpollTimerImpl_OnAlarm tm (cw_epoll W) = ((tm', s'), Some 0, r) \<Longrightarrow>
    Connect E (upd_client (\<lambda>c. c\<lparr>reconnect_timer := Some tm'\<rparr>) (W\<lparr>cw_epoll := s'\<rparr>)) = Inr W' \<Longrightarrow> client_step E W W'"
| call: "cw_in_loop W \<Longrightarrow> cw_queue W = g # gs \<Longrightarrow>
    call_client_functor E g (W\<lparr>cw_queue := gs\<rparr>) = Inr W' \<Longrightarrow> client_step E W W'"
| close: "cl_connection (cw_client W) = Some i \<Longrightarrow> Client_removeConnection E i W = Inr W' \<Longrightarrow> client_step E W W'"
| thread: "client_step E W (W\<lparr>cw_in_loop := b\<rparr>)"
| other: "client_step E W (W\<lparr>cw_os := w, cw_epoll := s\<rparr>)"

inductive client_run :: "client_env \<Rightarrow> client_world \<Rightarrow> bool" for E where
  start: "client_start W \<Longrightarrow> client_run E W"
| step: "client_run E W \<Longrightarrow> client_step E W W' \<Longrightarrow> client_run E W'"

text \<open>Each of the \<open>n\<close> connections has been established once, and each but the current one has been destroyed, or is
  queued to be, once.\<close>

definition calls_counted :: "client_functor list \<Rightarrow> client_event list \<Rightarrow> nat \<Rightarrow> nat option \<Rightarrow> bool" where
  "calls_counted q l n c \<longleftrightarrow> (\<forall>i. count_list l (CEstablished i) = of_bool (i < n)) \<and>
     (\<forall>i. count_list q (KDestroy i) + count_list l (CDestroyed i) = of_bool (i < n \<and> c \<noteq> Some i))"

lemma counted_up:
  assumes "calls_counted q l n None"
  shows "calls_counted q (CEstablished n # l) (Suc n) (Some n)"
proof -
  have counts: "count_list q (KDestroy i) + count_list l (CDestroyed i) = of_bool (i < n)"
    "count_list l (CEstablished i) = of_bool (i < n)" for i using assms by (simp_all add: calls_counted_def)
  have "count_list q (KDestroy i) + count_list (CEstablished n # l) (CDestroyed i) = of_bool (i < Suc n \<and> Some n \<noteq> Some i)"
    "count_list (CEstablished n # l) (CEstablished i) = of_bool (i < Suc n)" for i
    using counts [of i] by (cases "i = n"; simp add: less_Suc_eq)+
  then show ?thesis unfolding calls_counted_def by blast
qed

lemma counted_down:
  assumes "calls_counted q l n (Some j)" "j < n"
  shows "calls_counted (q @ [KDestroy j]) l n None"
proof -
  have "count_list (q @ [KDestroy j]) (KDestroy i) + count_list l (CDestroyed i) = of_bool (i < n \<and> None \<noteq> Some i)" for i
    using assms by (cases "i = j") (simp_all add: calls_counted_def)
  then show ?thesis using assms(1) unfolding calls_counted_def by blast
qed

lemma counted_call: "calls_counted (KDestroy j # q) l n c \<Longrightarrow> calls_counted q (CDestroyed j # l) n c"
proof -
  have "count_list q (KDestroy i) + count_list (CDestroyed j # l) (CDestroyed i) =
      count_list (KDestroy j # q) (KDestroy i) + count_list l (CDestroyed i)" for i by simp
  then show "calls_counted (KDestroy j # q) l n c \<Longrightarrow> calls_counted q (CDestroyed j # l) n c"
    unfolding calls_counted_def by simp
qed

lemma counted_queue:
  "(\<And>i. count_list q' (KDestroy i) = count_list q (KDestroy i)) \<Longrightarrow> calls_counted q' l n c = calls_counted q l n c"
  by (simp add: calls_counted_def)

lemma counted_other [simp]:
  "calls_counted (q @ [KStop]) l n c = calls_counted q l n c" "calls_counted (q @ [KStart]) l n c = calls_counted q l n c"
  "calls_counted (KStop # q) l n c = calls_counted q l n c" "calls_counted (KStart # q) l n c = calls_counted q l n c"
  "calls_counted (KSetClose i # q) l n c = calls_counted q l n c"
  "calls_counted q (CShutdown i # l) n c = calls_counted q l n c"
  "calls_counted q (CSetClose i # l) n c = calls_counted q l n c"
  by (simp_all add: calls_counted_def)

definition client_ok :: "client_world \<Rightarrow> bool" where
  "client_ok W \<longleftrightarrow>
     (cl_state (cw_client W) = Client_kConnecting \<longrightarrow> cl_socket (cw_client W) \<noteq> None) \<and>
     (\<forall>i. cl_connection (cw_client W) = Some i \<longrightarrow>
        cl_state (cw_client W) = Client_kConnected \<and> Suc i = length (cw_objs W)) \<and>
     retry_interval_ms (cw_client W) \<in> range backoff \<and>
     cl_next_conn_id (cw_client W) = int (length (cw_objs W)) + 1 \<and>
     calls_counted (cw_queue W) (cw_log W) (length (cw_objs W)) (cl_connection (cw_client W))"

lemma attempt_ok: "client_ok W \<Longrightarrow> cl_connection (cw_client W) = None \<Longrightarrow> attempt W W' \<Longrightarrow> client_ok W'"
  by (simp add: client_ok_def attempt_def)

lemma client_ok_none: "client_ok W \<Longrightarrow> cl_state (cw_client W) \<noteq> Client_kConnected \<Longrightarrow> cl_connection (cw_client W) = None"
  by (cases "cl_connection (cw_client W)") (auto simp: client_ok_def)

lemma startInLoop_ok: "client_ok W \<Longrightarrow> startInLoop E W = Inr W' \<Longrightarrow> client_ok W'"
  using startInLoop_attempt [of E W W'] client_ok_none [of W] attempt_ok [of W W'] by simp

lemma client_ok_queue:
  "client_ok W \<Longrightarrow> (\<And>i. count_list q (KDestroy i) = count_list (cw_queue W) (KDestroy i)) \<Longrightarrow> client_ok (W\<lparr>cw_queue := q\<rparr>)"
  using counted_queue [of q "cw_queue W"] by (simp add: client_ok_def)

lemma client_ok_connect: "client_ok (upd_client (\<lambda>c. c\<lparr>cl_connect := b\<rparr>) W) \<longleftrightarrow> client_ok W"
  by (simp add: client_ok_def upd_client_def)

lemma client_ok_timer: "client_ok (upd_client (\<lambda>c. c\<lparr>reconnect_timer := t\<rparr>) (W\<lparr>cw_epoll := s\<rparr>)) \<longleftrightarrow> client_ok W"
  by (simp add: client_ok_def upd_client_def)

lemma Connect_ok: "client_ok W \<Longrightarrow> Connect E W = Inr W' \<Longrightarrow> client_ok W'"
  using startInLoop_ok [of "upd_client (\<lambda>c. c\<lparr>cl_connect := True\<rparr>) W" E W']
    client_ok_queue [of "upd_client (\<lambda>c. c\<lparr>cl_connect := True\<rparr>) W" "cw_queue W @ [KStart]"]
    client_ok_connect [of True W]
  by (auto simp: Connect_def Let_def client_queue_def upd_client_def split: if_splits)

lemma stopInLoop_ok:
  assumes "client_ok W" "stopInLoop E W = Inr W'"
  shows "client_ok W'"
proof (cases "cl_state (cw_client W) = Client_kConnecting")
  case True
  have none: "cl_connection (cw_client W) = None" using client_ok_none [OF assms(1)] True by simp
  obtain W1 where W1: "unregister_socket E (Client_setState Client_kDisconnected W) = Inr W1" "client_retry E W1 = Inr W'"
    using assms(2) True by (auto simp: stopInLoop_def client_in_loop_eq bindr_eq_Inr)
  have "attempt W W1" using W1(1) by (auto simp: unregister_socket_eq attempt_def client_upd_defs)
  then have "client_ok W1" "cl_connection (cw_client W1) = None"
    using attempt_ok [OF assms(1) none] none by (simp_all add: attempt_def)
  then show ?thesis using attempt_ok client_retry_attempt [OF W1(2)] by blast
qed (use assms in \<open>simp add: stopInLoop_def client_in_loop_eq\<close>)

lemma newConnection_ok:
  assumes "client_ok W" "cl_connection (cw_client W) = None" "cl_state (cw_client W) = Client_kConnecting"
    "Client_newConnection E (Client_setState Client_kConnected W) = Inr W'"
  shows "client_ok W'"
  using assms counted_up
  by (auto simp: Client_newConnection_def client_in_loop_eq guard_def with_socket_eq Let_def case_prod_beta
      client_ok_def client_upd_defs split: if_splits)

lemma handle_ok:
  assumes "client_ok W"
  shows "Client_handleWrite E W = Inr W' \<Longrightarrow> client_ok W'" "Client_handleError E W = Inr W' \<Longrightarrow> client_ok W'"
proof -
  define V where "V s w = W\<lparr>cw_epoll := s, cw_os := w\<rparr>" for s w
  have V: "client_ok (V s w)" "cl_connection (cw_client (V s w)) = cl_connection (cw_client W)"
    "cl_state (cw_client (V s w)) = cl_state (cw_client W)" for s w
    using assms by (simp_all add: V_def client_ok_def)
  have retry: "client_ok W'" if "client_retry E (V s w) = Inr W'" "cl_state (cw_client W) = Client_kConnecting" for s w
    using attempt_ok [OF V(1) _ client_retry_attempt [OF that(1)]] client_ok_none [OF assms] that(2) V(2) by simp
  have close: "client_ok W'" if "close_socket E (Client_setState Client_kConnected (V s w)) = Inr W'"
    "cl_state (cw_client W) = Client_kConnecting" for s w
    using that V(1) [of s w] client_ok_none [OF assms] by (auto simp: close_socket_eq client_ok_def client_upd_defs V_def)
  show "client_ok W'" if "Client_handleError E W = Inr W'"
    using that V(1) retry assms
    by (auto simp: Client_handleError_def bindr_eq_Inr unregister_socket_eq client_error_eq V_def split: if_splits)
  show "client_ok W'" if "Client_handleWrite E W = Inr W'"
    using that retry close newConnection_ok [OF V(1)] client_ok_none [OF assms] V(2,3) assms
    by (auto simp: Client_handleWrite_def bindr_eq_Inr unregister_socket_eq client_error_eq V_def Let_def guard_def
        split: if_splits)
qed

lemma OnEvent_ok: "client_ok W \<Longrightarrow> Client_OnEvent E ev W = Inr W' \<Longrightarrow> client_ok W'"
  by (auto simp: Client_OnEvent_def bindr_eq_Inr split: if_splits dest: handle_ok)

lemma removeConnection_ok:
  assumes "client_ok W" "cl_connection (cw_client W) = Some i" "Client_removeConnection E i W = Inr W'"
  shows "client_ok W'"
proof -
  define W1 where "W1 = client_queue (KDestroy i) (upd_client (\<lambda>c. c\<lparr>cl_connection := None\<rparr>) W)"
  have W1: "client_ok W1" using assms(1,2) counted_down by (auto simp: client_ok_def W1_def client_upd_defs)
  have "client_ok (upd_client (\<lambda>c. c\<lparr>cl_state := Client_kDisconnected, retry_interval_ms := kInitRetryIntervalMs,
      cl_connect := True\<rparr>) W1)"
    using W1 backoff_0 by (auto simp: client_ok_def W1_def client_upd_defs intro: range_eqI [where x = 0])
  then show ?thesis
    using assms(3) W1 startInLoop_ok
    by (auto simp: Client_removeConnection_def client_in_loop_eq guard_def Let_def restart_def W1_def split: if_splits)
qed

lemma client_functor_ok:
  assumes "client_ok W" "cw_queue W = g # gs" "call_client_functor E g (W\<lparr>cw_queue := gs\<rparr>) = Inr W'"
  shows "client_ok W'"
proof (cases g)
  case (KDestroy j)
  then show ?thesis using assms counted_call by (auto simp: client_ok_def client_record_def)
qed (use assms startInLoop_ok [of "W\<lparr>cw_queue := gs\<rparr>"] stopInLoop_ok [of "W\<lparr>cw_queue := gs\<rparr>"] in
    \<open>auto simp: client_ok_def client_record_def\<close>)

lemma client_ok_user:
  assumes "client_ok W"
  shows "client_ok (Stop W)" "client_ok (Disconnect W)" "client_ok (EnableRetry W)" "client_ok (Client_SetWriteCompleteCallback cb W)"
    "client_ok (W\<lparr>cw_in_loop := b\<rparr>)"
    "client_ok (W\<lparr>cw_os := w, cw_epoll := s\<rparr>)"
proof -
  show "client_ok (Disconnect W)"
    using assms by (cases "cl_connection (cw_client W)") (simp_all add: Disconnect_def client_upd_defs client_ok_def)
qed (use assms in \<open>simp_all add: Stop_def EnableRetry_def Client_SetWriteCompleteCallback_def client_upd_defs client_ok_def\<close>)

lemma client_step_ok:
  assumes "client_step E W W'" "client_ok W"
  shows "client_ok W'"
  using assms(1)
proof cases
  case user_connect
  then show ?thesis by (rule Connect_ok [OF assms(2)])
next
  case event
  then show ?thesis using OnEvent_ok [OF assms(2)] by simp
next
  case timer
  then show ?thesis using Connect_ok client_ok_timer assms(2) by metis
next
  case call
  then show ?thesis using client_functor_ok [OF assms(2)] by simp
next
  case close
  then show ?thesis using removeConnection_ok [OF assms(2)] by simp
qed (simp_all only: client_ok_user [OF assms(2)])

lemma client_run_ok: "client_run E W \<Longrightarrow> client_ok W"
proof (induction rule: client_run.induct)
  case (start W)
  then show ?case using backoff_0
    by (auto simp: client_start_def TCPClient_def client_ok_def calls_counted_def intro: range_eqI [where x = 0])
qed (rule client_step_ok)

section \<open>A client in a concrete environment\<close>

definition dialling_env :: sock_env where
  "dialling_env = \<lparr>sock_ndebug = True,
     sock_sys = \<lambda>tr c. (case c of SockSocket _ \<Rightarrow> \<lparr>r_ret = 8, r_errno = 0, r_data = [], r_addr = no_addr\<rparr>
       | _ \<Rightarrow> \<lparr>r_ret = 0, r_errno = 0, r_data = [], r_addr = no_addr\<rparr>),
     sock_retries = 0\<rparr>"

definition demo_client_env :: client_env where
  "demo_client_env = \<lparr>k_epoll = demo_env, k_sock = dialling_env, k_alarm = 7\<rparr>"

definition demo_client_start :: client_world where
  "demo_client_start = \<lparr>cw_in_loop = True, cw_client = TCPClient 1 [] 2007 ''echo'', cw_epoll = new_server 3 (\<lambda>_. EpollAlarm) [],
     cw_os = idle_os, cw_objs = [], cw_queue = [], cw_log = []\<rparr>"

definition demo_dialled :: client_world where
  "demo_dialled = projr (Connect demo_client_env demo_client_start)"

definition demo_connected :: client_world where
  "demo_connected = projr (Client_OnEvent demo_client_env EPOLLOUT demo_dialled)"

lemma demo_client_steps:
  "isl (Connect demo_client_env demo_client_start) = False"
  "isl (Client_OnEvent demo_client_env EPOLLOUT demo_dialled) = False"
  by code_simp+

lemma demo_client_fields:
  "cw_in_loop demo_dialled" "cl_state (cw_client demo_dialled) = Client_kConnecting" "cl_connect (cw_client demo_dialled)"
  "cl_socket (cw_client demo_dialled) \<noteq> None" "reconnect_timer (cw_client demo_dialled) = None"
  "retry_interval_ms (cw_client demo_dialled) = 500"
  "cw_in_loop demo_connected" "cl_connection (cw_client demo_connected) = Some 0" "\<not> cl_retry (cw_client demo_connected)"
  "length (cw_objs demo_connected) = 1"
  by code_simp+

lemma demo_client_runs: "client_run demo_client_env demo_dialled" "client_run demo_client_env demo_connected"
proof -
  have "client_start demo_client_start" by (auto simp: client_start_def demo_client_start_def)
  moreover have "Connect demo_client_env demo_client_start = Inr demo_dialled"
    using demo_client_steps(1) by (simp add: demo_dialled_def)
  ultimately show run: "client_run demo_client_env demo_dialled"
    by (intro client_run.step [OF client_run.start client_step.user_connect])
  have "Client_OnEvent demo_client_env EPOLLOUT demo_dialled = Inr demo_connected"
    using demo_client_steps(2) by (simp add: demo_connected_def)
  then show "client_run demo_client_env demo_connected"
    by (intro client_run.step [OF run client_step.event]) (rule demo_client_fields(1))
qed

section \<open>Properties\<close>

text \<open>C13: in every run of a client, a client that is connecting has a socket; a client that has a connection is in the
  state \<open>kConnected\<close> and the connection is the last one made; each connection is established exactly once, and
  destroyed, or queued to be, exactly once when it is no longer the client's connection and not before.\<close>

theorem client_connections:
  assumes "client_run E W"
  shows "(cl_state (cw_client W) = Client_kConnecting \<longrightarrow> cl_socket (cw_client W) \<noteq> None) \<and>
    (cl_connection (cw_client W) = Some i \<longrightarrow> cl_state (cw_client W) = Client_kConnected \<and> Suc i = length (cw_objs W)) \<and>
    count_list (cw_log W) (CEstablished i) = (if i < length (cw_objs W) then 1 else 0) \<and>
    count_list (cw_queue W) (KDestroy i) + count_list (cw_log W) (CDestroyed i) =
      (if i < length (cw_objs W) \<and> cl_connection (cw_client W) \<noteq> Some i then 1 else 0)"
  using client_run_ok [OF assms] by (simp add: client_ok_def calls_counted_def of_bool_def)

theorem client_connections_witness:
  "cl_state (cw_client demo_connected) = Client_kConnected \<and> count_list (cw_log demo_connected) (CEstablished 0) = 1 \<and>
   count_list (cw_log demo_connected) (CDestroyed 0) = 0"
  using client_connections [OF demo_client_runs(2), of 0] demo_client_fields(8,10) by simp

lemma Timer_Update_pending:
  assumes "timer_inv tm s" "fits_int64 d" "IsInitialized d"
  shows "res_ok (timer_after d tm s) (Timer_Update env d tm s)"
proof -
  have inv: "alarm_inv {} s" and unset: "\<not> IsSet tm \<Longrightarrow> pending s (epoll_timer_impl tm) = None"
    using assms(1) by (simp_all add: timer_inv_def)
  then show ?thesis
    using assms(3) setImpl_after [OF inv unset assms(2)] updateImpl_after [OF inv assms(2)]
    by (simp add: Timer_Update_def Let_def)
qed

lemma timer_inv_observe: "timer_inv tm s \<Longrightarrow> timer_inv tm (observe x s)"
  using alarm_inv_part [of "observe x s" s "{}"]
  by (simp add: timer_inv_def pending_def alarm_part_def)

text \<open>The timer that \<open>retry\<close> sets.\<close>

definition retry_timer :: "client_env \<Rightarrow> client_world \<Rightarrow> epoll_timer" where
  "retry_timer E W = (case reconnect_timer (cw_client W) of Some tm \<Rightarrow> tm | None \<Rightarrow> CreateTimer (k_alarm E) (Some 0))"

text \<open>C21: a retry of a client that wants to connect, in any run, does not fault, leaves the client disconnected, and sets its
  timer at the server. The interval is always \<open>min (500 * 2 ^ k) 30000\<close> milliseconds for some \<open>k\<close>: the timer is set that far
  ahead, and the next interval is the one for \<open>k + 1\<close>, doubled but never above half a minute.\<close>

theorem client_backoff:
  assumes "client_run E W" "cl_socket (cw_client W) = Some sk" "cl_connect (cw_client W)"
    "timer_inv (retry_timer E W) (cw_epoll W)"
    "0 \<le> sys_now (k_epoll E) (obs_trace (cw_epoll W))"
    "sys_now (k_epoll E) (obs_trace (cw_epoll W)) + 30000000 < 2 ^ 63"
  shows "\<exists>k. retry_interval_ms (cw_client W) = min (500 * 2 ^ k) 30000 \<and>
    res_ok (\<lambda>W'. cl_state (cw_client W') = Client_kDisconnected \<and>
      retry_interval_ms (cw_client W') = min (500 * 2 ^ Suc k) 30000 \<and>
      (\<exists>tm. reconnect_timer (cw_client W') = Some tm \<and> epoll_timer_impl tm = epoll_timer_impl (retry_timer E W) \<and>
        pending (cw_epoll W') (epoll_timer_impl tm) =
          Some (sys_now (k_epoll E) (obs_trace (cw_epoll W)) + min (500 * 2 ^ k) 30000 * 1000)))
      (client_retry E W)"
proof -
  let ?now = "sys_now (k_epoll E) (obs_trace (cw_epoll W))"
  let ?s = "observe (SysNow ?now) (cw_epoll W)"
  obtain k where k: "retry_interval_ms (cw_client W) = backoff k"
    using client_run_ok [OF assms(1)] by (auto simp: client_ok_def)
  let ?d = "?now + backoff k * 1000"
  have b: "500 \<le> backoff k" "backoff k \<le> 30000"
    using backoff_bounds [of k] by (simp_all add: kInitRetryIntervalMs_def kMaxRetryIntervalMs_def)
  then have d: "fits_int64 ?d" "IsInitialized ?d" "?d \<noteq> 0"
    using assms(5,6) by (simp_all add: fits_int64_def IsInitialized_def)
  obtain tm' s' where upd: "Timer_Update (k_epoll E) ?d (retry_timer E W) ?s = Inr (tm', s')"
    "timer_after ?d (retry_timer E W) ?s (tm', s')"
    using Timer_Update_pending [OF timer_inv_observe [OF assms(4)] d(1,2), of "SysNow ?now" "k_epoll E"]
    by (auto elim!: res_ok_E)
  have tm': "epoll_timer_impl tm' = epoll_timer_impl (retry_timer E W)" "pending s' (epoll_timer_impl tm') = Some ?d"
    using upd(2) d(2) by (auto simp: timer_after_def timer_inv_def IsSet_def)
  have eq: "min (500 * 2 ^ j) 30000 = backoff j" for j
    by (simp add: backoff_def kInitRetryIntervalMs_def kMaxRetryIntervalMs_def)
  show ?thesis
    unfolding eq
    using assms(2,3) k upd(1) tm' d(1) backoff_Suc [of k]
    by (intro exI [of _ k])
      (auto simp: client_retry_def close_socket_def with_socket_def client_upd_defs case_prod_beta Let_def NowInUsec_def
        time_add_def guard_def retry_timer_def)
qed

lemma connecting_alarms: "connecting E W = Inr W' \<Longrightarrow> alarm_part (cw_epoll W') = alarm_part (cw_epoll W)"
proof -
  assume "connecting E W = Inr W'"
  then obtain f c where "exec_op (k_epoll E) (OpRegisterFD f c kClientEpollFlags) (cw_epoll W) = Inr (cw_epoll W')"
    by (auto simp: connecting_def Let_def with_socket_eq client_epoll_eq client_upd_defs)
  with keeps_alarms_ops(1) [of "cw_epoll W" "k_epoll E" f "Some c" kClientEpollFlags] show ?thesis by simp
qed

lemma Connect_alarms:
  assumes "Connect E W = Inr W'" "cw_in_loop W" "cl_state (cw_client W') = Client_kConnecting"
  shows "alarm_part (cw_epoll W') = alarm_part (cw_epoll W)"
proof -
  have "cl_state (cw_client V') = Client_kDisconnected" if "client_retry E V = Inr V'" for V V'
    using that by (elim client_retry_eq, cases "cl_connect (cw_client V)") auto
  then show ?thesis using assms
    by (auto simp: Connect_def startInLoop_def client_in_loop_eq guard_def client_connect_def Let_def bindr_eq_Inr
        client_upd_defs split: if_splits dest!: connecting_alarms)
qed

lemma demo_dialled_timer: "timer_inv (retry_timer demo_client_env demo_dialled) (cw_epoll demo_dialled)"
proof -
  have "Connect demo_client_env demo_client_start = Inr demo_dialled" "cw_in_loop demo_client_start"
    using demo_client_steps(1) by (simp_all add: demo_dialled_def demo_client_start_def)
  from Connect_alarms [OF this demo_client_fields(2)]
  have part: "alarm_part (cw_epoll demo_dialled) = alarm_part (new_server 3 (\<lambda>_. EpollAlarm) [])"
    by (simp add: demo_client_start_def)
  have "timer_inv (CreateTimer 7 (Some 0)) (cw_epoll demo_dialled)"
    using timer_inv_new [of 7 3 "[]"] alarm_inv_part [OF part, of "{}"] part
    by (simp add: timer_inv_def pending_def alarm_part_def CreateTimer_def SetTimerCallback_def EpollTimer_def IsSet_def)
  then show ?thesis using demo_client_fields(5) by (simp add: retry_timer_def demo_client_env_def)
qed

theorem client_backoff_witness:
  "\<exists>k. retry_interval_ms (cw_client demo_dialled) = min (500 * 2 ^ k) 30000 \<and>
    res_ok (\<lambda>W'. retry_interval_ms (cw_client W') = min (500 * 2 ^ Suc k) 30000) (client_retry demo_client_env demo_dialled)"
proof -
  obtain sk where sk: "cl_socket (cw_client demo_dialled) = Some sk" using demo_client_fields(4) by blast
  have now: "sys_now (k_epoll demo_client_env) (obs_trace (cw_epoll demo_dialled)) = int (length (obs_trace (cw_epoll demo_dialled)))"
    by (simp add: demo_client_env_def demo_env_def)
  have "length (obs_trace (cw_epoll demo_dialled)) < 9" by code_simp
  with client_backoff [OF demo_client_runs(1) sk demo_client_fields(3) demo_dialled_timer, unfolded now]
  show ?thesis by (auto elim!: res_ok_mono)
qed

text \<open>C39: a client whose connection ends while it does not reconnect stays in the state \<open>kConnected\<close>, so that the next
  \<open>Connect\<close> fails the assertion of \<open>startInLoop\<close>.\<close>

theorem connect_after_close:
  assumes "client_run E W" "cl_connection (cw_client W) = Some i" "cw_in_loop W"
    "\<not> cl_retry (cw_client W) \<or> \<not> cl_connect (cw_client W)"
  shows "bindr (Client_removeConnection E i W) (Connect E) = Inl AssertFailed"
  using client_run_ok [OF assms(1)] assms(2-4)
  by (auto simp: client_ok_def Client_removeConnection_def client_in_loop_def AssertInLoopThread_def guard_def Let_def
      client_upd_defs Connect_def startInLoop_def)

theorem connect_after_close_witness:
  "bindr (Client_removeConnection demo_client_env 0 demo_connected) (Connect demo_client_env) = Inl AssertFailed"
  by (rule connect_after_close [OF demo_client_runs(2) demo_client_fields(8,7)]) (simp add: demo_client_fields(9))

text \<open>An error event without a pending error (\<open>SO_ERROR\<close> is 0) leaves the client connecting on a socket that is no
  longer registered, and no timer is set for it.\<close>

lemma handleError_no_error:
  assumes "srv_ok (cw_epoll W)" "cl_state (cw_client W) = Client_kConnecting" "cl_socket (cw_client W) = Some sk"
    "fst (GetSocketError (k_sock E) (sk, cw_os W)) = 0" "Client_handleError E W = Inr W'"
  shows "cl_state (cw_client W') = Client_kConnecting" "cl_socket (cw_client W') = Some sk"
    "regs (cw_epoll W') (s_fd sk) = None" "reconnect_timer (cw_client W') = reconnect_timer (cw_client W)"
proof -
  obtain s where s: "exec_op (k_epoll E) (OpUnregisterFD (s_fd sk)) (cw_epoll W) = Inr s"
    "W' = W\<lparr>cw_epoll := s, cw_os := snd (GetSocketError (k_sock E) (sk, cw_os W))\<rparr>"
    using assms(2-5) by (auto simp: Client_handleError_def bindr_eq_Inr unregister_socket_eq client_error_eq)
  from registry.exec_reg(2) [OF assms(1) s(1)] show "regs (cw_epoll W') (s_fd sk) = None" by (simp add: s(2))
qed (use assms(2-5) in \<open>auto simp: Client_handleError_def bindr_eq_Inr unregister_socket_eq client_error_eq\<close>)

text \<open>The destructor of a client that has a connection, in the loop's thread, hands the connection over: it replaces the
  close callback, and closes the connection if nobody else has it. It does not fault.\<close>

lemma TCPClient_destroy_hands_over:
  assumes "cl_connection (cw_client W) = Some i" "cw_in_loop W" "reconnect_timer (cw_client W) = None"
  shows "res_ok (\<lambda>W'. cw_log W' = (if unique then [CForceClose i] else []) @ CSetClose i # cw_log W \<and>
    cw_queue (detail_removeConnection i W') = cw_queue W @ [KDestroy i]) (TCPClient_destroy E unique W)"
  using assms by (simp add: TCPClient_destroy_def Let_def destroy_members_def client_upd_defs detail_removeConnection_def
      mapr_def res_ok_def)

end
