(* ===== verification/TTCP.thy ===== *)
theory TTCP
  imports Codec
begin

text \<open>
  The \<open>ttcp\<close> example, \<open>examples/ttcp/ttcp.cc\<close>: the transmitter sends a session header and a number of buffers, one for each
  acknowledgement; the receiver acknowledges each buffer and shuts the connection down after the last. The handlers return
  the calls they make on the connection and its loop, in order. An \<open>int32_t\<close> that travels is a \<open>u32\<close>, compared as \<open>sint\<close>.
\<close>

section \<open>State\<close>

datatype ttcp_act = TSend bytes | TShutdown | TQuit

record session_message =
  number :: u32
  slength :: u32

record ttcp_context =
  ct_count :: int
  ct_bytes :: int
  session :: session_message
  ct_output :: byte_buffer

definition Context :: ttcp_context where
  "Context = \<lparr>ct_count = 0, ct_bytes = 0, session = \<lparr>number = 0, slength = 0\<rparr>, ct_output = ByteBuffer kInitialSize\<rparr>"

text \<open>An \<open>int\<close> that is passed as a \<open>size_t\<close>.\<close>

definition as_size :: "int \<Rightarrow> nat" where
  "as_size i = nat (i mod 2 ^ 64)"

text \<open>The characters of \<open>"0123456789ABCDEF"\<close>.\<close>

definition ttcp_pattern :: "nat \<Rightarrow> u8" where
  "ttcp_pattern i = (let k = i mod 16 in word_of_nat (if k < 10 then 48 + k else 55 + k))"

section \<open>Transmitter\<close>

definition trans_output :: "byte_order \<Rightarrow> int \<Rightarrow> byte_buffer res" where
  "trans_output ord FLAGS_length =
     bindr (WriteInt32 ord (word_of_int FLAGS_length) (ByteBuffer kInitialSize)) (\<lambda>b1.
     bindr (EnsureWritableBytes (as_size FLAGS_length) b1) (\<lambda>b2.
     SkipWriteBytes (as_size FLAGS_length)
       (b2\<lparr>buffer := overwrite (BeginWrite b2) (map ttcp_pattern [0..<nat FLAGS_length]) (buffer b2)\<rparr>)))"

definition trans_connected :: "byte_order \<Rightarrow> int \<Rightarrow> int \<Rightarrow> (ttcp_act list \<times> ttcp_context) res" where
  "trans_connected ord FLAGS_number FLAGS_length =
     bindr (trans_output ord FLAGS_length) (\<lambda>out.
     bindr (ToStringView out) (\<lambda>view.
     Inr ([TSend (object_bytes ord 4 (ghtonl ord (word_of_int FLAGS_number)) @
                  object_bytes ord 4 (ghtonl ord (word_of_int FLAGS_length))), TSend view],
          \<lparr>ct_count = 1, ct_bytes = FLAGS_length,
           session = \<lparr>number = word_of_int FLAGS_number, slength = word_of_int FLAGS_length\<rparr>, ct_output = out\<rparr>)))"

definition trans_onConnection ::
  "byte_order \<Rightarrow> int \<Rightarrow> int \<Rightarrow> bool \<Rightarrow> ttcp_context \<Rightarrow> (ttcp_act list \<times> ttcp_context) res" where
  "trans_onConnection ord FLAGS_number FLAGS_length connected c =
     (if connected then trans_connected ord FLAGS_number FLAGS_length else Inr ([TQuit], c))"

lemma ReadInt32_smaller:
  "ReadInt32 ord b = Inr (x, b') \<Longrightarrow> 4 \<le> ReadableBytes b \<and> ReadableBytes b' = ReadableBytes b - 4"
  by (auto simp: ReadInt32_def PeekInt32_def res_simps dest!: SkipReadBytes_ReadableBytes)

function trans_onMessage :: "byte_order \<Rightarrow> ttcp_context \<Rightarrow> byte_buffer \<Rightarrow> (ttcp_act list \<times> ttcp_context \<times> byte_buffer) res" where
  "trans_onMessage ord c buf =
     (if ReadableBytes buf \<ge> 4
      then bindr (ReadInt32 ord buf) (\<lambda>(len, buf1).
           if len = slength (session c)
           then if ct_count c < sint (number (session c))
                then bindr (ToStringView (ct_output c)) (\<lambda>view.
                     mapr (\<lambda>(acts, r). (TSend view # acts, r))
                       (trans_onMessage ord (c\<lparr>ct_count := ct_count c + 1, ct_bytes := ct_bytes c + sint len\<rparr>) buf1))
                else Inr ([TShutdown], c, buf1)
           else Inr ([TShutdown], c, buf1))
      else Inr ([], c, buf))"
  by pat_completeness auto
termination
  by (relation "measure (\<lambda>(ord, c, buf). ReadableBytes buf)") (auto dest!: ReadInt32_smaller)

declare trans_onMessage.simps [simp del]

section \<open>Receiver\<close>

definition receiving_onConnection :: "bool \<Rightarrow> ttcp_context \<Rightarrow> ttcp_act list \<times> ttcp_context" where
  "receiving_onConnection connected c = (if connected then ([], Context) else ([TQuit], c))"

text \<open>\<open>session.length + static_cast<int>(sizeof(int32_t))\<close>, then converted to \<open>unsigned\<close>.\<close>

definition total_len :: "u32 \<Rightarrow> nat res" where
  "total_len len = guard SignedOverflow (sint len + 4 < 2 ^ 31) (Inr (unat (word_of_int (sint len + 4) :: u32)))"

definition read_session :: "byte_order \<Rightarrow> ttcp_context \<Rightarrow> byte_buffer \<Rightarrow> (ttcp_context \<times> byte_buffer) res" where
  "read_session ord c buf =
     bindr (ReadInt32 ord buf) (\<lambda>(n, buf1).
     bindr (ReadInt32 ord buf1) (\<lambda>(len, buf2).
     bindr (WriteInt32 ord len (ct_output c)) (\<lambda>out.
     Inr (c\<lparr>session := \<lparr>number = n, slength = len\<rparr>, ct_output := out\<rparr>, buf2))))"

lemma read_session_smaller: "read_session ord c buf = Inr (c', buf') \<Longrightarrow> ReadableBytes buf' < ReadableBytes buf"
  by (auto simp: read_session_def res_simps dest!: ReadInt32_smaller)

definition session_unset :: "ttcp_context \<Rightarrow> bool" where
  "session_unset c \<longleftrightarrow> number (session c) = 0 \<and> slength (session c) = 0"

function receiving_onMessage :: "byte_order \<Rightarrow> ttcp_context \<Rightarrow> byte_buffer \<Rightarrow> (ttcp_act list \<times> ttcp_context \<times> byte_buffer) res" where
  "receiving_onMessage ord c buf =
     (if ReadableBytes buf \<ge> 4
      then if session_unset c
           then if ReadableBytes buf \<ge> 8
                then bindr (read_session ord c buf) (\<lambda>(c1, buf1). receiving_onMessage ord c1 buf1)
                else Inr ([], c, buf)
           else bindr (total_len (slength (session c))) (\<lambda>total.
                bindr (PeekInt32 ord buf) (\<lambda>len.
                if len = slength (session c)
                then if ReadableBytes buf \<ge> total
                     then bindr (SkipReadBytes total buf) (\<lambda>buf1.
                          bindr (ToStringView (ct_output c)) (\<lambda>view.
                          let c1 = c\<lparr>ct_count := ct_count c + 1, ct_bytes := ct_bytes c + sint len\<rparr>
                          in if ct_count c1 \<ge> sint (number (session c1)) then Inr ([TSend view, TShutdown], c1, buf1)
                             else mapr (\<lambda>(acts, r). (TSend view # acts, r)) (receiving_onMessage ord c1 buf1)))
                     else Inr ([], c, buf)
                else Inr ([TShutdown], c, buf)))
      else Inr ([], c, buf))"
  by pat_completeness auto
termination
  by (relation "inv_image (less_than <*lex*> less_than) (\<lambda>(ord, c, buf).
      if session_unset c then (1, ReadableBytes buf) else (0 :: nat, nat (sint (number (session c)) - ct_count c)))")
    (auto dest!: read_session_smaller simp: session_unset_def)

declare receiving_onMessage.simps [simp del]

text \<open>A connection that appends each chunk it reads to its input buffer and calls the message callback.\<close>

fun receive_chunks :: "byte_order \<Rightarrow> ttcp_context \<Rightarrow> byte_buffer \<Rightarrow> bytes list \<Rightarrow> (ttcp_act list \<times> ttcp_context \<times> byte_buffer) res" where
  "receive_chunks ord c b [] = Inr ([], c, b)"
| "receive_chunks ord c b (d # ds) =
     bindr (Write d b) (\<lambda>b1. bindr (receiving_onMessage ord c b1) (\<lambda>(acts, c1, b2).
       mapr (\<lambda>(acts', r). (acts @ acts', r)) (receive_chunks ord c1 b2 ds)))"

end
