(* ===== verification/TTCP_Correct.thy ===== *)
theory TTCP_Correct
  imports TTCP
begin

text \<open>
  What the receiver of \<open>ttcp\<close> does with a session of a transmitter, however the network cuts it.
\<close>

section \<open>A session\<close>

definition payload_frame :: "bytes \<Rightarrow> bytes" where
  "payload_frame p = network_bytes 4 (word_of_nat (length p) :: u32) @ p"

definition frames :: "bytes list \<Rightarrow> bytes" where
  "frames ps = concat (map payload_frame ps)"

definition session_stream :: "nat \<Rightarrow> bytes list \<Rightarrow> bytes" where
  "session_stream l ps = network_bytes 4 (word_of_nat (length ps) :: u32) @ network_bytes 4 (word_of_nat l :: u32) @ frames ps"

text \<open>The number of buffers of length \<open>l\<close> that are complete after \<open>t\<close> bytes.\<close>

definition complete :: "nat \<Rightarrow> nat \<Rightarrow> nat" where
  "complete l t = (t - 8) div (l + 4)"

definition ttcp_ack :: "nat \<Rightarrow> bytes" where
  "ttcp_ack l = network_bytes 4 (word_of_nat l :: u32)"

definition session_ok :: "nat \<Rightarrow> bytes list \<Rightarrow> bool" where
  "session_ok l ps \<longleftrightarrow> ps \<noteq> [] \<and> length ps < 2 ^ 31 \<and> l + 4 < 2 ^ 31 \<and> (\<forall>p \<in> set ps. length p = l)"

lemma length_frames: "\<forall>p \<in> set ps. length p = l \<Longrightarrow> length (frames ps) = length ps * (l + 4)"
  by (induction ps) (auto simp: frames_def payload_frame_def)

lemma frames_simps [simp]: "frames [] = []" "frames (p # ps) = payload_frame p @ frames ps"
  by (simp_all add: frames_def)

lemma drop_frames:
  "\<forall>p \<in> set ps. length p = l \<Longrightarrow> k \<le> length ps \<Longrightarrow> drop (k * (l + 4)) (frames ps) = frames (drop k ps)"
proof (induction ps arbitrary: k)
  case (Cons p ps)
  then show ?case by (cases k) (simp_all add: payload_frame_def algebra_simps)
qed simp

lemma sint_small: "n < 2 ^ 31 \<Longrightarrow> sint (word_of_nat n :: u32) = int n"
  by (simp add: signed_of_nat signed_take_bit_int_eq_self)

lemma total_len_small: "l + 4 < 2 ^ 31 \<Longrightarrow> total_len (word_of_nat l) = Inr (l + 4)"
proof -
  assume l: "l + 4 < 2 ^ 31"
  have "unat (word_of_int (int (l + 4)) :: u32) = l + 4"
    using l by (simp only: of_int_of_nat_eq unat_of_nat) simp
  moreover have "sint (word_of_nat l :: u32) + 4 = int (l + 4)" using l by (simp add: sint_small)
  ultimately show ?thesis using l by (simp only: total_len_def guard_def) simp
qed

section \<open>The loop of the receiver\<close>

definition in_session :: "nat \<Rightarrow> nat \<Rightarrow> nat \<Rightarrow> ttcp_context \<Rightarrow> bool" where
  "in_session n l k c \<longleftrightarrow> session c = \<lparr>number = word_of_nat n, slength = word_of_nat l\<rparr> \<and> ct_count c = int k \<and>
     ct_bytes c = int (k * l) \<and> buffer_inv (ct_output c) \<and> content (ct_output c) = ttcp_ack l"

lemma in_session_facts:
  assumes "in_session n l k c" "0 < n" "n < 2 ^ 31" "l + 4 < 2 ^ 31"
  shows "\<not> session_unset c" "ToStringView (ct_output c) = Inr (ttcp_ack l)" "sint (number (session c)) = int n"
    "total_len (slength (session c)) = Inr (l + 4)" "slength (session c) = word_of_nat l"
proof -
  have s: "session c = \<lparr>number = word_of_nat n, slength = word_of_nat l\<rparr>" using assms(1) by (simp add: in_session_def)
  then show n: "sint (number (session c)) = int n" using assms(3) by (simp add: sint_small)
  then show "\<not> session_unset c" using assms(2) by (auto simp: session_unset_def)
  show "total_len (slength (session c)) = Inr (l + 4)" "slength (session c) = word_of_nat l"
    using s total_len_small [OF assms(4)] by simp_all
  show "ToStringView (ct_output c) = Inr (ttcp_ack l)"
    using assms(1) ToStringView_ok [of "ct_output c"] by (simp add: in_session_def ttcp_ack_def)
qed

definition shut_at :: "bool \<Rightarrow> ttcp_act list" where
  "shut_at b = (if b then [TShutdown] else [])"

lemma receiving_loop:
  assumes "in_session n l k c" "k + length qs = n" "qs \<noteq> []" "n < 2 ^ 31" "l + 4 < 2 ^ 31" "\<forall>p \<in> set qs. length p = l"
    "buffer_inv b" "content b = take m (frames qs)" "m \<le> length (frames qs)"
  shows "res_ok (\<lambda>(acts, c', b'). acts = replicate (m div (l + 4)) (TSend (ttcp_ack l)) @ shut_at (m div (l + 4) = length qs) \<and>
    in_session n l (k + m div (l + 4)) c' \<and> buffer_inv b' \<and> content b' = drop (m div (l + 4) * (l + 4)) (content b) \<and>
    writer_index b' \<le> writer_index b) (receiving_onMessage ord c b)"
  using assms
proof (induction qs arbitrary: k c b m)
  case (Cons p qs)
  have n: "0 < n" using Cons.prems(2) by simp
  note f = in_session_facts [OF Cons.prems(1) n Cons.prems(4,5)]
  have p: "length p = l" and qs: "\<forall>p \<in> set qs. length p = l" using Cons.prems(6) by simp_all
  have len: "ReadableBytes b = m" using length_content [OF Cons.prems(7)] Cons.prems(8,9) by simp
  have peek: "PeekInt32 ord b = Inr (word_of_nat l)" if "4 \<le> m"
    using that Cons.prems(8) p
    by (intro PeekInt_wire(2) [OF Cons.prems(7), where q = "take (m - 4) (p @ frames qs)"]) (simp add: payload_frame_def)
  show ?case
  proof (cases "m < l + 4")
    case True
    then have "receiving_onMessage ord c b = Inr ([], c, b)"
      using f peek len by (subst receiving_onMessage.simps) (simp add: not_le)
    then show ?thesis using True Cons.prems by (simp add: shut_at_def)
  next
    case False
    then obtain m' where m: "m = (l + 4) + m'" using le_Suc_ex not_less by blast
    obtain b1 where b1: "SkipReadBytes (l + 4) b = Inr b1" "buffer_inv b1" "content b1 = drop (l + 4) (content b)"
      "writer_index b1 \<le> writer_index b"
      using SkipReadBytes_ok [OF Cons.prems(7), of "l + 4"] len m by (auto elim!: res_ok_E)
    have c1: "content b1 = take m' (frames qs)" using b1(3) Cons.prems(8) p m by (simp add: payload_frame_def)
    let ?c = "c\<lparr>ct_count := ct_count c + 1, ct_bytes := ct_bytes c + int l\<rparr>"
    have s1: "in_session n l (Suc k) ?c" using Cons.prems(1) by (simp add: in_session_def)
    have cnt: "ct_count c = int k" using Cons.prems(1) by (simp add: in_session_def)
    have sl: "sint (word_of_nat l :: u32) = int l" using Cons.prems(5) by (intro sint_small) simp
    have step: "receiving_onMessage ord c b =
        (if qs = [] then Inr ([TSend (ttcp_ack l), TShutdown], ?c, b1)
         else mapr (\<lambda>(acts, r). (TSend (ttcp_ack l) # acts, r)) (receiving_onMessage ord ?c b1))"
      using f peek len m b1(1) cnt sl Cons.prems(2) by (subst receiving_onMessage.simps) (auto simp: Let_def)
    have div: "m div (l + 4) = Suc (m' div (l + 4))" unfolding m by (subst div_add_self1) simp_all
    show ?thesis
    proof (cases "qs = []")
      case True
      then have "m' = 0" using Cons.prems(9) m p by (simp add: payload_frame_def)
      then show ?thesis using True step div s1 b1 m by (simp add: shut_at_def)
    next
      case ne: False
      have "m' \<le> length (frames qs)" using Cons.prems(9) m p by (simp add: payload_frame_def)
      from Cons.IH [OF s1 _ ne Cons.prems(4,5) qs b1(2) c1 this] Cons.prems(2)
      have "res_ok (\<lambda>(acts, c', b'). acts = replicate (m' div (l + 4)) (TSend (ttcp_ack l)) @ shut_at (m' div (l + 4) = length qs) \<and>
        in_session n l (Suc k + m' div (l + 4)) c' \<and> buffer_inv b' \<and> content b' = drop (m' div (l + 4) * (l + 4)) (content b1) \<and>
        writer_index b' \<le> writer_index b1) (receiving_onMessage ord ?c b1)" by simp
      then show ?thesis using ne step div b1(3,4)
        by (auto elim!: res_ok_E simp: algebra_simps)
    qed
  qed
qed simp

section \<open>Chunks\<close>

text \<open>The receiver after \<open>t\<close> bytes of the stream.\<close>

definition received :: "nat \<Rightarrow> bytes list \<Rightarrow> nat \<Rightarrow> ttcp_context \<Rightarrow> byte_buffer \<Rightarrow> bool" where
  "received l ps t c b \<longleftrightarrow> buffer_inv b \<and>
     (if t < 8 then c = Context \<and> content b = take t (session_stream l ps)
      else in_session (length ps) l (complete l t) c \<and>
        content b = take (t - 8 - complete l t * (l + 4)) (frames (drop (complete l t) ps)))"

definition acts_between :: "nat \<Rightarrow> bytes list \<Rightarrow> nat \<Rightarrow> nat \<Rightarrow> ttcp_act list" where
  "acts_between l ps t t' = replicate (complete l t' - complete l t) (TSend (ttcp_ack l)) @
     shut_at (complete l t < length ps \<and> complete l t' = length ps)"

lemma length_session_stream:
  "session_ok l ps \<Longrightarrow> length (session_stream l ps) = 8 + length ps * (l + 4)"
  by (simp add: session_stream_def session_ok_def length_frames)

lemma complete_mono: "t \<le> t' \<Longrightarrow> complete l t \<le> complete l t'"
  by (simp add: complete_def div_le_mono)

lemma complete_bound: "session_ok l ps \<Longrightarrow> t \<le> length (session_stream l ps) \<Longrightarrow> complete l t \<le> length ps"
  using div_le_mono [of "t - 8" "length ps * (l + 4)" "l + 4"] by (simp add: length_session_stream complete_def)

lemma acts_between_trans:
  assumes "t \<le> t1" "t1 \<le> t2" "complete l t2 \<le> length ps"
  shows "acts_between l ps t t1 @ acts_between l ps t1 t2 = acts_between l ps t t2"
proof -
  have le: "complete l t \<le> complete l t1" "complete l t1 \<le> complete l t2"
    using assms(1,2) complete_mono by blast+
  then have "replicate (complete l t2 - complete l t) x =
      replicate (complete l t1 - complete l t) x @ replicate (complete l t2 - complete l t1) x" for x :: ttcp_act
    by (simp flip: replicate_add)
  then show ?thesis using le assms(3) by (auto simp: acts_between_def shut_at_def)
qed

text \<open>The loop, on a buffer that has the bytes from the end of buffer \<open>k\<close> to \<open>t'\<close>.\<close>

lemma received_loop:
  assumes "session_ok l ps" "8 + k * (l + 4) \<le> t'" "t' \<le> length (session_stream l ps)" "in_session (length ps) l k c" "buffer_inv b"
    "content b = take (t' - 8 - k * (l + 4)) (frames (drop k ps))" "k \<le> length ps"
  shows "res_ok (\<lambda>(acts, c', b'). acts = replicate (complete l t' - k) (TSend (ttcp_ack l)) @
      shut_at (k < length ps \<and> complete l t' = length ps) \<and>
    received l ps t' c' b' \<and> writer_index b' \<le> writer_index b) (receiving_onMessage ord c b)"
proof (cases "k = length ps")
  case True
  then have "content b = []" "complete l t' = k" "\<not> t' < 8"
    using assms(1-3,6) by (simp_all add: length_session_stream complete_def le_antisym)
  moreover have "ReadableBytes b = 0" using length_content [OF assms(5)] \<open>content b = []\<close> by simp
  then have "receiving_onMessage ord c b = Inr ([], c, b)" by (subst receiving_onMessage.simps) simp
  ultimately show ?thesis using True assms(4,5) by (simp add: received_def shut_at_def)
next
  case False
  let ?m = "t' - 8 - k * (l + 4)"
  have ok: "length ps < 2 ^ 31" "l + 4 < 2 ^ 31" "\<forall>p \<in> set ps. length p = l" using assms(1) by (simp_all add: session_ok_def)
  have qs: "drop k ps \<noteq> []" "k + length (drop k ps) = length ps" "\<forall>p \<in> set (drop k ps). length p = l"
    using False assms(7) ok(3) set_drop_subset by fastforce+
  have m: "?m \<le> length (frames (drop k ps))"
    using length_frames [OF qs(3)] assms(1,3) by (simp add: length_session_stream diff_mult_distrib)
  have t': "t' - 8 = ?m + k * (l + 4)" using assms(2) by simp
  have div: "complete l t' = k + ?m div (l + 4)"
  proof -
    have "complete l t' = (?m + k * (l + 4)) div (l + 4)" by (simp only: complete_def t' [symmetric])
    also have "\<dots> = k + ?m div (l + 4)" by (rule div_mult_self1) simp
    finally show ?thesis .
  qed
  have "frames (drop (complete l t') ps) = drop (?m div (l + 4) * (l + 4)) (frames (drop k ps))"
    using drop_frames [OF qs(3), of "?m div (l + 4)"] complete_bound [OF assms(1,3)] qs(2) div
    by (simp add: add.commute)
  then have rest: "drop (?m div (l + 4) * (l + 4)) (content b) =
      take (t' - 8 - complete l t' * (l + 4)) (frames (drop (complete l t') ps))"
    unfolding assms(6) div drop_take by (simp add: add_mult_distrib add.assoc)
  have "\<not> t' < 8" "k < length ps" "complete l t' = length ps \<longleftrightarrow> ?m div (l + 4) = length (drop k ps)"
    using assms(2,7) False div by auto
  with receiving_loop [OF assms(4) qs(2,1) ok(1,2) qs(3) assms(5,6) m, of ord] div rest show ?thesis
    by (auto elim!: res_ok_mono simp: received_def)
qed

lemma read_session_ok:
  assumes "session_ok l ps" "buffer_inv b" "content b = take t' (session_stream l ps)" "8 \<le> t'"
  shows "res_ok (\<lambda>(c, b'). in_session (length ps) l 0 c \<and> buffer_inv b' \<and> content b' = take (t' - 8) (frames ps) \<and>
    writer_index b' \<le> writer_index b) (read_session ord Context b)"
proof -
  let ?n = "word_of_nat (length ps) :: u32" and ?l = "word_of_nat l :: u32"
  have c: "content b = network_bytes 4 ?n @ network_bytes 4 ?l @ take (t' - 8) (frames ps)"
    using assms(3,4) by (simp add: session_stream_def)
  then have r: "4 \<le> ReadableBytes b" using length_content [OF assms(2)] by simp
  obtain b1 where b1: "SkipReadBytes 4 b = Inr b1" "buffer_inv b1" "content b1 = network_bytes 4 ?l @ take (t' - 8) (frames ps)"
    "writer_index b1 \<le> writer_index b"
    using SkipReadBytes_ok [OF assms(2) r] c by (auto elim!: res_ok_E)
  have r1: "4 \<le> ReadableBytes b1" using length_content [OF b1(2)] b1(3) by simp
  obtain b2 where b2: "SkipReadBytes 4 b1 = Inr b2" "buffer_inv b2" "content b2 = take (t' - 8) (frames ps)"
    "writer_index b2 \<le> writer_index b1"
    using SkipReadBytes_ok [OF b1(2) r1] b1(3) by (auto elim!: res_ok_E)
  have out: "buffer_inv (ct_output Context)" "has_room 4 (ct_output Context)" "content (ct_output Context) = []"
    by (simp_all add: Context_def kInitialSize_def vector_max_size_def has_room_def ByteBuffer_def buffer_inv_def
        content_def range_of_def)
  obtain o1 where o1: "Write (network_bytes 4 ?l) (ct_output Context) = Inr o1" "buffer_inv o1" "content o1 = network_bytes 4 ?l"
    using Write_ok [OF out(1), of "network_bytes 4 ?l"] out(2,3) by (auto elim!: res_ok_E)
  show ?thesis
    using PeekInt_wire(2) [OF assms(2) c, of ord] PeekInt_wire(2) [OF b1(2,3), of ord] b1 b2 o1
    by (simp add: read_session_def ReadInt32_def WriteInt32_def object_bytes_ghton in_session_def ttcp_ack_def)
      (simp add: Context_def)
qed

lemma take_drop_join:
  assumes "a \<le> t"
  shows "take (t - a) (drop a xs) @ take n (drop t xs) = take (t + n - a) (drop a xs)"
proof -
  have "take (t - a + n) (drop a xs) = take (t - a) (drop a xs) @ take n (drop (t - a) (drop a xs))" by (rule take_add)
  with assms show ?thesis by simp
qed

lemma complete_covers: "8 \<le> t \<Longrightarrow> 8 + complete l t * (l + 4) \<le> t"
  using div_times_less_eq_dividend [of "t - 8" "l + 4"] unfolding complete_def by linarith

lemma frames_in_stream:
  "session_ok l ps \<Longrightarrow> k \<le> length ps \<Longrightarrow> drop (8 + k * (l + 4)) (session_stream l ps) = frames (drop k ps)"
  using drop_frames [of ps l k] by (simp add: session_ok_def session_stream_def)

lemma received_step:
  assumes "session_ok l ps" "received l ps t c b" "t + length d \<le> length (session_stream l ps)"
    "d = take (length d) (drop t (session_stream l ps))" "buffer_inv b1" "content b1 = content b @ d"
  shows "res_ok (\<lambda>(acts, c', b'). acts = acts_between l ps t (t + length d) \<and> received l ps (t + length d) c' b' \<and>
    writer_index b' \<le> writer_index b1) (receiving_onMessage ord c b1)"
proof (cases "8 \<le> t")
  case True
  let ?k = "complete l t"
  note cov = complete_covers [OF True, of l]
  have k: "?k \<le> length ps" using complete_bound [OF assms(1)] assms(3) by simp
  have b: "in_session (length ps) l ?k c" "content b = take (t - (8 + ?k * (l + 4))) (frames (drop ?k ps))"
    using assms(2) True by (simp_all add: received_def)
  have "content b1 = take (t + length d - 8 - ?k * (l + 4)) (frames (drop ?k ps))"
    using take_drop_join [OF cov, of "session_stream l ps" "length d"] assms(4,6) b(2) frames_in_stream [OF assms(1) k] by simp
  from received_loop [OF assms(1) _ assms(3) b(1) assms(5) this k, of ord] cov show ?thesis
    by (simp add: acts_between_def)
next
  case False
  then have c: "c = Context" "complete l t = 0" and "content b = take t (session_stream l ps)"
    using assms(2) by (simp_all add: received_def complete_def)
  then have b1: "content b1 = take (t + length d) (session_stream l ps)"
    using assms(4,6) take_add [of t "length d" "session_stream l ps"] by simp
  then have r: "ReadableBytes b1 = t + length d" using length_content [OF assms(5)] assms(3) by simp
  have unset: "session_unset Context" by (simp add: session_unset_def Context_def)
  have ps: "0 < length ps" using assms(1) by (simp add: session_ok_def)
  show ?thesis
  proof (cases "8 \<le> t + length d")
    case True
    obtain c1 b2 where s: "read_session ord Context b1 = Inr (c1, b2)" "in_session (length ps) l 0 c1" "buffer_inv b2"
      "content b2 = take (t + length d - 8 - 0 * (l + 4)) (frames (drop 0 ps))" "writer_index b2 \<le> writer_index b1"
      using read_session_ok [OF assms(1,5) b1 True, of ord] by (auto elim!: res_ok_E)
    have "receiving_onMessage ord c b1 = receiving_onMessage ord c1 b2"
      using True r unset s(1) c(1) by (subst receiving_onMessage.simps) simp
    with received_loop [OF assms(1) _ assms(3) s(2,3,4), of ord] True s(5) c(2) ps show ?thesis
      by (auto elim!: res_ok_mono simp: acts_between_def)
  next
    case few: False
    then have "receiving_onMessage ord c b1 = Inr ([], c, b1)"
      using r unset c(1) by (subst receiving_onMessage.simps) simp
    with few c ps b1 assms(5) show ?thesis by (simp add: acts_between_def received_def complete_def shut_at_def)
  qed
qed

lemma receive_chunks_ok:
  assumes "session_ok l ps" "received l ps t c b" "t + length (concat ds) \<le> length (session_stream l ps)"
    "concat ds = take (length (concat ds)) (drop t (session_stream l ps))" "has_room (length (concat ds)) b"
  shows "res_ok (\<lambda>(acts, c', b'). acts = acts_between l ps t (t + length (concat ds)) \<and>
    received l ps (t + length (concat ds)) c' b') (receive_chunks ord c b ds)"
  using assms
proof (induction ds arbitrary: t c b)
  case Nil
  then show ?case by (simp add: acts_between_def shut_at_def)
next
  case (Cons d ds)
  let ?S = "session_stream l ps"
  have "d @ concat ds = take (length d) (drop t ?S) @ take (length (concat ds)) (drop (t + length d) ?S)"
    using Cons.prems(4) by (simp add: take_add add.commute)
  moreover have "length d = length (take (length d) (drop t ?S))" using Cons.prems(3) by simp
  ultimately have d: "d = take (length d) (drop t ?S)" "concat ds = take (length (concat ds)) (drop (t + length d) ?S)"
    using append_eq_append_conv by blast+
  have inv: "buffer_inv b" using Cons.prems(2) by (simp add: received_def)
  have room: "has_room (length d) b" using Cons.prems(5) by (simp add: has_room_def)
  obtain b1 where b1: "Write d b = Inr b1" "buffer_inv b1" "content b1 = content b @ d" "writer_index b1 \<le> writer_index b + length d"
    using Write_ok [OF inv room] by (auto elim!: res_ok_E)
  have t1: "t + length d \<le> length ?S" using Cons.prems(3) by simp
  obtain acts c1 b2 where s: "receiving_onMessage ord c b1 = Inr (acts, c1, b2)" "acts = acts_between l ps t (t + length d)"
    "received l ps (t + length d) c1 b2" "writer_index b2 \<le> writer_index b1"
    using received_step [OF Cons.prems(1,2) t1 d(1) b1(2,3), of ord] by (auto elim!: res_ok_E)
  have "has_room (length (concat ds)) b2" using Cons.prems(5) b1(4) s(4) by (simp add: has_room_def)
  moreover have t2: "t + length d + length (concat ds) \<le> length ?S" using Cons.prems(3) by simp
  ultimately have "res_ok (\<lambda>(acts, c', b'). acts = acts_between l ps (t + length d) (t + length d + length (concat ds)) \<and>
      received l ps (t + length d + length (concat ds)) c' b') (receive_chunks ord c1 b2 ds)"
    by (intro Cons.IH [OF Cons.prems(1) s(3) _ d(2)])
  moreover have "acts_between l ps t (t + length d) @ acts_between l ps (t + length d) (t + length d + length (concat ds)) =
      acts_between l ps t (t + length d + length (concat ds))"
    by (rule acts_between_trans) (use complete_bound [OF Cons.prems(1) t2] in simp_all)
  ultimately show ?case using b1(1) s(1,2) by (auto elim!: res_ok_E simp: add.assoc)
qed

section \<open>The transmitter\<close>

definition ttcp_block :: "nat \<Rightarrow> bytes" where
  "ttcp_block l = map ttcp_pattern [0..<l]"

lemma length_ttcp_block [simp]: "length (ttcp_block l) = l"
  by (simp add: ttcp_block_def)

definition transmitting :: "nat \<Rightarrow> nat \<Rightarrow> nat \<Rightarrow> ttcp_context \<Rightarrow> bool" where
  "transmitting n l k c \<longleftrightarrow> session c = \<lparr>number = word_of_nat n, slength = word_of_nat l\<rparr> \<and> ct_count c = int k \<and>
     ToStringView (ct_output c) = Inr (payload_frame (ttcp_block l))"

lemma trans_output_ok:
  assumes "l + 4 < 2 ^ 31"
  shows "res_ok (\<lambda>b. ToStringView b = Inr (payload_frame (ttcp_block l))) (trans_output ord (int l))"
proof -
  let ?h = "network_bytes 4 (word_of_nat l :: u32)" and ?b = "ByteBuffer kInitialSize"
  have size: "as_size (int l) = l" using assms by (simp add: as_size_def)
  have "Write (ttcp_block l) = (\<lambda>b. bindr (EnsureWritableBytes l b) (\<lambda>b'.
      SkipWriteBytes l (b'\<lparr>buffer := overwrite (BeginWrite b') (map ttcp_pattern [0..<l]) (buffer b')\<rparr>)))"
    by (rule ext) (simp add: Write_def, simp add: ttcp_block_def)
  then have out: "trans_output ord (int l) = bindr (Write ?h ?b) (Write (ttcp_block l))"
    by (simp add: trans_output_def size WriteInt32_def object_bytes_ghton)
  have b: "buffer_inv ?b" "content ?b = []" "has_room (length ?h + l) ?b"
    using assms by (simp_all add: kInitialSize_def has_room_def vector_max_size_def buffer_inv_ByteBuffer ByteBuffer_def
        buffer_inv_def content_def range_of_def)
  obtain b1 where b1: "Write ?h ?b = Inr b1" "buffer_inv b1" "content b1 = ?h" "has_room l b1"
    using buf.put_law [OF b(1,3)] b(2) by (auto elim!: res_ok_E)
  obtain b2 where b2: "Write (ttcp_block l) b1 = Inr b2" "buffer_inv b2" "content b2 = ?h @ ttcp_block l"
    using buf.put_ok [OF b1(2), of "ttcp_block l"] b1(3,4) by (auto elim!: res_ok_E)
  then show ?thesis using out b1(1) assms ToStringView_ok [OF b2(2)] by (simp add: payload_frame_def)
qed

lemma trans_connected_ok:
  assumes "l + 4 < 2 ^ 31" "n < 2 ^ 31"
  shows "res_ok (\<lambda>(acts, c). acts = [TSend (network_bytes 4 (word_of_nat n :: u32) @ ttcp_ack l), TSend (payload_frame (ttcp_block l))] \<and>
    transmitting n l 1 c) (trans_connected ord (int n) (int l))"
  using trans_output_ok [OF assms(1), of ord]
  by (auto elim!: res_ok_E simp: trans_connected_def object_bytes_ghton ttcp_ack_def transmitting_def)

lemma trans_acks:
  assumes "transmitting n l j c" "j \<le> n" "k \<le> Suc (n - j)" "n < 2 ^ 31" "buffer_inv b" "content b = concat (replicate k (ttcp_ack l))"
  shows "res_ok (\<lambda>(acts, c', b'). acts = replicate (min k (n - j)) (TSend (payload_frame (ttcp_block l))) @ shut_at (k = Suc (n - j)) \<and>
    ct_count c' = int (j + min k (n - j))) (trans_onMessage ord c b)"
  using assms
proof (induction k arbitrary: j c b)
  case 0
  then have "ReadableBytes b = 0" using length_content [OF 0(5)] by simp
  then have "trans_onMessage ord c b = Inr ([], c, b)" by (subst trans_onMessage.simps) simp
  then show ?case using 0 by (simp add: shut_at_def transmitting_def)
next
  case (Suc k)
  have c: "content b = network_bytes 4 (word_of_nat l :: u32) @ concat (replicate k (ttcp_ack l))"
    using Suc.prems(6) by (simp add: ttcp_ack_def)
  then have r: "4 \<le> ReadableBytes b" using length_content [OF Suc.prems(5)] by simp
  obtain b1 where b1: "ReadInt32 ord b = Inr (word_of_nat l, b1)" "buffer_inv b1" "content b1 = concat (replicate k (ttcp_ack l))"
    using ReadInt_wire(2) [OF Suc.prems(5) c, of ord] by (auto elim!: res_ok_E)
  have n: "sint (word_of_nat n :: u32) = int n" by (rule sint_small [OF Suc.prems(4)])
  let ?c = "c\<lparr>ct_count := ct_count c + 1, ct_bytes := ct_bytes c + sint (word_of_nat l :: u32)\<rparr>"
  have step: "trans_onMessage ord c b = (if j < n
      then mapr (\<lambda>(acts, r). (TSend (payload_frame (ttcp_block l)) # acts, r)) (trans_onMessage ord ?c b1)
      else Inr ([TShutdown], c, b1))"
    using r b1(1) n Suc.prems(1) by (subst trans_onMessage.simps) (simp add: transmitting_def)
  show ?case
  proof (cases "j < n")
    case True
    have "transmitting n l (Suc j) ?c" using Suc.prems(1) by (simp add: transmitting_def)
    from Suc.IH [OF this _ _ Suc.prems(4) b1(2,3)] True Suc.prems(3)
    have "res_ok (\<lambda>(acts, c', b'). acts = replicate (min k (n - Suc j)) (TSend (payload_frame (ttcp_block l))) @
        shut_at (k = Suc (n - Suc j)) \<and> ct_count c' = int (Suc j + min k (n - Suc j))) (trans_onMessage ord ?c b1)"
      by simp
    moreover have "min (Suc k) (n - j) = Suc (min k (n - Suc j))" "Suc k = Suc (n - j) \<longleftrightarrow> k = Suc (n - Suc j)"
      using True by auto
    ultimately show ?thesis using step True by (auto elim!: res_ok_E)
  next
    case False
    then show ?thesis using step Suc.prems(1-3) by (simp add: shut_at_def transmitting_def)
  qed
qed

fun sent_bytes :: "ttcp_act list \<Rightarrow> bytes" where
  "sent_bytes [] = []"
| "sent_bytes (TSend d # as) = d @ sent_bytes as"
| "sent_bytes (_ # as) = sent_bytes as"

lemma sent_bytes_append: "sent_bytes (as @ bs) = sent_bytes as @ sent_bytes bs"
  by (induction as rule: sent_bytes.induct) simp_all

lemma sent_bytes_replicate: "sent_bytes (replicate k (TSend d)) = concat (replicate k d)"
  by (induction k) simp_all

lemma sent_bytes_shut [simp]: "sent_bytes (shut_at x) = []"
  by (simp add: shut_at_def)

lemma take_session_stream:
  "m \<le> n \<Longrightarrow> take (8 + m * (l + 4)) (session_stream l (replicate n (ttcp_block l))) =
     network_bytes 4 (word_of_nat n :: u32) @ ttcp_ack l @ concat (replicate m (payload_frame (ttcp_block l)))"
proof -
  assume "m \<le> n"
  then have "frames (replicate n (ttcp_block l)) = concat (replicate m (payload_frame (ttcp_block l))) @ frames (replicate (n - m) (ttcp_block l))"
    using replicate_add [of m "n - m" "ttcp_block l"] by (simp add: frames_def map_replicate)
  moreover have "length (concat (replicate m (payload_frame (ttcp_block l)))) = m * (l + 4)"
    by (induction m) (simp_all add: payload_frame_def)
  ultimately show ?thesis by (simp add: session_stream_def ttcp_ack_def)
qed

section \<open>Properties\<close>

text \<open>C24: a receiver that has got any part of a session of \<open>n\<close> buffers of the announced length, cut into chunks in any way, does
  not fault, has acknowledged exactly the buffers that are complete, has counted them and their bytes, and has shut the
  connection down if and only if these are all of the session.\<close>

theorem ttcp_receives:
  assumes "ps \<noteq> []" "length ps < 2 ^ 31" "l + 4 < 2 ^ 31" "\<forall>p \<in> set ps. length p = l"
    and "concat chunks = take t (session_stream l ps)" "t \<le> 8 + length ps * (l + 4)"
    and "buffer_inv b" "content b = []" "has_room t b"
  shows "res_ok (\<lambda>(acts, c, b'). acts = replicate ((t - 8) div (l + 4)) (TSend (network_bytes 4 (word_of_nat l :: u32))) @
      (if (t - 8) div (l + 4) = length ps then [TShutdown] else []) \<and>
    ct_count c = int ((t - 8) div (l + 4)) \<and> ct_bytes c = int ((t - 8) div (l + 4) * l))
    (receive_chunks ord Context b chunks)"
proof -
  have ok: "session_ok l ps" using assms(1-4) by (simp add: session_ok_def)
  have len: "length (concat chunks) = t" using assms(5,6) length_session_stream [OF ok] by simp
  have "received l ps 0 Context b" using assms(7,8) by (simp add: received_def)
  from receive_chunks_ok [OF ok this, of chunks ord] len assms(5,6,9) length_session_stream [OF ok]
  have "res_ok (\<lambda>(acts, c', b'). acts = acts_between l ps 0 t \<and> received l ps t c' b') (receive_chunks ord Context b chunks)"
    by simp
  moreover have "ct_count c = int (complete l t) \<and> ct_bytes c = int (complete l t * l)" if "received l ps t c b'" for c b'
    using that by (cases "t < 8") (simp_all add: received_def in_session_def Context_def complete_def)
  ultimately show ?thesis
    using assms(1) by (auto elim!: res_ok_mono simp: acts_between_def complete_def ttcp_ack_def shut_at_def)
qed

theorem ttcp_receives_witness:
  "res_ok (\<lambda>(acts, c, b'). acts = [TSend [0, 0, 0, 1], TShutdown] \<and> ct_bytes c = 1)
    (receive_chunks LittleEndian Context (ByteBuffer 1) [[0, 0, 0, 1, 0], [0, 0, 1, 0, 0], [0, 1, 48]])"
proof -
  have s: "session_stream 1 [[48]] = [0, 0, 0, 1, 0, 0, 0, 1, 0, 0, 0, 1, 48]"
    by (simp add: session_stream_def payload_frame_def network_bytes_def bytes_le_def upt_rec)
  have a: "network_bytes 4 (1 :: u32) = [0, 0, 0, 1]"
    by (simp add: network_bytes_def bytes_le_def upt_rec)
  have "res_ok (\<lambda>(acts, c, b'). acts = replicate ((13 - 8) div (1 + 4)) (TSend (network_bytes 4 (word_of_nat 1 :: u32))) @
      (if (13 - 8) div (1 + 4) = length [[48 :: u8]] then [TShutdown] else []) \<and>
    ct_count c = int ((13 - 8) div (1 + 4)) \<and> ct_bytes c = int ((13 - 8) div (1 + 4) * 1))
    (receive_chunks LittleEndian Context (ByteBuffer 1) [[0, 0, 0, 1, 0], [0, 0, 1, 0, 0], [0, 1, 48]])"
    by (rule ttcp_receives [of "[[48]]"])
      (simp_all add: s [unfolded One_nat_def] has_room_def vector_max_size_def ByteBuffer_def buffer_inv_def content_def range_of_def)
  then show ?thesis by (rule res_ok_mono) (auto simp: a)
qed

text \<open>The length is not checked. A session that announces the length -4 makes every buffer empty: one message of four bytes
  is acknowledged as often as the session's number says.\<close>

lemma negative_length:
  assumes "session c = \<lparr>number = n, slength = word_of_int (- 4)\<rparr>" "ct_count c < sint n" "PeekInt32 ord b = Inr (word_of_int (- 4))"
    "4 \<le> ReadableBytes b" "buffer_inv b" "ToStringView (ct_output c) = Inr v"
  shows "mapr fst (receiving_onMessage ord c b) = Inr (replicate (nat (sint n - ct_count c)) (TSend v) @ [TShutdown])"
  using assms
proof (induction "nat (sint n - ct_count c)" arbitrary: c)
  case (Suc k)
  let ?c = "c\<lparr>ct_count := ct_count c + 1, ct_bytes := ct_bytes c + sint (word_of_int (- 4) :: u32)\<rparr>"
  have unset: "\<not> session_unset c" using Suc.prems(1) by (simp add: session_unset_def)
  have "sint (word_of_int (- 4) :: u32) = - 4" by simp
  then have t: "total_len (word_of_int (- 4)) = Inr 0" by (simp add: total_len_def)
  have b: "SkipReadBytes 0 b = Inr b" using Suc.prems(4) by (simp add: SkipReadBytes_def)
  have step: "receiving_onMessage ord c b =
      (if sint n \<le> ct_count c + 1 then Inr ([TSend v, TShutdown], ?c, b)
       else mapr (\<lambda>(acts, r). (TSend v # acts, r)) (receiving_onMessage ord ?c b))"
    using Suc.prems unset t b by (subst receiving_onMessage.simps) (simp add: Let_def)
  show ?case
  proof (cases "sint n \<le> ct_count c + 1")
    case True
    then have "nat (sint n - ct_count c) = 1" using Suc.prems(2) by simp
    then show ?thesis using step True by simp
  next
    case False
    have "mapr fst (receiving_onMessage ord ?c b) = Inr (replicate (nat (sint n - ct_count ?c)) (TSend v) @ [TShutdown])"
      by (rule Suc.hyps(1)) (use Suc.prems Suc.hyps(2) False in simp_all)
    moreover have "nat (sint n - ct_count c) = Suc (nat (sint n - ct_count ?c))" using False by simp
    ultimately show ?thesis using step False by (cases "receiving_onMessage ord ?c b") auto
  qed
qed simp



end
