(* ===== verification/Chat.thy ===== *)
theory Chat
  imports Codec
begin

text \<open>
  The chat servers of \<open>examples/chat\<close>. \<open>server.cc\<close>, and \<open>server_threaded.cc\<close> with the same handlers under a mutex, keep one
  set of connections; \<open>server_threaded_efficient.cc\<close> shares it copy-on-write, so that a message is sent without holding the
  mutex; \<open>server_threaded_highperformance.cc\<close> keeps a set in each thread and queues each message to all loops.

  A connection is a number, a \<open>std::set\<close> of connections the ordered list of its elements. The calls on connections are
  returned or recorded with the bytes that the codec sends.
\<close>

section \<open>One set\<close>

type_synonym chat_sends = "(nat \<times> bytes) list"

definition set_insert :: "nat \<Rightarrow> nat list \<Rightarrow> nat list" where
  "set_insert c cs = (if c \<in> set cs then cs else insort c cs)"

definition chat_onConnection :: "nat \<Rightarrow> bool \<Rightarrow> nat list \<Rightarrow> nat list" where
  "chat_onConnection conn connected connections =
     (if connected then set_insert conn connections else remove1 conn connections)"

fun chat_onStringMessage :: "byte_order \<Rightarrow> bytes \<Rightarrow> nat list \<Rightarrow> chat_sends res" where
  "chat_onStringMessage ord message [] = Inr []"
| "chat_onStringMessage ord message (c # cs) =
     bindr (codec_Send ord message) (\<lambda>f. mapr (\<lambda>r. (c, f) # r) (chat_onStringMessage ord message cs))"

section \<open>Copy on write\<close>

text \<open>The lists in the heap, \<open>connections_\<close>, and the first free address. A thread in \<open>onStringMessage\<close> holds its list and has a
  position in it; \<open>bc_expected\<close> is a ghost, the elements of the list when the thread got it.\<close>

record cow_server =
  cow_lists :: "nat \<Rightarrow> nat list"
  cow_current :: nat
  cow_next :: nat

record broadcast =
  bc_list :: nat
  bc_pos :: nat
  bc_message :: bytes
  bc_sent :: chat_sends
  bc_expected :: "nat list"

record cow_state =
  cow :: cow_server
  casts :: "broadcast list"
  finished :: "broadcast list"
  plain :: "nat list"                \<comment> \<open>ghost: the set of the simple server\<close>

text \<open>\<open>connections_.unique()\<close>\<close>

definition cow_unique :: "cow_server \<Rightarrow> broadcast list \<Rightarrow> bool" where
  "cow_unique s bs = list_all (\<lambda>b. bc_list b \<noteq> cow_current s) bs"

definition cow_copy :: "cow_server \<Rightarrow> cow_server" where
  "cow_copy s = s\<lparr>cow_lists := (cow_lists s)(cow_next s := cow_lists s (cow_current s)), cow_current := cow_next s,
     cow_next := Suc (cow_next s)\<rparr>"

definition cow_onConnection :: "nat \<Rightarrow> bool \<Rightarrow> broadcast list \<Rightarrow> cow_server \<Rightarrow> cow_server res" where
  "cow_onConnection conn connected bs s =
     (let s1 = (if cow_unique s bs then s else cow_copy s); l = cow_lists s1 (cow_current s1)
      in guard AssertFailed (cow_unique s1 bs)
        (Inr (s1\<lparr>cow_lists := (cow_lists s1)(cow_current s1 :=
           (if connected then set_insert conn l else remove1 conn l))\<rparr>)))"

definition getConnectionList :: "cow_server \<Rightarrow> nat" where
  "getConnectionList s = cow_current s"

text \<open>\<open>onStringMessage\<close>: get the list; send to the next connection of it.\<close>

definition cow_begin :: "bytes \<Rightarrow> cow_server \<Rightarrow> broadcast" where
  "cow_begin message s =
     \<lparr>bc_list = getConnectionList s, bc_pos = 0, bc_message = message, bc_sent = [],
      bc_expected = cow_lists s (getConnectionList s)\<rparr>"

definition cow_send :: "byte_order \<Rightarrow> cow_server \<Rightarrow> broadcast \<Rightarrow> broadcast res" where
  "cow_send ord s b =
     mapr (\<lambda>f. b\<lparr>bc_pos := Suc (bc_pos b), bc_sent := bc_sent b @ [(cow_lists s (bc_list b) ! bc_pos b, f)]\<rparr>)
       (codec_Send ord (bc_message b))"

definition cow_at_end :: "cow_server \<Rightarrow> broadcast \<Rightarrow> bool" where
  "cow_at_end s b \<longleftrightarrow> length (cow_lists s (bc_list b)) \<le> bc_pos b"

definition cow_start :: cow_state where
  "cow_start = \<lparr>cow = \<lparr>cow_lists = \<lambda>_. [], cow_current = 0, cow_next = 1\<rparr>, casts = [], finished = [], plain = []\<rparr>"

inductive cow_step :: "byte_order \<Rightarrow> cow_state \<Rightarrow> cow_state \<Rightarrow> bool" for ord where
  connection: "cow_onConnection conn up (casts S) (cow S) = Inr s \<Longrightarrow>
    cow_step ord S (S\<lparr>cow := s, plain := chat_onConnection conn up (plain S)\<rparr>)"
| message: "cow_step ord S (S\<lparr>casts := casts S @ [cow_begin m (cow S)]\<rparr>)"
| send: "casts S = xs @ b # ys \<Longrightarrow> \<not> cow_at_end (cow S) b \<Longrightarrow> cow_send ord (cow S) b = Inr b' \<Longrightarrow>
    cow_step ord S (S\<lparr>casts := xs @ b' # ys\<rparr>)"
| finish: "casts S = xs @ b # ys \<Longrightarrow> cow_at_end (cow S) b \<Longrightarrow>
    cow_step ord S (S\<lparr>casts := xs @ ys, finished := b # finished S\<rparr>)"

inductive cow_run :: "byte_order \<Rightarrow> cow_state \<Rightarrow> bool" for ord where
  start: "cow_run ord cow_start"
| step: "cow_run ord S \<Longrightarrow> cow_step ord S S' \<Longrightarrow> cow_run ord S'"

section \<open>A set in each thread\<close>

record hp_server =
  hp_local :: "nat \<Rightarrow> nat list option"    \<comment> \<open>\<open>localConnections\<close> of the thread of each loop\<close>
  hp_loops :: "nat list"
  hp_queue :: "nat \<Rightarrow> bytes list"         \<comment> \<open>the messages queued in each loop\<close>

definition threadInit :: "nat \<Rightarrow> hp_server \<Rightarrow> hp_server res" where
  "threadInit l s =
     guard AssertFailed (hp_local s l = None)
       (Inr (s\<lparr>hp_local := (hp_local s)(l \<mapsto> []), hp_loops := set_insert l (hp_loops s)\<rparr>))"

definition hp_onConnection :: "nat \<Rightarrow> nat \<Rightarrow> bool \<Rightarrow> hp_server \<Rightarrow> hp_server res" where
  "hp_onConnection l conn connected s =
     (case hp_local s l of None \<Rightarrow> Inl InvalidAccess
      | Some cs \<Rightarrow> Inr (s\<lparr>hp_local := (hp_local s)(l \<mapsto> (if connected then set_insert conn cs else remove1 conn cs))\<rparr>))"

definition hp_onStringMessage :: "bytes \<Rightarrow> hp_server \<Rightarrow> hp_server" where
  "hp_onStringMessage message s =
     s\<lparr>hp_queue := fold (\<lambda>l q. q(l := q l @ [message])) (hp_loops s) (hp_queue s)\<rparr>"

definition distributeMessage :: "byte_order \<Rightarrow> nat \<Rightarrow> bytes \<Rightarrow> hp_server \<Rightarrow> chat_sends res" where
  "distributeMessage ord l message s =
     (case hp_local s l of None \<Rightarrow> Inl InvalidAccess | Some cs \<Rightarrow> chat_onStringMessage ord message cs)"

text \<open>\<open>posted\<close>, \<open>joined\<close> and \<open>distributed\<close> are ghosts: the messages so far; how many there were when a loop was initialized; what
  each loop has distributed, with the connections it had then.\<close>

record hp_state =
  hp :: hp_server
  posted :: "bytes list"
  joined :: "nat \<Rightarrow> nat"
  distributed :: "nat \<Rightarrow> (bytes \<times> nat list \<times> chat_sends) list"

definition hp_start :: hp_state where
  "hp_start = \<lparr>hp = \<lparr>hp_local = Map.empty, hp_loops = [], hp_queue = \<lambda>_. []\<rparr>, posted = [], joined = \<lambda>_. 0, distributed = \<lambda>_. []\<rparr>"

inductive hp_step :: "byte_order \<Rightarrow> hp_state \<Rightarrow> hp_state \<Rightarrow> bool" for ord where
  init: "threadInit l (hp S) = Inr s \<Longrightarrow> hp_step ord S (S\<lparr>hp := s, joined := (joined S)(l := length (posted S))\<rparr>)"
| connection: "hp_onConnection l conn up (hp S) = Inr s \<Longrightarrow> hp_step ord S (S\<lparr>hp := s\<rparr>)"
| message: "hp_step ord S (S\<lparr>hp := hp_onStringMessage m (hp S), posted := posted S @ [m]\<rparr>)"
| distribute: "hp_queue (hp S) l = m # ms \<Longrightarrow> distributeMessage ord l m (hp S) = Inr sends \<Longrightarrow>
    hp_step ord S (S\<lparr>hp := (hp S)\<lparr>hp_queue := (hp_queue (hp S))(l := ms)\<rparr>,
      distributed := (distributed S)(l := distributed S l @ [(m, the (hp_local (hp S) l), sends)])\<rparr>)"

inductive hp_run :: "byte_order \<Rightarrow> hp_state \<Rightarrow> bool" for ord where
  start: "hp_run ord hp_start"
| step: "hp_run ord S \<Longrightarrow> hp_step ord S S' \<Longrightarrow> hp_run ord S'"

end
