(* ===== verification/Chat_Correct.thy ===== *)
theory Chat_Correct
  imports Chat
begin

text \<open>
  The copy-on-write server sends every message to the connections of one moment and keeps the set of the simple server; the
  server with a set per thread delivers all messages in one order.
\<close>

section \<open>Copy on write\<close>

lemma chat_onStringMessage_map:
  "codec_Send ord m = Inr f \<Longrightarrow> chat_onStringMessage ord m cs = Inr (map (\<lambda>c. (c, f)) cs)"
  by (induction cs) auto

definition cast_sent :: "byte_order \<Rightarrow> broadcast \<Rightarrow> bool" where
  "cast_sent ord b \<longleftrightarrow> chat_onStringMessage ord (bc_message b) (take (bc_pos b) (bc_expected b)) = Inr (bc_sent b)"

definition cow_inv :: "byte_order \<Rightarrow> cow_state \<Rightarrow> bool" where
  "cow_inv ord S \<longleftrightarrow> cow_current (cow S) < cow_next (cow S) \<and> cow_lists (cow S) (cow_current (cow S)) = plain S \<and>
     (\<forall>b \<in> set (casts S). cow_lists (cow S) (bc_list b) = bc_expected b \<and> bc_list b < cow_next (cow S) \<and> cast_sent ord b) \<and>
     (\<forall>b \<in> set (finished S). length (bc_expected b) \<le> bc_pos b \<and> cast_sent ord b)"

lemma cow_onConnection_ok:
  assumes "cow_current s < cow_next s" "\<forall>b \<in> set bs. bc_list b < cow_next s"
  shows "res_ok (\<lambda>s'. cow_current s' < cow_next s' \<and> cow_next s \<le> cow_next s' \<and>
    cow_lists s' (cow_current s') = chat_onConnection conn up (cow_lists s (cow_current s)) \<and>
    (\<forall>b \<in> set bs. cow_lists s' (bc_list b) = cow_lists s (bc_list b))) (cow_onConnection conn up bs s)"
proof (cases "cow_unique s bs")
  case True
  then show ?thesis using assms
    by (auto simp: cow_onConnection_def chat_onConnection_def cow_unique_def list_all_iff Let_def)
next
  case False
  have "cow_unique (cow_copy s) bs" using assms(2) by (auto simp: cow_unique_def cow_copy_def list_all_iff)
  then show ?thesis using assms False
    by (auto simp: cow_onConnection_def chat_onConnection_def cow_copy_def Let_def)
qed

lemma cast_sent_send:
  assumes "cast_sent ord b" "bc_pos b < length (bc_expected b)" "cow_lists s (bc_list b) = bc_expected b" "cow_send ord s b = Inr b'"
  shows "cast_sent ord b'" "bc_list b' = bc_list b" "bc_expected b' = bc_expected b"
proof -
  obtain f where f: "codec_Send ord (bc_message b) = Inr f"
    and b': "b' = b\<lparr>bc_pos := Suc (bc_pos b), bc_sent := bc_sent b @ [(bc_expected b ! bc_pos b, f)]\<rparr>"
    using assms(3,4) by (auto simp: cow_send_def mapr_eq_Inr)
  then show "cast_sent ord b'" "bc_list b' = bc_list b" "bc_expected b' = bc_expected b"
    using assms(1,2) by (simp_all add: cast_sent_def chat_onStringMessage_map take_Suc_conv_app_nth)
qed

lemma cow_step_inv:
  assumes "cow_step ord S S'" "cow_inv ord S"
  shows "cow_inv ord S'"
  using assms(1)
proof cases
  case (connection conn up s)
  have "res_ok (\<lambda>s'. cow_current s' < cow_next s' \<and> cow_next (cow S) \<le> cow_next s' \<and>
    cow_lists s' (cow_current s') = chat_onConnection conn up (cow_lists (cow S) (cow_current (cow S))) \<and>
    (\<forall>b \<in> set (casts S). cow_lists s' (bc_list b) = cow_lists (cow S) (bc_list b)))
    (cow_onConnection conn up (casts S) (cow S))"
    using assms(2) by (intro cow_onConnection_ok) (simp_all add: cow_inv_def)
  then show ?thesis using connection assms(2) by (fastforce simp: cow_inv_def)
next
  case (message m)
  then show ?thesis using assms(2) by (auto simp: cow_inv_def cow_begin_def getConnectionList_def cast_sent_def)
next
  case (send xs b ys b')
  have "bc_pos b < length (bc_expected b)" "cow_lists (cow S) (bc_list b) = bc_expected b" "cast_sent ord b"
    using send assms(2) by (auto simp: cow_inv_def cow_at_end_def not_le)
  with cast_sent_send [of ord b "cow S" b'] send(4) have "cast_sent ord b'" "bc_list b' = bc_list b" "bc_expected b' = bc_expected b"
    by blast+
  then show ?thesis using send assms(2) by (auto simp: cow_inv_def)
next
  case (finish xs b ys)
  then show ?thesis using assms(2) by (auto simp: cow_inv_def cow_at_end_def)
qed

lemma cow_run_inv: "cow_run ord S \<Longrightarrow> cow_inv ord S"
  by (induction rule: cow_run.induct) (simp add: cow_inv_def cow_start_def, rule cow_step_inv)

section \<open>A set in each thread\<close>

lemma fold_post:
  "distinct ls \<Longrightarrow> fold (\<lambda>l q. q(l := q l @ [m])) ls q = (\<lambda>l. if l \<in> set ls then q l @ [m] else q l)"
  by (induction ls arbitrary: q) (auto simp: fun_eq_iff)

definition loop_inv :: "byte_order \<Rightarrow> hp_state \<Rightarrow> nat \<Rightarrow> bool" where
  "loop_inv ord S l \<longleftrightarrow> (l \<in> set (hp_loops (hp S)) \<longleftrightarrow> hp_local (hp S) l \<noteq> None) \<and>
     (\<forall>(m, cs, sends) \<in> set (distributed S l). chat_onStringMessage ord m cs = Inr sends) \<and>
     (if l \<in> set (hp_loops (hp S))
      then joined S l \<le> length (posted S) \<and> map fst (distributed S l) @ hp_queue (hp S) l = drop (joined S l) (posted S)
      else hp_queue (hp S) l = [] \<and> distributed S l = [])"

definition hp_inv :: "byte_order \<Rightarrow> hp_state \<Rightarrow> bool" where
  "hp_inv ord S \<longleftrightarrow> distinct (hp_loops (hp S)) \<and> (\<forall>l. loop_inv ord S l)"

lemma set_set_insert: "set (set_insert c cs) = insert c (set cs)"
  by (auto simp: set_insert_def set_insort_key)

lemma distinct_set_insert: "distinct cs \<Longrightarrow> distinct (set_insert c cs)"
  by (simp add: set_insert_def distinct_insort)

lemma hp_step_inv:
  assumes "hp_step ord S S'" "hp_inv ord S"
  shows "hp_inv ord S'"
  using assms(1)
proof cases
  case (init l s)
  have "hp_local (hp S) l = None" "s = (hp S)\<lparr>hp_local := (hp_local (hp S))(l \<mapsto> []), hp_loops := set_insert l (hp_loops (hp S))\<rparr>"
    using init(2) by (auto simp: threadInit_def guard_def split: if_splits)
  moreover have "loop_inv ord S k" for k using assms(2) by (simp add: hp_inv_def)
  ultimately have "loop_inv ord S' k" for k
    using init(1) by (cases "k = l") (fastforce simp: loop_inv_def set_set_insert)+
  then show ?thesis using assms(2) init(1) \<open>s = _\<close> by (simp add: hp_inv_def distinct_set_insert)
next
  case (connection l conn up s)
  then obtain cs where "hp_local (hp S) l \<noteq> None" "s = (hp S)\<lparr>hp_local := (hp_local (hp S))(l \<mapsto> cs)\<rparr>"
    by (auto simp: hp_onConnection_def split: option.splits)
  then show ?thesis using assms(2) connection(1) by (auto simp: hp_inv_def loop_inv_def)
next
  case (message m)
  have d: "distinct (hp_loops (hp S))" using assms(2) by (simp add: hp_inv_def)
  have "loop_inv ord S' l" for l
  proof -
    have "loop_inv ord S l" using assms(2) by (simp add: hp_inv_def)
    then show ?thesis using message
      by (cases "l \<in> set (hp_loops (hp S))") (auto simp: loop_inv_def hp_onStringMessage_def fold_post [OF d] simp flip: append_assoc)
  qed
  then show ?thesis using d message by (simp add: hp_inv_def hp_onStringMessage_def)
next
  case (distribute l m ms sends)
  have l: "loop_inv ord S l" using assms(2) by (simp add: hp_inv_def)
  then have up: "l \<in> set (hp_loops (hp S))" using distribute(2) by (auto simp: loop_inv_def split: if_splits)
  have "chat_onStringMessage ord m (the (hp_local (hp S) l)) = Inr sends"
    using distribute(3) by (auto simp: distributeMessage_def split: option.splits)
  moreover have "map fst (distributed S l) @ m # ms = drop (joined S l) (posted S)" using l up distribute(2) by (simp add: loop_inv_def)
  ultimately have "loop_inv ord S' k" for k
    using assms(2) l up distribute(1) by (cases "k = l") (auto simp: hp_inv_def loop_inv_def)
  then show ?thesis using assms(2) distribute(1) by (simp add: hp_inv_def)
qed

lemma hp_run_inv: "hp_run ord S \<Longrightarrow> hp_inv ord S"
  by (induction rule: hp_run.induct) (simp add: hp_inv_def loop_inv_def hp_start_def, rule hp_step_inv)

section \<open>Properties\<close>

text \<open>C22: in every interleaving of connections and broadcasts the copy-on-write server has the set that the simple server would
  have, never fails its assertion, and a broadcast that has finished has done what the simple server's \<open>onStringMessage\<close>
  does with the connections of the moment when it began, whatever connected or disconnected meanwhile.\<close>

theorem chat_snapshot:
  assumes "cow_run ord S"
  shows "cow_lists (cow S) (cow_current (cow S)) = plain S \<and>
    (\<forall>conn up. \<exists>s. cow_onConnection conn up (casts S) (cow S) = Inr s) \<and>
    (\<forall>b \<in> set (finished S). chat_onStringMessage ord (bc_message b) (bc_expected b) = Inr (bc_sent b))"
proof (intro conjI allI ballI)
  note inv = cow_run_inv [OF assms, unfolded cow_inv_def]
  show "cow_lists (cow S) (cow_current (cow S)) = plain S" using inv by simp
  show "\<exists>s. cow_onConnection conn up (casts S) (cow S) = Inr s" for conn up
    using cow_onConnection_ok [of "cow S" "casts S" conn up] inv by (auto elim!: res_ok_E)
  show "chat_onStringMessage ord (bc_message b) (bc_expected b) = Inr (bc_sent b)" if "b \<in> set (finished S)" for b
    using inv that by (auto simp: cast_sent_def)
qed

text \<open>A connection that comes, a message, and the connection that goes before the message is sent.\<close>

definition demo_cast :: "nat \<Rightarrow> chat_sends \<Rightarrow> broadcast" where
  "demo_cast pos sends = \<lparr>bc_list = 0, bc_pos = pos, bc_message = [65], bc_sent = sends, bc_expected = [7]\<rparr>"

definition demo_cow :: "cow_server \<Rightarrow> nat list \<Rightarrow> broadcast list \<Rightarrow> broadcast list \<Rightarrow> cow_state" where
  "demo_cow s p bs fs = \<lparr>cow = s, casts = bs, finished = fs, plain = p\<rparr>"

definition demo_shared :: cow_server where
  "demo_shared = \<lparr>cow_lists = (\<lambda>_. [])(0 := [7]), cow_current = 0, cow_next = 1\<rparr>"

definition demo_copied :: cow_server where
  "demo_copied = \<lparr>cow_lists = (\<lambda>_. [])(0 := [7], 1 := [7], 1 := []), cow_current = 1, cow_next = 2\<rparr>"

lemma demo_cow_run:
  assumes "codec_Send ord [65] = Inr f"
  shows "cow_run ord (demo_cow demo_copied [] [] [demo_cast 1 [(7, f)]])"
proof -
  have "cow_run ord (demo_cow demo_shared [7] [] [])"
    using cow_run.step [OF cow_run.start cow_step.connection [of 7 True cow_start demo_shared]]
    by (simp add: cow_start_def cow_onConnection_def cow_unique_def demo_cow_def demo_shared_def chat_onConnection_def set_insert_def Let_def)
  from cow_run.step [OF this cow_step.message, of "[65]"]
  have m: "cow_run ord (demo_cow demo_shared [7] [demo_cast 0 []] [])"
    by (simp add: demo_cow_def cow_begin_def getConnectionList_def demo_shared_def demo_cast_def)
  have "cow_onConnection 7 False [demo_cast 0 []] demo_shared = Inr demo_copied"
    by (simp add: cow_onConnection_def cow_unique_def demo_shared_def demo_copied_def demo_cast_def cow_copy_def Let_def)
  with cow_run.step [OF m cow_step.connection [of 7 False _ demo_copied]]
  have "cow_run ord (demo_cow demo_copied [] [demo_cast 0 []] [])"
    by (simp add: demo_cow_def chat_onConnection_def)
  moreover have "cow_send ord demo_copied (demo_cast 0 []) = Inr (demo_cast 1 [(7, f)])"
    using assms by (simp add: cow_send_def demo_cast_def demo_copied_def)
  ultimately have "cow_run ord (demo_cow demo_copied [] [demo_cast 1 [(7, f)]] [])"
    using cow_run.step cow_step.send [of "demo_cow demo_copied [] [demo_cast 0 []] []" "[]" "demo_cast 0 []" "[]" ord "demo_cast 1 [(7, f)]"]
    by (fastforce simp: demo_cow_def cow_at_end_def demo_cast_def demo_copied_def)
  then show ?thesis
    using cow_run.step cow_step.finish [of "demo_cow demo_copied [] [demo_cast 1 [(7, f)]] []" "[]" "demo_cast 1 [(7, f)]" "[]" ord]
    by (fastforce simp: demo_cow_def cow_at_end_def demo_cast_def demo_copied_def)
qed

theorem chat_snapshot_witness:
  "\<exists>f. codec_Send LittleEndian [65] = Inr f \<and> chat_onStringMessage LittleEndian [65] [7] = Inr [(7, f)]"
proof -
  obtain f where f: "codec_Send LittleEndian [65] = Inr f" using codec_Send_encode [of "[65]"] by (simp add: vector_max_size_def)
  from chat_snapshot [OF demo_cow_run [OF f]] f show ?thesis by (simp add: demo_cow_def demo_cast_def)
qed

text \<open>C23: in every interleaving of the threads each loop distributes the messages posted since it was initialized, all of them, once
  and in the one order in which they were posted; those not yet distributed are in its queue. Each is sent to exactly the
  connections the loop has at that moment.\<close>

theorem chat_total_order:
  assumes "hp_run ord S" "l \<in> set (hp_loops (hp S))"
  shows "map fst (distributed S l) @ hp_queue (hp S) l = drop (joined S l) (posted S) \<and>
    (\<forall>(m, cs, sends) \<in> set (distributed S l). chat_onStringMessage ord m cs = Inr sends)"
  using hp_run_inv [OF assms(1)] assms(2) by (simp add: hp_inv_def loop_inv_def)

theorem chat_total_order_witness:
  "\<exists>S. hp_run LittleEndian S \<and> posted S = [[65]] \<and> hp_queue (hp S) 3 = [[65]] \<and> map fst (distributed S 3) = []"
proof -
  let ?s = "\<lparr>hp_local = [3 \<mapsto> []], hp_loops = [3], hp_queue = \<lambda>_. []\<rparr>"
  let ?S = "\<lparr>hp = ?s, posted = [], joined = (\<lambda>_. 0)(3 := 0), distributed = \<lambda>_. []\<rparr>"
  have "threadInit 3 (hp hp_start) = Inr ?s" by (simp add: threadInit_def hp_start_def set_insert_def)
  from hp_run.step [OF hp_run.start hp_step.init [OF this]] have "hp_run LittleEndian ?S"
    by (simp add: hp_start_def)
  from hp_run.step [OF this hp_step.message, of "[65]"]
  have run: "hp_run LittleEndian (?S\<lparr>hp := hp_onStringMessage [65] ?s, posted := [[65]]\<rparr>)" by simp
  from chat_total_order [OF this, of 3] run show ?thesis
    by (intro exI [of _ "?S\<lparr>hp := hp_onStringMessage [65] ?s, posted := [[65]]\<rparr>"]) (simp add: hp_onStringMessage_def)
qed

end
