(* ===== verification/Spec2Isabelle.thy ===== *)
theory Spec2Isabelle
  imports Loop_Threads Conn_Faults Server_Correct Client_Correct TTCP_Correct Chat_Correct "HOL-Library.Sublist"
begin

text \<open>
  A verification of raner, an event-driven network library in C++ (\<open>src/raner\<close>), and of the servers among its examples
  (\<open>src/examples\<close>).

  \<^bold>\<open>The program.\<close> An \<open>EpollServer\<close> watches descriptors with \<open>epoll\<close> and calls the callbacks registered for them and the
  alarms that are due. An \<open>EventLoop\<close> runs a server in one thread and calls functors that any thread queues; an
  \<open>EventLoopThread\<close> is a thread with a loop, an \<open>EventLoopThreadPool\<close> hands several of them out. An \<open>EpollTimer\<close> is an
  alarm with a deadline. A \<open>Socket\<close> owns a descriptor. A \<open>TCPConnection\<close> is a socket in a loop with a \<open>ByteBuffer\<close> for input and
  one for output; a \<open>TCPServer\<close> accepts connections and spreads them over the loops of a pool, a \<open>TCPClient\<close> connects and
  retries. The examples put protocols on top: \<open>LengthHeaderCodec\<close> and the chat servers, and \<open>ttcp\<close>.

  \<^bold>\<open>Conventions\<close> (\<open>Raner_Prelude\<close>). Every operation is a function on an explicit state. One that can fail returns
  \<open>fault + 'a\<close>: a failing \<open>assert\<close>, \<open>DCHECK\<close>, \<open>CHECK\<close> or \<open>LOG(FATAL)\<close>, an exception, and each undefined behaviour (dangling or
  null pointer, signed overflow) is a value. Integers are words, or integers with the wrap-around or overflow written out where it can
  happen. The kernel, the clock and the callbacks of the user are parameters: oracles that may answer differently every
  time, since they see the trace of what happened so far. What a theorem needs of them (a \<open>send\<close> that does not claim
  more bytes than it was given, an \<open>epoll_wait\<close> that respects the size of its array) is a named hypothesis. Threads are step
  relations whose steps are the accesses to shared data.

  \<^bold>\<open>Theories, code and results.\<close>

  \<^item> \<open>Endian\<close> (\<open>raner/endian.h\<close>): byte swaps and conversions for hosts of either order; the portable expressions equal the
    built-in functions.
  \<^item> \<open>Byte_Buffer\<close> (\<open>raner/byte_buffer.h\<close>, \<open>.cc\<close>): all operations. The buffer is a byte queue (locale \<open>byte_fifo\<close>, interpretation
    \<open>buf\<close>); integers are read back as written; \<open>ReadFD\<close> appends what \<open>readv\<close> delivers.
  \<^item> \<open>Codec\<close> (\<open>examples/chat/codec.h\<close>): \<open>OnMessage\<close> computes a reference parser, and frames survive any cutting of the stream.
  \<^item> \<open>Epoll_Server\<close> (\<open>raner/epoll_server.h\<close>, \<open>.cc\<close>): the server with its ready lists as linked nodes. \<open>Ready_List\<close> relates the
    pointers to lists, \<open>Epoll_Spec\<close> has the abstract server and the simulation, \<open>Epoll_Alarms\<close> the multimap of alarms
    (and the locale \<open>fd_frame\<close>), \<open>Epoll_Callbacks\<close> what callbacks may do (locale \<open>ops_contract\<close>), \<open>Epoll_Pass\<close> a pass (locale
    \<open>server_contract\<close>), and
    \<open>Epoll_Correct\<close> the results: memory safety, refinement, callbacks only while registered and once per pass, the
    kernel's interest list in step. \<open>Alarm_Loop\<close> shows that a pass ends and alarms are called in order.
    \<open>Epoll_Registry\<close> is the interface for the layers above (locale \<open>fd_registry\<close>).
  \<^item> \<open>Epoll_Timer\<close> (\<open>raner/time.h\<close>, \<open>.cc\<close>, \<open>raner/epoll_timer.h\<close>, \<open>.cc\<close>): times, and timers over the alarms (locale
    \<open>alarm_service\<close>): a timer is registered exactly for its deadline.
  \<^item> \<open>Event_Loop\<close> (\<open>raner/event_loop.h\<close>, \<open>.cc\<close>): the loop and its interleaving with other threads: functors are called once and in
    order, no wake-up is lost, and after \<open>Quit\<close> at most one more pass begins.
  \<^item> \<open>Loop_Threads\<close> (\<open>raner/event_loop_thread.h\<close>, \<open>.cc\<close>, \<open>raner/event_loop_thread_pool.h\<close>, \<open>.cc\<close>): start and destruction of a
    thread as two interleaved threads, safe and without deadlock while only the owner quits the loop; the pool.
  \<^item> \<open>Socket\<close> (\<open>raner/socket.h\<close>, \<open>.cc\<close>): all operations with \<open>errno\<close> and the \<open>EINTR\<close> macros: descriptors are neither leaked nor
    closed twice, and \<open>WriteNumBytes\<close> sends each byte once.
  \<^item> \<open>TCP_Connection\<close> (\<open>raner/tcp_connection.h\<close>, \<open>.cc\<close>), with its invariant in \<open>Conn_Inv\<close> and the runs in \<open>Conn_Correct\<close>: no byte is
    lost or reordered, registrations follow the state and the output buffer, the callbacks follow the life of the connection,
    and the sending side is shut down after the last byte. \<open>Conn_Faults\<close> has what goes wrong: a send that would block, two
    threads in \<open>ForceClose\<close>, destruction during a shutdown.
  \<^item> \<open>TCP_Server\<close> (\<open>raner/tcp_server.h\<close>, \<open>.cc\<close>), with the runs over all threads in \<open>Server_Inv\<close> (which relies on the locale
    \<open>closing_connection\<close>) and the results in \<open>Server_Correct\<close>: each connection is established, removed and destroyed once and in
    the right loop, and the map has the live ones.
  \<^item> \<open>TCP_Client\<close> (\<open>raner/tcp_client.h\<close>, \<open>.cc\<close>) and \<open>Client_Correct\<close>: the state stays well-formed, and retries back off from 500
    milliseconds to 30 seconds.
  \<^item> \<open>Chat\<close> and \<open>Chat_Correct\<close> (\<open>examples/chat/server*.cc\<close>): the copy-on-write server refines the simple one, the server with
    thread-local sets delivers messages in one order.
  \<^item> \<open>TTCP\<close> and \<open>TTCP_Correct\<close> (\<open>examples/ttcp\<close>): both sides of the protocol.
  \<^item> This theory: messages through codec, connection and network.

  \<^bold>\<open>Bounds.\<close> The alarm loop of a pass takes fuel; \<open>pass_terminates\<close> shows that enough fuel exists when callbacks register no
  alarm that is already due, and \<open>alarm_loop_diverges\<close> that this condition is needed. \<open>Loop\<close> takes a number of iterations and the fuel
  of its passes; running out is the fault \<open>OutOfFuel\<close>. The \<open>EINTR\<close> loops take a number of retries; \<open>OutOfFuel\<close> there stands for a call
  that is interrupted that often. The other loops terminate by proof. Sizes of vectors are limited by
  \<open>vector_max_size\<close>, as in the standard library.

  \<^bold>\<open>Composition.\<close> The connection runs on the model of the loop and the server. The server and the client record the calls they
  make on connections, with the loop they are made in, and rely on \<open>conn_lifecycle\<close>'s invariant for when a connection calls
  back. Queued functors of the server, the client and the chat servers are lists served in order, which is what
  \<open>Event_Loop\<close> shows of a loop.

  \<^bold>\<open>Not modelled.\<close> Logging, the event recorder and the crash dump of the epoll server, which only produce text;
  \<open>Time::ToFormattedString\<close> and the branches for \<open>OS_POSIX\<close>, which is never defined; \<open>Socket::GetTCPInfo\<close> and
  \<open>GetTCPInfoString\<close>; \<open>safe_strerror\<close> and \<open>SleepUsec\<close>; contexts stored as \<open>std::any\<close>, which the library only keeps; the memory
  model (accesses to shared data are sequentially consistent) and the lifetimes managed by \<open>shared_ptr\<close>, except for the
  test \<open>unique()\<close>. Of the examples, the main functions, the chat client, its load test and the ping-pong benchmark, whose handlers
  only print, count or send a buffer back.
\<close>

section \<open>Messages over a connection\<close>

definition framing_env :: conn_env where
  "framing_env = demo_conn_env\<lparr>e_user := \<lambda>c W. if c = OnConnection True then [UserSend [0, 0, 0, 1, 65]] else []\<rparr>"

definition framing_up :: world where
  "framing_up = projr (ConnectEstablished framing_env demo_world)"

lemma framing_run: "conn_run framing_env 9 framing_up"
proof -
  have "isl (ConnectEstablished framing_env demo_world) = False" by code_simp
  then have "ConnectEstablished framing_env demo_world = Inr framing_up" by (simp add: framing_up_def)
  then show ?thesis by (intro conn_run.step [OF conn_run.start [OF demo_world_start] conn_step.establish])
qed

lemma framing_env_ok: "conn_env_ok framing_env"
proof -
  have "5 \<le> vector_max_size" by (simp add: vector_max_size_def)
  then show ?thesis using demo_conn_env_ok by (simp add: conn_env_ok_def framing_env_def demo_conn_env_def)
qed

lemma framing_fields:
  "\<not> s_error (c_socket (w_conn framing_up))" "w_accepted framing_up = [0, 0, 0, 1, 65]"
  "sent 9 (sys_trace (w_os framing_up)) = [0, 0, 0]" "content (c_output (w_conn framing_up)) = [1, 65]"
  by code_simp+

text \<open>A receiver that has a part of a stream of frames has decoded a part of the messages.\<close>

lemma decode_prefix:
  assumes "\<forall>m \<in> set ms. length m \<le> 65536" "p @ q = concat (map encode ms)" "decode p = (es, r)"
  shows "ShutdownConn \<notin> set es" "prefix es (map Message ms)" "q = [] \<Longrightarrow> es = map Message ms"
proof -
  have all: "decode (p @ q) = (map Message ms, [])" using decode_encode_all [OF assms(1)] assms(2) by simp
  then show no: "ShutdownConn \<notin> set es" using decode_shutdown_append [of p q] assms(3) by auto
  show "prefix es (map Message ms)"
    using decode_append [OF assms(3) no, of q] all by (auto split: prod.splits)
  show "es = map Message ms" if "q = []" using that all assms(3) by simp
qed



end
